theory Spec2Isabelle
  imports Complex_Main "HOL-Library.Word" "HOL-Library.Monad_Syntax"
    "HOL-Library.Char_ord" "HOL-Library.List_Lexorder"
begin

unbundle bit_operations_syntax

section \<open>Trajectories and luck-adjusted TD(lambda) returns\<close>

text \<open>
  The C++ type \<^verbatim>\<open>double\<close> is modelled by \<^typ>\<open>real\<close>: the statements below are about the
  arithmetic the code writes down, not about rounding. The C++ type \<^verbatim>\<open>int\<close> is modelled by
  \<^typ>\<open>int\<close>, and a computation that would leave the 32-bit range (undefined behaviour in
  C++) or read a vector out of range yields \<open>None\<close>.
\<close>

record traj_state =
  observation :: "real list"
  current_player :: int
  action :: int
  state_value :: real  \<comment> \<open>field \<^verbatim>\<open>value\<close>: value after applying action\<close>
  accum_luck :: real   \<comment> \<open>always for player 0\<close>

record trajectory =
  states :: "traj_state list"
  returns :: "real list"

definition INT_MAX :: int where
  "INT_MAX = 2147483647"

text \<open>The expression \<^verbatim>\<open>x.value * (x.current_player == 0 ? 1 : -1)\<close>.\<close>

definition player0_value :: "traj_state \<Rightarrow> real" where
  "player0_value st = state_value st * (if current_player st = 0 then 1 else - 1)"

text \<open>
  The helper \<^verbatim>\<open>Near\<close> is declared in \<^verbatim>\<open>spiel_utils.h\<close>, which is not among the sources;
  \<open>TdLambdaReturns\<close> takes it as the parameter \<open>near\<close>. \<open>Near\<close> below is the comparison
  that header is known for, used where a concrete instance is needed: the absolute difference
  is at most the larger magnitude times the threshold ratio, which is the \<^verbatim>\<open>float\<close> constant
  \<^verbatim>\<open>1e-5f\<close>, that is, \<open>2748779 / 2^38\<close> (about \<open>9.99999975e-06\<close>).
\<close>

definition Near :: "real \<Rightarrow> real \<Rightarrow> bool" where
  "Near a b = (\<bar>a - b\<bar> \<le> max \<bar>a\<bar> \<bar>b\<bar> * (2748779 / 274877906944))"

text \<open>
  The \<^verbatim>\<open>for\<close> loop of \<^verbatim>\<open>TdLambdaReturns\<close>, entered with \<open>i = state_idx + 1\<close>,
  \<open>lambda_pow = td_lambda\<close> and \<open>retval\<close> already scaled by \<open>1 - td_lambda\<close>.
\<close>

function td_loop ::
  "traj_state list \<Rightarrow> real \<Rightarrow> real \<Rightarrow> real \<Rightarrow> int \<Rightarrow> int \<Rightarrow> nat \<Rightarrow> real \<Rightarrow> real \<Rightarrow> real"
where
  "td_loop sts accum outcome td_lambda state_idx td_n_steps i lambda_pow retval =
     (if i < length sts then
        (let i_state = sts ! i;
             v = player0_value i_state - (accum_luck i_state - accum)
         in if td_n_steps > 0 \<and> int i = state_idx + td_n_steps
            then retval + lambda_pow * v
            else td_loop sts accum outcome td_lambda state_idx td_n_steps (i + 1)
                   (lambda_pow * td_lambda) (retval + (1 - td_lambda) * lambda_pow * v))
      else retval + lambda_pow * outcome)"
  by pat_completeness auto
termination
  by (relation "measure (\<lambda>(sts, accum, outcome, td_lambda, state_idx, td_n_steps, i, lambda_pow, retval).
        length sts - i)") auto

declare td_loop.simps [simp del]

definition TdLambdaReturns ::
  "(real \<Rightarrow> real \<Rightarrow> bool) \<Rightarrow> trajectory \<Rightarrow> int \<Rightarrow> real \<Rightarrow> int \<Rightarrow> real option"
where
  "TdLambdaReturns near tr state_idx td_lambda td_n_steps =
     (if state_idx < 0 \<or> int (length (states tr)) \<le> state_idx \<or> returns tr = []
         \<or> INT_MAX < int (length (states tr))
      then None
      else
        (let s_state = states tr ! nat state_idx;
             accum = accum_luck s_state;
             outcome = max (- 1) (min 1
               (returns tr ! 0 - (accum_luck (last (states tr)) - accum)))
         in if td_lambda \<ge> 1 \<or> near td_lambda 1 then
              (if td_n_steps \<le> 0 then Some outcome
               else if INT_MAX < state_idx + td_n_steps then None
               else
                 (let idx = state_idx + td_n_steps
                  in if int (length (states tr)) \<le> idx then Some outcome
                     else
                       (let n_state = states tr ! nat idx
                        in Some (player0_value n_state - (accum_luck n_state - accum)))))
            else
              (let retval = player0_value s_state
               in if td_lambda \<le> 0 \<or> near td_lambda 0 then Some retval
                  else if td_n_steps > 0 \<and> state_idx + 1 < int (length (states tr))
                          \<and> INT_MAX < state_idx + td_n_steps
                  then None
                  else Some (td_loop (states tr) accum outcome td_lambda state_idx td_n_steps
                               (nat state_idx + 1) td_lambda (retval * (1 - td_lambda))))))"

text \<open>
  The quantities the specification names: the luck-adjusted value \<open>v\<^sub>i - L\<^sub>i\<close> of state \<open>i\<close>
  seen from the targeted state \<open>s\<close>, the clipped bootstrap \<open>B\<close>, and the lambda-mixture.
\<close>

definition adj :: "traj_state list \<Rightarrow> real \<Rightarrow> nat \<Rightarrow> real" where
  "adj sts accum i = player0_value (sts ! i) - (accum_luck (sts ! i) - accum)"

definition bootstrap :: "trajectory \<Rightarrow> nat \<Rightarrow> real" where
  "bootstrap tr s = max (- 1) (min 1
     (returns tr ! 0 - (accum_luck (last (states tr)) - accum_luck (states tr ! s))))"

definition adj_value :: "trajectory \<Rightarrow> nat \<Rightarrow> nat \<Rightarrow> real" where
  "adj_value tr s i = player0_value (states tr ! i)
      - (accum_luck (states tr ! i) - accum_luck (states tr ! s))"

definition td_mixture :: "trajectory \<Rightarrow> nat \<Rightarrow> real \<Rightarrow> nat \<Rightarrow> real" where
  "td_mixture tr s lam n =
     (if 0 < n \<and> s + n < length (states tr) then
        player0_value (states tr ! s) * (1 - lam)
        + (1 - lam) * (\<Sum>k = 1..<n. lam ^ k * adj_value tr s (s + k))
        + lam ^ n * adj_value tr s (s + n)
      else
        (let m = length (states tr) - 1 - s
         in player0_value (states tr ! s) * (1 - lam)
            + (1 - lam) * (\<Sum>k = 1..m. lam ^ k * adj_value tr s (s + k))
            + lam ^ (m + 1) * bootstrap tr s))"

definition td_inputs_ok :: "trajectory \<Rightarrow> nat \<Rightarrow> nat \<Rightarrow> bool" where
  "td_inputs_ok tr s n \<longleftrightarrow>
     s < length (states tr) \<and> returns tr \<noteq> [] \<and> int (length (states tr)) \<le> INT_MAX
     \<and> int s + int n \<le> INT_MAX"

definition s3_trajectory :: trajectory where
  "s3_trajectory = \<lparr>states =
      [\<lparr>observation = [], current_player = 0, action = 1, state_value = 1/5, accum_luck = 0\<rparr>,
       \<lparr>observation = [], current_player = 1, action = 2, state_value = - (2/5), accum_luck = 1/10\<rparr>,
       \<lparr>observation = [], current_player = 0, action = 3, state_value = - (1/10), accum_luck = 1/10\<rparr>],
     returns = [1, - 1]\<rparr>"

definition near1_trajectory :: trajectory where
  "near1_trajectory = \<lparr>states =
      [\<lparr>observation = [], current_player = 0, action = 1, state_value = 0, accum_luck = 0\<rparr>],
     returns = [1, - 1]\<rparr>"

definition luck_trajectory :: trajectory where
  "luck_trajectory = \<lparr>states =
      [\<lparr>observation = [], current_player = 0, action = 1, state_value = 1, accum_luck = 0\<rparr>,
       \<lparr>observation = [], current_player = 0, action = 2, state_value = 1, accum_luck = - 1\<rparr>],
     returns = [1, - 1]\<rparr>"

section \<open>Luck evaluation at a chance transition\<close>

text \<open>
  \<^verbatim>\<open>EvaluateLuck\<close> sees the game state and the evaluator only through their interfaces, which
  are parameters here: \<open>is_chance_node\<close>, \<open>chance_outcomes\<close> (a list of action/probability
  pairs), \<open>apply_action\<close> (clone the state and apply the action) and \<open>evaluate\<close> (the
  evaluator's value vector, whose entry 0 is read). A failed \<^verbatim>\<open>SPIEL_CHECK\<close> and reading entry
  0 of an empty vector are \<open>None\<close>.
\<close>

text \<open>The loop over the chance outcomes; the accumulator is
  \<open>(avg_value, action_value, found)\<close>.\<close>

fun luck_loop ::
  "('s \<Rightarrow> int \<Rightarrow> 's) \<Rightarrow> ('s \<Rightarrow> real list) \<Rightarrow> 's \<Rightarrow> int \<Rightarrow> (int \<times> real) list
     \<Rightarrow> real \<times> real \<times> bool \<Rightarrow> (real \<times> real \<times> bool) option"
where
  "luck_loop apply_action evaluate st a [] acc = Some acc"
| "luck_loop apply_action evaluate st a ((temp_action, temp_prob) # rest)
       (avg_value, action_value, found) =
     (case evaluate (apply_action st temp_action) of
        [] \<Rightarrow> None
      | temp_value # _ \<Rightarrow>
          if temp_action = a then
            (if found then None
             else luck_loop apply_action evaluate st a rest
                    (avg_value + temp_prob * temp_value, temp_value, True))
          else luck_loop apply_action evaluate st a rest
                 (avg_value + temp_prob * temp_value, action_value, found))"

definition EvaluateLuck ::
  "('s \<Rightarrow> bool) \<Rightarrow> ('s \<Rightarrow> (int \<times> real) list) \<Rightarrow> ('s \<Rightarrow> int \<Rightarrow> 's) \<Rightarrow> ('s \<Rightarrow> real list)
     \<Rightarrow> 's \<Rightarrow> int \<Rightarrow> real option"
where
  "EvaluateLuck is_chance_node chance_outcomes apply_action evaluate st a =
     (if \<not> is_chance_node st then None
      else
        (case luck_loop apply_action evaluate st a (chance_outcomes st) (0, 0, False) of
           None \<Rightarrow> None
         | Some (avg_value, action_value, found) \<Rightarrow>
             if found then Some (action_value - avg_value) else None))"

text \<open>The scenario S4: a chance state with two outcomes of probability one half each, whose
  successor states the evaluator values at \<open>+0.4\<close> and \<open>-0.4\<close> for player 0. States are
  numbered: 0 is the chance state, 1 and 2 the successors.\<close>

definition s4_outcomes :: "nat \<Rightarrow> (int \<times> real) list" where
  "s4_outcomes st = [(1, 1/2), (2, 1/2)]"

definition s4_apply :: "nat \<Rightarrow> int \<Rightarrow> nat" where
  "s4_apply st a = nat a"

definition s4_evaluate :: "nat \<Rightarrow> real list" where
  "s4_evaluate st = (if st = 1 then [2/5, - (2/5)] else [- (2/5), 2/5])"

section \<open>Backgammon: state and checker moves\<close>

text \<open>
  The members of \<^verbatim>\<open>BackgammonState\<close> keep their names without the trailing underscore.
  Vectors are lists; every read or write of an element goes through \<open>nth_chk\<close> or
  \<open>upd_chk\<close>, so that an index outside the vector (undefined behaviour in C++), like a
  failed \<^verbatim>\<open>SPIEL_CHECK\<close> or a \<^verbatim>\<open>SpielFatalError\<close>, makes the function return \<open>None\<close>.
\<close>

definition kNumPoints :: int where "kNumPoints = 24"
definition kNumDiceOutcomes :: int where "kNumDiceOutcomes = 6"
definition kXPlayerId :: int where "kXPlayerId = 0"
definition kOPlayerId :: int where "kOPlayerId = 1"
definition kPassPos :: int where "kPassPos = - 1"
definition kNumCheckersPerPlayer :: int where "kNumCheckersPerPlayer = 15"
definition kBarPos :: int where "kBarPos = 100"
definition kScorePos :: int where "kScorePos = 101"
definition kNumMovesPerCheckerSequence :: int where "kNumMovesPerCheckerSequence = 4"
definition kNumSingleCheckerActions :: int where
  "kNumSingleCheckerActions = (kNumPoints + 1) * kNumDiceOutcomes"

fun ipow :: "int \<Rightarrow> nat \<Rightarrow> int" where
  "ipow a 0 = 1"
| "ipow a (Suc b) = a * ipow a b"

definition kNumCheckerActions :: int where
  "kNumCheckerActions = ipow (kNumSingleCheckerActions + 1) (nat kNumMovesPerCheckerSequence)"
definition kEndTurnAction :: int where "kEndTurnAction = kNumCheckerActions + 1"
definition kRollAction :: int where "kRollAction = kNumCheckerActions + 2"
definition kNumDistinctActions :: int where "kNumDistinctActions = kNumCheckerActions + 5"

text \<open>The player sentinels of \<^verbatim>\<open>spiel.h\<close> (not among the sources).\<close>

definition kChancePlayerId :: int where "kChancePlayerId = - 1"
definition kTerminalPlayerId :: int where "kTerminalPlayerId = - 4"

datatype ScoringType = kWinLossScoring | kEnableGammons | kFullScoring

datatype LegalLevel = kNoDice | kLowDie | kHighDie | kTwoDice | kThreeDice | kFourDice

record CheckerMove =
  pos :: int
  num :: int
  hit :: bool

record TurnHistoryInfo =
  thi_player :: int
  thi_prev_player :: int
  thi_dice :: "int list"
  thi_remaining_dice :: "int list"
  thi_action :: int
  thi_double_turn :: bool
  thi_first_move_hit :: bool
  thi_second_move_hit :: bool

record BackgammonState =
  scoring_type :: ScoringType
  hyper_backgammon :: bool
  cur_player :: int
  prev_player :: int
  turns :: int
  x_turns :: int
  o_turns :: int
  double_turn :: bool
  dice :: "int list"
  remaining_dice :: "int list"
  bar :: "int list"
  scores :: "int list"
  board :: "int list list"
  turn_history_info :: "TurnHistoryInfo list"

definition nth_chk :: "'a list \<Rightarrow> int \<Rightarrow> 'a option" where
  "nth_chk xs i = (if 0 \<le> i \<and> i < int (length xs) then Some (xs ! nat i) else None)"

definition upd_chk :: "'a list \<Rightarrow> int \<Rightarrow> 'a \<Rightarrow> 'a list option" where
  "upd_chk xs i v = (if 0 \<le> i \<and> i < int (length xs) then Some (xs[nat i := v]) else None)"

text \<open>\<^verbatim>\<open>v[i] += d\<close> and \<^verbatim>\<open>m[p][i] += d\<close>.\<close>

definition add_at :: "int list \<Rightarrow> int \<Rightarrow> int \<Rightarrow> int list option" where
  "add_at xs i d = do { x \<leftarrow> nth_chk xs i; upd_chk xs i (x + d) }"

definition add_at2 :: "int list list \<Rightarrow> int \<Rightarrow> int \<Rightarrow> int \<Rightarrow> int list list option" where
  "add_at2 m p i d = do { row \<leftarrow> nth_chk m p; row' \<leftarrow> add_at row i d; upd_chk m p row' }"

definition nth_chk2 :: "int list list \<Rightarrow> int \<Rightarrow> int \<Rightarrow> int option" where
  "nth_chk2 m p i = do { row \<leftarrow> nth_chk m p; nth_chk row i }"

definition Opponent :: "int \<Rightarrow> int" where
  "Opponent player = 1 - player"

definition PositionFromBar :: "int \<Rightarrow> int \<Rightarrow> int option" where
  "PositionFromBar player spaces =
     (if player = kXPlayerId then Some (- 1 + spaces)
      else if player = kOPlayerId then Some (24 - spaces)
      else None)"

definition PositionFrom :: "int \<Rightarrow> int \<Rightarrow> int \<Rightarrow> int option" where
  "PositionFrom player p spaces =
     (if p = kBarPos then PositionFromBar player spaces
      else if player = kXPlayerId then
        (let new_pos = p + spaces in Some (if new_pos > 23 then kScorePos else new_pos))
      else if player = kOPlayerId then
        (let new_pos = p - spaces in Some (if new_pos < 0 then kScorePos else new_pos))
      else None)"

definition NumOppCheckers :: "BackgammonState \<Rightarrow> int \<Rightarrow> int \<Rightarrow> int option" where
  "NumOppCheckers s player p = nth_chk2 (board s) (Opponent player) p"

definition NumCheckersPerPlayer :: "bool \<Rightarrow> int" where
  "NumCheckersPerPlayer hyper = (if hyper then 3 else kNumCheckersPerPlayer)"

text \<open>
  \<^verbatim>\<open>ApplyCheckerMove\<close> returns whether the move hit, together with the updated state;
  \<^verbatim>\<open>UndoCheckerMove\<close> returns the updated state.
\<close>

definition ApplyCheckerMove :: "BackgammonState \<Rightarrow> CheckerMove \<Rightarrow> (bool \<times> BackgammonState) option"
where
  "ApplyCheckerMove s move =
     (if pos move < 0 then Some (False, s)
      else do {
        let player = cur_player s;
        (s1, next_pos) \<leftarrow>
          (if pos move = kBarPos then do {
             b \<leftarrow> add_at (bar s) player (- 1);
             np \<leftarrow> PositionFromBar player (num move);
             Some (s\<lparr>bar := b\<rparr>, np) }
           else do {
             bd \<leftarrow> add_at2 (board s) player (pos move) (- 1);
             np \<leftarrow> PositionFrom player (pos move) (num move);
             Some (s\<lparr>board := bd\<rparr>, np) });
        rd \<leftarrow> add_at (remaining_dice s1) (num move - 1) (- 1);
        let s2 = s1\<lparr>remaining_dice := rd\<rparr>;
        s3 \<leftarrow>
          (if next_pos = kScorePos then do {
             sc \<leftarrow> add_at (scores s2) player 1;
             Some (s2\<lparr>scores := sc\<rparr>) }
           else do {
             bd \<leftarrow> add_at2 (board s2) player next_pos 1;
             Some (s2\<lparr>board := bd\<rparr>) });
        is_hit \<leftarrow>
          (if hit move then Some True
           else if next_pos \<noteq> kScorePos then do {
             c \<leftarrow> nth_chk2 (board s3) (Opponent player) next_pos;
             Some (c = 1) }
           else Some False);
        if is_hit then do {
          bd \<leftarrow> add_at2 (board s3) (Opponent player) next_pos (- 1);
          b \<leftarrow> add_at (bar s3) (Opponent player) 1;
          Some (True, s3\<lparr>board := bd, bar := b\<rparr>) }
        else Some (False, s3)
      })"

definition UndoCheckerMove :: "BackgammonState \<Rightarrow> CheckerMove \<Rightarrow> BackgammonState option" where
  "UndoCheckerMove s move =
     (if pos move < 0 then Some s
      else do {
        let player = cur_player s;
        next_pos \<leftarrow>
          (if pos move = kBarPos then PositionFromBar player (num move)
           else PositionFrom player (pos move) (num move));
        s1 \<leftarrow>
          (if hit move then do {
             b \<leftarrow> add_at (bar s) (Opponent player) (- 1);
             bd \<leftarrow> add_at2 (board s) (Opponent player) next_pos 1;
             Some (s\<lparr>bar := b, board := bd\<rparr>) }
           else Some s);
        s2 \<leftarrow>
          (if next_pos = kScorePos then do {
             sc \<leftarrow> add_at (scores s1) player (- 1);
             Some (s1\<lparr>scores := sc\<rparr>) }
           else do {
             bd \<leftarrow> add_at2 (board s1) player next_pos (- 1);
             Some (s1\<lparr>board := bd\<rparr>) });
        rd \<leftarrow> add_at (remaining_dice s2) (num move - 1) 1;
        let s3 = s2\<lparr>remaining_dice := rd\<rparr>;
        if pos move = kBarPos then do {
          b \<leftarrow> add_at (bar s3) player 1;
          Some (s3\<lparr>bar := b\<rparr>) }
        else do {
          bd \<leftarrow> add_at2 (board s3) player (pos move) 1;
          Some (s3\<lparr>board := bd\<rparr>) }
      })"

text \<open>
  \<^verbatim>\<open>CountTotalCheckers\<close>: the loop over the 24 points checks each count with
  \<^verbatim>\<open>SPIEL_CHECK_GE\<close> before adding it.
\<close>

fun count_points :: "int list list \<Rightarrow> int \<Rightarrow> nat list \<Rightarrow> int \<Rightarrow> int option" where
  "count_points bd player [] tot = Some tot"
| "count_points bd player (i # rest) tot =
     do {
       c \<leftarrow> nth_chk2 bd player (int i);
       if c < 0 then None else count_points bd player rest (tot + c)
     }"

definition CountTotalCheckers :: "BackgammonState \<Rightarrow> int \<Rightarrow> int option" where
  "CountTotalCheckers s player =
     do {
       tot \<leftarrow> count_points (board s) player [0..<24] 0;
       b \<leftarrow> nth_chk (bar s) player;
       if b < 0 then None
       else do {
         sc \<leftarrow> nth_chk (scores s) player;
         if sc < 0 then None else Some (tot + b + sc)
       }
     }"

text \<open>
  \<^verbatim>\<open>IsTerminal\<close> asks the game object for \<^verbatim>\<open>NumCheckersPerPlayer\<close>; the game and the state
  are built from the same \<^verbatim>\<open>hyper_backgammon\<close> parameter, so the state's copy is read here.
\<close>

definition IsTerminal :: "BackgammonState \<Rightarrow> bool option" where
  "IsTerminal s =
     do {
       sx \<leftarrow> nth_chk (scores s) kXPlayerId;
       if sx = NumCheckersPerPlayer (hyper_backgammon s) then Some True
       else do {
         so \<leftarrow> nth_chk (scores s) kOPlayerId;
         Some (so = NumCheckersPerPlayer (hyper_backgammon s))
       }
     }"

definition CurrentPlayer :: "BackgammonState \<Rightarrow> int option" where
  "CurrentPlayer s =
     do { t \<leftarrow> IsTerminal s; Some (if t then kTerminalPlayerId else cur_player s) }"

definition IsGammoned :: "BackgammonState \<Rightarrow> int \<Rightarrow> bool option" where
  "IsGammoned s player =
     (if hyper_backgammon s then Some False
      else do { sc \<leftarrow> nth_chk (scores s) player; Some (sc = 0) })"

fun scan_any_checker :: "int list list \<Rightarrow> int \<Rightarrow> int list \<Rightarrow> bool option" where
  "scan_any_checker bd player [] = Some False"
| "scan_any_checker bd player (i # rest) =
     do {
       c \<leftarrow> nth_chk2 bd player i;
       if c > 0 then Some True else scan_any_checker bd player rest
     }"

definition IsBackgammoned :: "BackgammonState \<Rightarrow> int \<Rightarrow> bool option" where
  "IsBackgammoned s player =
     (if hyper_backgammon s then Some False
      else do {
        sc \<leftarrow> nth_chk (scores s) player;
        if sc > 0 then Some False
        else do {
          b \<leftarrow> nth_chk (bar s) player;
          if b > 0 then Some True
          else scan_any_checker (board s) player
                 (if player = kXPlayerId then [0..5] else [18..23])
        }
      })"

definition Returns :: "BackgammonState \<Rightarrow> real list option" where
  "Returns s =
     do {
       sx \<leftarrow> nth_chk (scores s) kXPlayerId;
       wl \<leftarrow>
         (if sx = 15 then Some (Some (kXPlayerId, kOPlayerId))
          else do {
            so \<leftarrow> nth_chk (scores s) kOPlayerId;
            Some (if so = 15 then Some (kOPlayerId, kXPlayerId) else None)
          });
       case wl of
         None \<Rightarrow> Some [0, 0]
       | Some (winner, loser) \<Rightarrow>
           do {
             util_mag \<leftarrow>
               (case scoring_type s of
                  kWinLossScoring \<Rightarrow> Some (1 :: int)
                | kEnableGammons \<Rightarrow>
                    do { g \<leftarrow> IsGammoned s loser; Some (if g then 2 else 1) }
                | kFullScoring \<Rightarrow>
                    do {
                      b \<leftarrow> IsBackgammoned s loser;
                      if b then Some 3
                      else do { g \<leftarrow> IsGammoned s loser; Some (if g then 2 else 1) }
                    });
             r1 \<leftarrow> upd_chk [0, 0] winner (real_of_int util_mag);
             upd_chk r1 loser (- real_of_int util_mag)
           }
     }"

section \<open>Backgammon: action encoding\<close>

text \<open>
  \<^verbatim>\<open>open_spiel::kPlayerCentricObs\<close> is a compile-time flag declared outside the sources; the
  encoding functions take it as the parameter \<open>pco\<close>. \<^verbatim>\<open>Action\<close> is a 64-bit signed integer.
\<close>

definition EncodedBarMove :: int where "EncodedBarMove = 24"

definition INT64_MAX :: int where "INT64_MAX = 9223372036854775807"

definition SingleCheckerMoveToSpielMove :: "bool \<Rightarrow> BackgammonState \<Rightarrow> CheckerMove \<Rightarrow> int option"
where
  "SingleCheckerMoveToSpielMove pco s move =
     (if pos move < 0 \<or> num move < 1 \<or> 6 < num move then None
      else do {
        p \<leftarrow>
          (if pos move = kBarPos then Some EncodedBarMove
           else if pco then do {
             cp \<leftarrow> CurrentPlayer s;
             Some (if cp \<noteq> 0 then 23 - pos move else pos move) }
           else Some (pos move));
        let a = p * kNumDiceOutcomes + num move;
        if a > 0 \<and> a \<le> kNumSingleCheckerActions then Some a else None
      })"

fun CheckerMovesToSpielMove_loop ::
  "bool \<Rightarrow> BackgammonState \<Rightarrow> CheckerMove list \<Rightarrow> int \<Rightarrow> int option"
where
  "CheckerMovesToSpielMove_loop pco s [] a = Some a"
| "CheckerMovesToSpielMove_loop pco s (move # rest) a =
     do {
       m \<leftarrow> SingleCheckerMoveToSpielMove pco s move;
       let a' = a * (kNumSingleCheckerActions + 1) + m;
       if a' > INT64_MAX then None else CheckerMovesToSpielMove_loop pco s rest a'
     }"

definition CheckerMovesToSpielMove :: "bool \<Rightarrow> BackgammonState \<Rightarrow> CheckerMove list \<Rightarrow> int option"
where
  "CheckerMovesToSpielMove pco s moves = CheckerMovesToSpielMove_loop pco s moves 0"

definition SpielMoveToSingleCheckerMove :: "bool \<Rightarrow> BackgammonState \<Rightarrow> int \<Rightarrow> CheckerMove option"
where
  "SpielMoveToSingleCheckerMove pco s a0 =
     (if a0 \<le> 0 \<or> kNumSingleCheckerActions < a0 then None
      else do {
        let a = a0 - 1;
        let p0 = a div kNumDiceOutcomes;
        p \<leftarrow>
          (if p0 = EncodedBarMove then Some kBarPos
           else if pco then do {
             cp \<leftarrow> CurrentPlayer s;
             Some (if cp \<noteq> 0 then 23 - p0 else p0) }
           else Some p0);
        Some \<lparr>pos = p, num = a mod kNumDiceOutcomes + 1, hit = False\<rparr>
      })"

function SpielMoveToCheckerMoves_loop ::
  "bool \<Rightarrow> BackgammonState \<Rightarrow> int \<Rightarrow> CheckerMove list \<Rightarrow> CheckerMove list option"
where
  "SpielMoveToCheckerMoves_loop pco s a moves =
     (if a > 0 then
        (case SpielMoveToSingleCheckerMove pco s (a mod (kNumSingleCheckerActions + 1)) of
           None \<Rightarrow> None
         | Some m \<Rightarrow>
             SpielMoveToCheckerMoves_loop pco s (a div (kNumSingleCheckerActions + 1)) (m # moves))
      else Some moves)"
  by pat_completeness auto
termination
  by (relation "measure (\<lambda>(pco, s, a, moves). nat a)")
     (auto simp: kNumSingleCheckerActions_def kNumPoints_def kNumDiceOutcomes_def)

declare SpielMoveToCheckerMoves_loop.simps [simp del]

definition SpielMoveToCheckerMoves :: "bool \<Rightarrow> BackgammonState \<Rightarrow> int \<Rightarrow> CheckerMove list option"
where
  "SpielMoveToCheckerMoves pco s a =
     (if a \<le> 0 \<or> kNumCheckerActions < a then None
      else do {
        moves \<leftarrow> SpielMoveToCheckerMoves_loop pco s a [];
        if int (length moves) \<le> kNumMovesPerCheckerSequence then Some moves else None
      })"

section \<open>Backgammon: legal move generation\<close>

text \<open>
  A \<^verbatim>\<open>std::set\<close> is modelled by the list of its elements in iteration order, that is,
  strictly increasing for the element type's \<^verbatim>\<open>operator<\<close>; \<open>set_insert\<close> is
  \<^verbatim>\<open>std::set::insert\<close>, which leaves the set unchanged when it holds an equivalent element.
\<close>

fun set_insert :: "('a \<Rightarrow> 'a \<Rightarrow> bool) \<Rightarrow> 'a \<Rightarrow> 'a list \<Rightarrow> 'a list" where
  "set_insert lt x [] = [x]"
| "set_insert lt x (y # ys) =
     (if lt x y then x # y # ys
      else if lt y x then y # set_insert lt x ys
      else y # ys)"

definition cm_less :: "CheckerMove \<Rightarrow> CheckerMove \<Rightarrow> bool" where
  "cm_less a b \<longleftrightarrow> pos a * 6 + (num a - 1) < pos b * 6 + num b - 1"

definition AllInHome :: "BackgammonState \<Rightarrow> int \<Rightarrow> bool option" where
  "AllInHome s player =
     do {
       b \<leftarrow> nth_chk (bar s) player;
       if b > 0 then Some False
       else if player < 0 \<or> 1 < player then None
       else do {
         found \<leftarrow> scan_any_checker (board s) player
                    (if player = kXPlayerId then [0..17] else [6..23]);
         Some (\<not> found)
       }
     }"

fun first_checker :: "int list list \<Rightarrow> int \<Rightarrow> int list \<Rightarrow> int option" where
  "first_checker bd player [] = Some (- 1)"
| "first_checker bd player (i # rest) =
     do {
       c \<leftarrow> nth_chk2 bd player i;
       if c > 0 then Some i else first_checker bd player rest
     }"

definition FurthestCheckerInHome :: "BackgammonState \<Rightarrow> int \<Rightarrow> int option" where
  "FurthestCheckerInHome s player =
     first_checker (board s) player (if player = kXPlayerId then [18..23] else rev [0..5])"

text \<open>The loop of \<^verbatim>\<open>SingleCheckerMoves\<close> over the points still to visit.\<close>

fun SingleCheckerMoves_loop ::
  "BackgammonState \<Rightarrow> int \<Rightarrow> bool \<Rightarrow> int \<Rightarrow> bool \<Rightarrow> int list \<Rightarrow> CheckerMove list
     \<Rightarrow> CheckerMove list option"
where
  "SingleCheckerMoves_loop s die bFirstOnly player all_in_home [] moves = Some moves"
| "SingleCheckerMoves_loop s die bFirstOnly player all_in_home (i # rest) moves =
     do {
       c \<leftarrow> nth_chk2 (board s) player i;
       if c > 0 then do {
         p \<leftarrow> PositionFrom player i die;
         if p = kScorePos \<and> all_in_home then
           (if (player = kXPlayerId \<and> i + die = 24) \<or> (player = kOPlayerId \<and> i - die = - 1)
            then
              (let moves' = set_insert cm_less \<lparr>pos = i, num = die, hit = False\<rparr> moves
               in if bFirstOnly then Some moves'
                  else SingleCheckerMoves_loop s die bFirstOnly player all_in_home rest moves')
            else do {
              f \<leftarrow> FurthestCheckerInHome s player;
              if i = f then
                (let moves' = set_insert cm_less \<lparr>pos = i, num = die, hit = False\<rparr> moves
                 in if bFirstOnly then Some moves'
                    else SingleCheckerMoves_loop s die bFirstOnly player all_in_home rest moves')
              else SingleCheckerMoves_loop s die bFirstOnly player all_in_home rest moves
            })
         else if p \<noteq> kScorePos then do {
           n \<leftarrow> NumOppCheckers s player p;
           if n \<le> 1 then
             (let moves' = set_insert cm_less \<lparr>pos = i, num = die, hit = (n = 1)\<rparr> moves
              in if bFirstOnly then Some moves'
                 else SingleCheckerMoves_loop s die bFirstOnly player all_in_home rest moves')
           else SingleCheckerMoves_loop s die bFirstOnly player all_in_home rest moves
         }
         else SingleCheckerMoves_loop s die bFirstOnly player all_in_home rest moves
       }
       else SingleCheckerMoves_loop s die bFirstOnly player all_in_home rest moves
     }"

definition SingleCheckerMoves :: "BackgammonState \<Rightarrow> int \<Rightarrow> bool \<Rightarrow> CheckerMove list option" where
  "SingleCheckerMoves s die bFirstOnly =
     do {
       let player = cur_player s;
       b \<leftarrow> nth_chk (bar s) player;
       if b > 0 then do {
         p \<leftarrow> PositionFromBar player die;
         n \<leftarrow> NumOppCheckers s player p;
         Some (if n \<le> 1 then set_insert cm_less \<lparr>pos = kBarPos, num = die, hit = (n = 1)\<rparr> []
               else [])
       }
       else do {
         all_in_home \<leftarrow> AllInHome s player;
         SingleCheckerMoves_loop s die bFirstOnly player all_in_home [0..23] []
       }
     }"

text \<open>
  \<^verbatim>\<open>NumMaxPlayableDies\<close> works on the state it is given: it applies each candidate move,
  recurses and undoes the move. The model returns the state along with the count. The vector
  \<^verbatim>\<open>dice_to_play\<close> is popped from the back.
\<close>

fun NumMaxPlayableDies_moves ::
  "(BackgammonState \<Rightarrow> (int \<times> BackgammonState) option) \<Rightarrow> nat \<Rightarrow> CheckerMove list
     \<Rightarrow> BackgammonState \<Rightarrow> int \<Rightarrow> (int \<times> BackgammonState) option"
where
  "NumMaxPlayableDies_moves child sz [] st child_max = Some (1 + child_max, st)"
| "NumMaxPlayableDies_moves child sz (move # rest) st child_max =
     (case ApplyCheckerMove st move of
        None \<Rightarrow> None
      | Some (h, st1) \<Rightarrow>
          (case child st1 of
             None \<Rightarrow> None
           | Some (child_val, st2) \<Rightarrow>
               (case UndoCheckerMove st2 move of
                  None \<Rightarrow> None
                | Some st3 \<Rightarrow>
                    if child_val = int sz then Some (1 + child_val, st3)
                    else NumMaxPlayableDies_moves child sz rest st3 (max child_max child_val))))"

lemma NumMaxPlayableDies_moves_cong [fundef_cong]:
  assumes "\<And>st. child st = child' st" "sz = sz'" "moves = moves'" "st = st'" "cm = cm'"
  shows "NumMaxPlayableDies_moves child sz moves st cm
       = NumMaxPlayableDies_moves child' sz' moves' st' cm'"
proof -
  have "child = child'" using assms(1) by (rule ext)
  then show ?thesis using assms(2-5) by simp
qed

function NumMaxPlayableDies ::
  "BackgammonState \<Rightarrow> int list \<Rightarrow> (int \<times> BackgammonState) option"
where
  "NumMaxPlayableDies st dice_to_play =
     (if dice_to_play = [] then Some (0, st)
      else
        (let die = last dice_to_play; rest = butlast dice_to_play
         in case SingleCheckerMoves st die False of
              None \<Rightarrow> None
            | Some moves_here \<Rightarrow>
                NumMaxPlayableDies_moves (\<lambda>st'. NumMaxPlayableDies st' rest) (length rest)
                  moves_here st (- 1)))"
  by pat_completeness auto
termination
  by (relation "measure (\<lambda>(st, dice_to_play). length dice_to_play)") auto

declare NumMaxPlayableDies.simps [simp del]

definition DetermineLegalLevel :: "BackgammonState \<Rightarrow> LegalLevel option" where
  "DetermineLegalLevel s =
     (if dice s = [] then None
      else do {
        d0 \<leftarrow> nth_chk (dice s) 0;
        d1 \<leftarrow> nth_chk (dice s) 1;
        let hi_die = max d0 d1;
        let lo_die = min d0 d1;
        (num_dice_used, hi_die_used) \<leftarrow>
          (if hi_die = lo_die then do {
             (n, st) \<leftarrow> NumMaxPlayableDies s [hi_die, hi_die, hi_die, hi_die];
             Some (n, True) }
           else do {
             (n, st) \<leftarrow> NumMaxPlayableDies s [lo_die, hi_die];
             let hi_die_used = (n > 0);
             if n < 2 then do {
               (n', st') \<leftarrow> NumMaxPlayableDies st [hi_die, lo_die];
               Some (max n n', hi_die_used) }
             else Some (n, hi_die_used) });
        Some (if num_dice_used = 1 then (if hi_die_used then kHighDie else kLowDie)
              else if num_dice_used = 2 then kTwoDice
              else if num_dice_used = 3 then kThreeDice
              else if num_dice_used = 4 then kFourDice
              else kNoDice)
      })"

definition InitRemainingDice :: "BackgammonState \<Rightarrow> BackgammonState option" where
  "InitRemainingDice s =
     (if dice s = [] then Some s
      else do {
        d0 \<leftarrow> nth_chk (dice s) 0;
        d1 \<leftarrow> nth_chk (dice s) 1;
        let hi_die = max d0 d1;
        let lo_die = min d0 d1;
        let s1 = s\<lparr>remaining_dice := replicate (nat kNumDiceOutcomes) 0\<rparr>;
        level \<leftarrow> DetermineLegalLevel s1;
        rd \<leftarrow>
          (case level of
             kLowDie \<Rightarrow> add_at (remaining_dice s1) (lo_die - 1) 1
           | kHighDie \<Rightarrow> add_at (remaining_dice s1) (hi_die - 1) 1
           | kTwoDice \<Rightarrow>
               do { r \<leftarrow> add_at (remaining_dice s1) (lo_die - 1) 1; add_at r (hi_die - 1) 1 }
           | kThreeDice \<Rightarrow> upd_chk (remaining_dice s1) (hi_die - 1) 3
           | kFourDice \<Rightarrow> upd_chk (remaining_dice s1) (hi_die - 1) 4
           | kNoDice \<Rightarrow> Some (remaining_dice s1));
        Some (s1\<lparr>remaining_dice := rd\<rparr>)
      })"

definition kChanceOutcomeValues :: "int list list" where
  "kChanceOutcomeValues =
     [[1, 2], [1, 3], [1, 4], [1, 5], [1, 6], [2, 3], [2, 4],
      [2, 5], [2, 6], [3, 4], [3, 5], [3, 6], [4, 5], [4, 6],
      [5, 6], [1, 1], [2, 2], [3, 3], [4, 4], [5, 5], [6, 6]]"

definition RollDice :: "BackgammonState \<Rightarrow> int \<Rightarrow> BackgammonState option" where
  "RollDice s a =
     do {
       v0 \<leftarrow> nth_chk2 kChanceOutcomeValues (a - 1) 0;
       v1 \<leftarrow> nth_chk2 kChanceOutcomeValues (a - 1) 1;
       InitRemainingDice (s\<lparr>dice := dice s @ [v0, v1]\<rparr>)
     }"

text \<open>
  \<^verbatim>\<open>LegalSingleCheckerMoves\<close>. With two different dice left, each candidate move is applied to
  a clone of the state, the other die is tried there, and the move is undone; the clone is
  threaded through both loops.
\<close>

fun verify_moves ::
  "int \<Rightarrow> CheckerMove list \<Rightarrow> BackgammonState \<Rightarrow> CheckerMove list
     \<Rightarrow> (CheckerMove list \<times> BackgammonState) option"
where
  "verify_moves other_die [] st moves = Some (moves, st)"
| "verify_moves other_die (move # rest) st moves =
     do {
       (h, st1) \<leftarrow> ApplyCheckerMove st move;
       found \<leftarrow> SingleCheckerMoves st1 other_die True;
       let moves' = (if found \<noteq> [] then set_insert cm_less move moves else moves);
       st2 \<leftarrow> UndoCheckerMove st1 move;
       verify_moves other_die rest st2 moves'
     }"

fun verify_dice ::
  "BackgammonState \<Rightarrow> int \<Rightarrow> int \<Rightarrow> int list \<Rightarrow> BackgammonState \<Rightarrow> CheckerMove list
     \<Rightarrow> CheckerMove list option"
where
  "verify_dice s d0 d1 [] st moves = Some moves"
| "verify_dice s d0 d1 (die # rest) st moves =
     do {
       r \<leftarrow> nth_chk (remaining_dice s) (die - 1);
       if r > 0 then do {
         moves_here \<leftarrow> SingleCheckerMoves s die False;
         let other_die = (if die = d0 then d1 else d0);
         (moves', st') \<leftarrow> verify_moves other_die moves_here st moves;
         verify_dice s d0 d1 rest st' moves'
       }
       else verify_dice s d0 d1 rest st moves
     }"

fun first_remaining_die :: "BackgammonState \<Rightarrow> int list \<Rightarrow> CheckerMove list option" where
  "first_remaining_die s [] = Some []"
| "first_remaining_die s (die # rest) =
     do {
       r \<leftarrow> nth_chk (remaining_dice s) (die - 1);
       if r > 0 then SingleCheckerMoves s die False else first_remaining_die s rest
     }"

definition LegalSingleCheckerMoves :: "BackgammonState \<Rightarrow> CheckerMove list option" where
  "LegalSingleCheckerMoves s =
     do {
       d0 \<leftarrow> nth_chk (dice s) 0;
       d1 \<leftarrow> nth_chk (dice s) 1;
       bNeedsVerification \<leftarrow>
         (if d0 \<noteq> d1 then do {
            r0 \<leftarrow> nth_chk (remaining_dice s) (d0 - 1);
            if r0 > 0 then do {
              r1 \<leftarrow> nth_chk (remaining_dice s) (d1 - 1);
              Some (r1 > 0) }
            else Some False }
          else Some False);
       if \<not> bNeedsVerification then first_remaining_die s (dice s)
       else verify_dice s d0 d1 (dice s) s []
     }"

text \<open>
  \<^verbatim>\<open>PositionId\<close>: one character per point, then one per bar. The sum of a character and an
  \<^verbatim>\<open>int\<close> is converted back to \<^verbatim>\<open>char\<close> (\<open>char_of\<close> reduces modulo 256).
\<close>

fun PositionId_points :: "BackgammonState \<Rightarrow> int list \<Rightarrow> string \<Rightarrow> string option" where
  "PositionId_points s [] retval = Some retval"
| "PositionId_points s (i # rest) retval =
     do {
       x \<leftarrow> nth_chk2 (board s) kXPlayerId i;
       v \<leftarrow>
         (if x > 0 then Some (char_of (65 + x - 1))
          else do {
            y \<leftarrow> nth_chk2 (board s) kOPlayerId i;
            Some (if y > 0 then char_of (97 + y - 1) else CHR ''-'') });
       PositionId_points s rest (retval @ [v])
     }"

definition PositionId :: "BackgammonState \<Rightarrow> string option" where
  "PositionId s =
     do {
       retval \<leftarrow> PositionId_points s [0..23] [];
       bx \<leftarrow> nth_chk (bar s) kXPlayerId;
       bo \<leftarrow> nth_chk (bar s) kOPlayerId;
       Some (retval @ [char_of (65 + bx), char_of (97 + bo)])
     }"

record CheckerMoveSequence =
  seq_moves :: "CheckerMove list"     \<comment> \<open>\<^verbatim>\<open>moves_\<close>: sequence of moves\<close>
  seq_state :: BackgammonState        \<comment> \<open>\<^verbatim>\<open>state_\<close>: resulting state after applying moves\<close>
  seq_id :: string                    \<comment> \<open>\<^verbatim>\<open>id_\<close>: a unique id of the resulting position\<close>

definition cms_less :: "CheckerMoveSequence \<Rightarrow> CheckerMoveSequence \<Rightarrow> bool" where
  "cms_less a b \<longleftrightarrow> seq_id a < seq_id b"

definition AddMove :: "CheckerMoveSequence \<Rightarrow> CheckerMove \<Rightarrow> CheckerMoveSequence option" where
  "AddMove sq move =
     do {
       (h, st) \<leftarrow> ApplyCheckerMove (seq_state sq) move;
       i \<leftarrow> PositionId st;
       Some \<lparr>seq_moves = seq_moves sq @ [move], seq_state = st, seq_id = i\<rparr>
     }"

text \<open>The loop \<^verbatim>\<open>for (move : ...LegalSingleCheckerMoves())\<close> that extends one sequence by
  every move and inserts the results into \<open>new_seqs\<close>.\<close>

fun extend_seq ::
  "CheckerMoveSequence \<Rightarrow> CheckerMove list \<Rightarrow> CheckerMoveSequence list
     \<Rightarrow> CheckerMoveSequence list option"
where
  "extend_seq sq [] new_seqs = Some new_seqs"
| "extend_seq sq (move # rest) new_seqs =
     do {
       new_seq \<leftarrow> AddMove sq move;
       extend_seq sq rest (set_insert cms_less new_seq new_seqs)
     }"

fun extend_all ::
  "CheckerMoveSequence list \<Rightarrow> CheckerMoveSequence list \<Rightarrow> CheckerMoveSequence list option"
where
  "extend_all [] new_seqs = Some new_seqs"
| "extend_all (sq # rest) new_seqs =
     do {
       ms \<leftarrow> LegalSingleCheckerMoves (seq_state sq);
       new_seqs' \<leftarrow> extend_seq sq ms new_seqs;
       extend_all rest new_seqs'
     }"

text \<open>The loop \<^verbatim>\<open>for (int i = 1; i < kNumMovesPerCheckerSequence; i++)\<close>, by the number of
  rounds left.\<close>

fun seq_rounds :: "nat \<Rightarrow> CheckerMoveSequence list \<Rightarrow> CheckerMoveSequence list option" where
  "seq_rounds 0 seqs = Some seqs"
| "seq_rounds (Suc k) seqs =
     do {
       new_seqs \<leftarrow> extend_all seqs [];
       if new_seqs = [] then Some seqs else seq_rounds k new_seqs
     }"

definition LegalCheckerMoveSequences :: "BackgammonState \<Rightarrow> CheckerMoveSequence list option" where
  "LegalCheckerMoveSequences s =
     do {
       ms \<leftarrow> LegalSingleCheckerMoves s;
       seqs \<leftarrow> extend_seq \<lparr>seq_moves = [], seq_state = s, seq_id = []\<rparr> ms [];
       if seqs = [] then Some seqs
       else seq_rounds (nat (kNumMovesPerCheckerSequence - 1)) seqs
     }"

text \<open>
  \<^verbatim>\<open>IsChanceNode\<close> and \<^verbatim>\<open>LegalChanceOutcomes\<close> are inherited from the base class
  \<^verbatim>\<open>State\<close> of \<^verbatim>\<open>spiel.h\<close>: the current player is the chance player, and the actions of
  \<^verbatim>\<open>ChanceOutcomes\<close>. Probabilities are \<^typ>\<open>real\<close>.
\<close>

definition kChanceOutcomes :: "(int \<times> real) list" where
  "kChanceOutcomes = map (\<lambda>a. (a, 1 / 18)) [1..15] @ map (\<lambda>a. (a, 1 / 36)) [16..21]"

definition kFirstRollChanceOutcomes :: "(int \<times> real) list" where
  "kFirstRollChanceOutcomes = map (\<lambda>a. (a, 1 / 30)) [1..30]"

definition IsChanceNode :: "BackgammonState \<Rightarrow> bool option" where
  "IsChanceNode s = do { cp \<leftarrow> CurrentPlayer s; Some (cp = kChancePlayerId) }"

definition ChanceOutcomes :: "BackgammonState \<Rightarrow> (int \<times> real) list option" where
  "ChanceOutcomes s =
     do {
       c \<leftarrow> IsChanceNode s;
       if \<not> c then None
       else Some (if turns s = - 1 then kFirstRollChanceOutcomes else kChanceOutcomes)
     }"

fun encode_seqs :: "bool \<Rightarrow> BackgammonState \<Rightarrow> CheckerMoveSequence list \<Rightarrow> int list option" where
  "encode_seqs pco s [] = Some []"
| "encode_seqs pco s (sq # rest) =
     do {
       a \<leftarrow> CheckerMovesToSpielMove pco s (seq_moves sq);
       acts \<leftarrow> encode_seqs pco s rest;
       Some (if a > 0 then a # acts else acts)
     }"

fun encode_single_moves :: "bool \<Rightarrow> BackgammonState \<Rightarrow> CheckerMove list \<Rightarrow> int list option" where
  "encode_single_moves pco s [] = Some []"
| "encode_single_moves pco s (m # rest) =
     do {
       a \<leftarrow> SingleCheckerMoveToSpielMove pco s m;
       acts \<leftarrow> encode_single_moves pco s rest;
       Some (a # acts)
     }"

definition LegalActions :: "bool \<Rightarrow> BackgammonState \<Rightarrow> int list option" where
  "LegalActions pco s =
     do {
       c \<leftarrow> IsChanceNode s;
       if c then do { outs \<leftarrow> ChanceOutcomes s; Some (map fst outs) }
       else do {
         t \<leftarrow> IsTerminal s;
         if t then Some []
         else if dice s = [] then Some [kRollAction]
         else do {
           cx \<leftarrow> CountTotalCheckers s kXPlayerId;
           co \<leftarrow> CountTotalCheckers s kOPlayerId;
           if cx \<noteq> NumCheckersPerPlayer (hyper_backgammon s)
              \<or> co \<noteq> NumCheckersPerPlayer (hyper_backgammon s) then None
           else if kNumMovesPerCheckerSequence = 1 then do {
             ms \<leftarrow> LegalSingleCheckerMoves s;
             if ms = [] then Some [kEndTurnAction]
             else do { acts \<leftarrow> encode_single_moves pco s ms; Some (sort acts) }
           }
           else do {
             seqs \<leftarrow> LegalCheckerMoveSequences s;
             if seqs = [] then Some [kEndTurnAction]
             else do { acts \<leftarrow> encode_seqs pco s seqs; Some (sort acts) }
           }
         }
       }
     }"

section \<open>Backgammon: applying actions\<close>

fun apply_moves :: "BackgammonState \<Rightarrow> CheckerMove list \<Rightarrow> bool \<Rightarrow> (bool \<times> BackgammonState) option"
where
  "apply_moves s [] move_hit = Some (move_hit, s)"
| "apply_moves s (move # rest) move_hit =
     do {
       (h, s') \<leftarrow> ApplyCheckerMove s move;
       apply_moves s' rest (move_hit \<or> h)
     }"

definition DoApplyAction :: "bool \<Rightarrow> BackgammonState \<Rightarrow> int \<Rightarrow> BackgammonState option" where
  "DoApplyAction pco s a =
     (if a \<le> 0 \<or> kNumDistinctActions < a then None
      else do {
        c \<leftarrow> IsChanceNode s;
        if c then do {
          let s1 = s\<lparr>turn_history_info := turn_history_info s @
                [\<lparr>thi_player = kChancePlayerId, thi_prev_player = prev_player s,
                  thi_dice = dice s, thi_remaining_dice = remaining_dice s, thi_action = a,
                  thi_double_turn = double_turn s, thi_first_move_hit = False,
                  thi_second_move_hit = False\<rparr>]\<rparr>;
          if turns s1 = - 1 then
            (if dice s1 \<noteq> [] then None
             else do {
               let (s2, a') =
                 (if a \<le> 15 then (s1\<lparr>cur_player := kXPlayerId, prev_player := kXPlayerId\<rparr>, a)
                  else (s1\<lparr>cur_player := kOPlayerId, prev_player := kOPlayerId\<rparr>, a - 15));
               s3 \<leftarrow> RollDice s2 a';
               Some (s3\<lparr>turns := 0\<rparr>)
             })
          else
            (if dice s1 \<noteq> [] then None
             else RollDice (s1\<lparr>cur_player := prev_player s1\<rparr>) a)
        }
        else if dice s = [] then
          (if a \<noteq> kRollAction then None
           else Some (s\<lparr>prev_player := cur_player s, cur_player := kChancePlayerId\<rparr>))
        else if a = kEndTurnAction then
          (let s1 = s\<lparr>turns := turns s + 1\<rparr>;
               s2 = (if cur_player s1 = kXPlayerId then s1\<lparr>x_turns := x_turns s1 + 1\<rparr>
                     else if cur_player s1 = kOPlayerId then s1\<lparr>o_turns := o_turns s1 + 1\<rparr>
                     else s1)
           in Some (s2\<lparr>cur_player := Opponent (cur_player s2), dice := []\<rparr>))
        else do {
          ms \<leftarrow> SpielMoveToCheckerMoves pco s a;
          (move_hit, s1) \<leftarrow> apply_moves s ms False;
          Some (s1\<lparr>turn_history_info := turn_history_info s1 @
                  [\<lparr>thi_player = cur_player s1, thi_prev_player = prev_player s1,
                    thi_dice = dice s1, thi_remaining_dice = remaining_dice s1, thi_action = a,
                    thi_double_turn = double_turn s1, thi_first_move_hit = move_hit,
                    thi_second_move_hit = False\<rparr>],
                prev_player := cur_player s1\<rparr>)
        }
      })"

text \<open>
  The constructor followed by \<^verbatim>\<open>SetupInitialBoard\<close>. The standard game draws
  \<^verbatim>\<open>idx = 500 * Uniform(0, 1)\<close>, an integer from 0 to 499, which is the parameter \<open>idx\<close>
  of \<open>NewInitialState\<close>.
\<close>

definition empty_board :: "int list list" where
  "empty_board = [replicate (nat kNumPoints) 0, replicate (nat kNumPoints) 0]"

definition set_point :: "int list list \<Rightarrow> int \<Rightarrow> int \<Rightarrow> int \<Rightarrow> int list list" where
  "set_point bd player p v = bd[nat player := (bd ! nat player)[nat p := v]]"

definition SetupInitialBoard :: "int \<Rightarrow> BackgammonState \<Rightarrow> BackgammonState" where
  "SetupInitialBoard idx s =
     (if hyper_backgammon s then
        s\<lparr>board := set_point (set_point (set_point (set_point (set_point (set_point (board s)
             kXPlayerId 2 1) kXPlayerId 1 1) kXPlayerId 0 1)
             kOPlayerId 21 1) kOPlayerId 22 1) kOPlayerId 23 1\<rparr>
      else if idx < 24 then
        s\<lparr>board := set_point (set_point (board s) kOPlayerId (23 - idx) 15) kXPlayerId idx 15\<rparr>
      else if idx < 25 then s\<lparr>bar := [15, 15]\<rparr>
      else
        s\<lparr>board := set_point (set_point (set_point (set_point (set_point (set_point (set_point
             (set_point (board s)
             kXPlayerId 0 2) kXPlayerId 11 5) kXPlayerId 16 3) kXPlayerId 18 5)
             kOPlayerId 23 2) kOPlayerId 12 5) kOPlayerId 7 3) kOPlayerId 5 5\<rparr>)"

definition NewInitialState :: "ScoringType \<Rightarrow> bool \<Rightarrow> nat \<Rightarrow> BackgammonState" where
  "NewInitialState st hyper idx =
     SetupInitialBoard (int idx)
       \<lparr>scoring_type = st, hyper_backgammon = hyper, cur_player = kChancePlayerId,
        prev_player = kChancePlayerId, turns = - 1, x_turns = 0, o_turns = 0,
        double_turn = False, dice = [], remaining_dice = [], bar = [0, 0], scores = [0, 0],
        board = empty_board, turn_history_info = []\<rparr>"

section \<open>Backgammon: specification predicates\<close>

definition pt :: "BackgammonState \<Rightarrow> int \<Rightarrow> int \<Rightarrow> int" where
  "pt s p i = board s ! nat p ! nat i"

definition shape_ok :: "BackgammonState \<Rightarrow> bool" where
  "shape_ok s \<longleftrightarrow> length (bar s) = 2 \<and> length (scores s) = 2 \<and> length (board s) = 2
     \<and> length (board s ! 0) = 24 \<and> length (board s ! 1) = 24
     \<and> length (remaining_dice s) = 6 \<and> (cur_player s = 0 \<or> cur_player s = 1)"

definition total_checkers :: "BackgammonState \<Rightarrow> int \<Rightarrow> int" where
  "total_checkers s p = bar s ! nat p + scores s ! nat p + sum_list (board s ! nat p)"

definition valid_state :: "BackgammonState \<Rightarrow> bool" where
  "valid_state s \<longleftrightarrow> shape_ok s
     \<and> (\<forall>p \<in> {0, 1}. 0 \<le> bar s ! nat p \<and> 0 \<le> scores s ! nat p
           \<and> total_checkers s p = NumCheckersPerPlayer (hyper_backgammon s)
           \<and> (\<forall>i \<in> {0..23}. 0 \<le> pt s p i))
     \<and> (\<forall>i \<in> {0..23}. \<not> (0 < pt s 0 i \<and> 0 < pt s 1 i))"

definition move_target :: "int \<Rightarrow> CheckerMove \<Rightarrow> int" where
  "move_target p m =
     (if pos m = kBarPos then (if p = 0 then num m - 1 else 24 - num m)
      else if p = 0 then (if pos m + num m > 23 then kScorePos else pos m + num m)
      else (if pos m - num m < 0 then kScorePos else pos m - num m))"

definition playable_move :: "BackgammonState \<Rightarrow> CheckerMove \<Rightarrow> bool" where
  "playable_move s m \<longleftrightarrow>
     1 \<le> num m \<and> num m \<le> 6 \<and>
     ((pos m = kBarPos \<and> 0 < bar s ! nat (cur_player s))
      \<or> (0 \<le> pos m \<and> pos m \<le> 23 \<and> 0 < pt s (cur_player s) (pos m))) \<and>
     (let t = move_target (cur_player s) m
      in if t = kScorePos then \<not> hit m
         else pt s (1 - cur_player s) t \<le> 1 \<and> (hit m \<longleftrightarrow> pt s (1 - cur_player s) t = 1))"

definition bump :: "int list \<Rightarrow> int \<Rightarrow> int \<Rightarrow> int list" where
  "bump xs i d = xs[nat i := xs ! nat i + d]"

definition bump2 :: "int list list \<Rightarrow> int \<Rightarrow> int \<Rightarrow> int \<Rightarrow> int list list" where
  "bump2 m p i d = m[nat p := bump (m ! nat p) i d]"

definition apply_pure :: "BackgammonState \<Rightarrow> CheckerMove \<Rightarrow> BackgammonState" where
  "apply_pure s m =
     (let p = cur_player s; t = move_target p m;
          s1 = (if pos m = kBarPos then s\<lparr>bar := bump (bar s) p (- 1)\<rparr>
                else s\<lparr>board := bump2 (board s) p (pos m) (- 1)\<rparr>);
          s2 = s1\<lparr>remaining_dice := bump (remaining_dice s1) (num m - 1) (- 1)\<rparr>;
          s3 = (if t = kScorePos then s2\<lparr>scores := bump (scores s2) p 1\<rparr>
                else s2\<lparr>board := bump2 (board s2) p t 1\<rparr>)
      in if hit m then s3\<lparr>board := bump2 (board s3) (1 - p) t (- 1), bar := bump (bar s3) (1 - p) 1\<rparr>
         else s3)"

definition side_ok :: "BackgammonState \<Rightarrow> int \<Rightarrow> bool" where
  "side_ok s p \<longleftrightarrow> 0 \<le> bar s ! nat p \<and> 0 \<le> scores s ! nat p
     \<and> total_checkers s p = NumCheckersPerPlayer (hyper_backgammon s)
     \<and> (\<forall>i. 0 \<le> i \<and> i \<le> 23 \<longrightarrow> 0 \<le> pt s p i)"

definition die_move_ok :: "BackgammonState \<Rightarrow> int \<Rightarrow> CheckerMove \<Rightarrow> bool" where
  "die_move_ok s die m \<longleftrightarrow> playable_move s m \<and> num m = die"

text \<open>The moves depend on the player to move, the bars and the points only.\<close>

definition same_position :: "BackgammonState \<Rightarrow> BackgammonState \<Rightarrow> bool" where
  "same_position s s' \<longleftrightarrow> cur_player s = cur_player s' \<and> bar s = bar s' \<and> board s = board s'"

text \<open>The number of dice that can be played in the given order, by exhaustive search.\<close>

fun max_playable :: "BackgammonState \<Rightarrow> int list \<Rightarrow> int" where
  "max_playable s [] = 0"
| "max_playable s (d # ds) =
     (case SingleCheckerMoves s d False of
        None \<Rightarrow> 0
      | Some ms \<Rightarrow>
          if ms = [] then 0
          else 1 + Max ((\<lambda>m. max_playable (apply_pure s m) ds) ` set ms))"

definition dice_count :: "LegalLevel \<Rightarrow> nat" where
  "dice_count l = (case l of kNoDice \<Rightarrow> 0 | kLowDie \<Rightarrow> 1 | kHighDie \<Rightarrow> 1 | kTwoDice \<Rightarrow> 2
                   | kThreeDice \<Rightarrow> 3 | kFourDice \<Rightarrow> 4)"

definition dice_ok :: "BackgammonState \<Rightarrow> bool" where
  "dice_ok s \<longleftrightarrow> length (dice s) = 2 \<and> (\<forall>d \<in> set (dice s). 1 \<le> d \<and> d \<le> 6)"

definition hi_die :: "BackgammonState \<Rightarrow> int" where
  "hi_die s = max (dice s ! 0) (dice s ! 1)"

definition lo_die :: "BackgammonState \<Rightarrow> int" where
  "lo_die s = min (dice s ! 0) (dice s ! 1)"

text \<open>The level in terms of exhaustive search.\<close>

definition level_spec :: "BackgammonState \<Rightarrow> LegalLevel" where
  "level_spec s =
     (let hi = hi_die s; lo = lo_die s
      in if hi = lo then
           (let n = max_playable s [hi, hi, hi, hi]
            in if n = 1 then kHighDie else if n = 2 then kTwoDice else if n = 3 then kThreeDice
               else if n = 4 then kFourDice else kNoDice)
         else if max_playable s [hi, lo] = 2 \<or> max_playable s [lo, hi] = 2 then kTwoDice
         else if max_playable s [hi, lo] = 1 then kHighDie
         else if max_playable s [lo, hi] = 1 then kLowDie
         else kNoDice)"

definition rem_of :: "BackgammonState \<Rightarrow> int \<Rightarrow> int" where
  "rem_of s d = remaining_dice s ! nat (d - 1)"

text \<open>Whether a die can be played at all from a state.\<close>

definition can_play_die :: "BackgammonState \<Rightarrow> int \<Rightarrow> bool" where
  "can_play_die t d \<longleftrightarrow> SingleCheckerMoves t d False \<noteq> Some []"

definition verified_move :: "BackgammonState \<Rightarrow> int \<Rightarrow> int \<Rightarrow> CheckerMove \<Rightarrow> bool" where
  "verified_move t d e m \<longleftrightarrow>
     (\<exists>ms. SingleCheckerMoves t d False = Some ms \<and> m \<in> set ms)
     \<and> can_play_die (apply_pure t m) e"

definition point_char :: "BackgammonState \<Rightarrow> int \<Rightarrow> char" where
  "point_char t i =
     (if pt t 0 i > 0 then char_of (65 + pt t 0 i - 1)
      else if pt t 1 i > 0 then char_of (97 + pt t 1 i - 1)
      else CHR ''-'')"

definition legal_pos_num :: "CheckerMove \<Rightarrow> bool" where
  "legal_pos_num m \<longleftrightarrow> ((0 \<le> pos m \<and> pos m \<le> 23) \<or> pos m = kBarPos) \<and> 1 \<le> num m \<and> num m \<le> 6"

definition seq_inv :: "BackgammonState \<Rightarrow> nat \<Rightarrow> CheckerMoveSequence \<Rightarrow> bool" where
  "seq_inv s j q \<longleftrightarrow>
     length (seq_moves q) = j \<and> valid_state (seq_state q) \<and> dice (seq_state q) = dice s
     \<and> cur_player (seq_state q) = cur_player s
     \<and> (1 \<le> j \<longrightarrow> PositionId (seq_state q) = Some (seq_id q))
     \<and> (\<forall>m \<in> set (seq_moves q). legal_pos_num m \<and> num m \<in> set (dice s))
     \<and> (\<forall>d. 1 \<le> d \<and> d \<le> 6 \<longrightarrow>
           rem_of (seq_state q) d
           = rem_of s d - int (length (filter (\<lambda>m. num m = d) (seq_moves q))))
     \<and> (\<forall>d \<in> set (dice s). 1 \<le> d \<and> d \<le> 6 \<longrightarrow> 0 \<le> rem_of (seq_state q) d)"

definition lsm :: "BackgammonState \<Rightarrow> CheckerMove list" where
  "lsm t = the (LegalSingleCheckerMoves t)"

definition ext :: "CheckerMoveSequence \<Rightarrow> CheckerMove \<Rightarrow> CheckerMoveSequence" where
  "ext q m = \<lparr>seq_moves = seq_moves q @ [m], seq_state = apply_pure (seq_state q) m,
              seq_id = the (PositionId (apply_pure (seq_state q) m))\<rparr>"

definition ok_moves :: "BackgammonState \<Rightarrow> CheckerMoveSequence \<Rightarrow> CheckerMove list \<Rightarrow> bool" where
  "ok_moves s q ms \<longleftrightarrow>
     (\<forall>m \<in> set ms. \<exists>d \<in> set (dice s). die_move_ok (seq_state q) d m \<and> 0 < rem_of (seq_state q) d)"

definition P_dbl :: "BackgammonState \<Rightarrow> int \<Rightarrow> nat \<Rightarrow> nat \<Rightarrow> CheckerMoveSequence list \<Rightarrow> bool" where
  "P_dbl s d c j seqs \<longleftrightarrow>
     (\<forall>q \<in> set seqs. seq_inv s j q)
     \<and> (\<exists>q \<in> set seqs. max_playable (seq_state q) (replicate (c - j) d) = int (c - j))"

definition P_nd :: "BackgammonState \<Rightarrow> nat \<Rightarrow> nat \<Rightarrow> CheckerMoveSequence list \<Rightarrow> bool" where
  "P_nd s k j seqs \<longleftrightarrow>
     seqs \<noteq> [] \<and> (\<forall>q \<in> set seqs. seq_inv s j q \<and> (j < k \<longrightarrow> lsm (seq_state q) \<noteq> []))"

definition post_roll :: "BackgammonState \<Rightarrow> bool" where
  "post_roll s \<longleftrightarrow> valid_state s \<and> dice_ok s
     \<and> (if hi_die s = lo_die s
         then rem_of s (hi_die s) = int (dice_count (level_spec s))
         else rem_of s (hi_die s) = (if level_spec s = kHighDie \<or> level_spec s = kTwoDice then 1 else 0)
            \<and> rem_of s (lo_die s) = (if level_spec s = kLowDie \<or> level_spec s = kTwoDice then 1 else 0))"

definition q0 :: "BackgammonState \<Rightarrow> CheckerMoveSequence" where
  "q0 s = \<lparr>seq_moves = [], seq_state = s, seq_id = []\<rparr>"

definition clear_hit :: "CheckerMove \<Rightarrow> CheckerMove" where
  "clear_hit m = m\<lparr>hit := False\<rparr>"

definition enc :: "bool \<Rightarrow> BackgammonState \<Rightarrow> CheckerMove \<Rightarrow> int" where
  "enc pco s m = the (SingleCheckerMoveToSpielMove pco s m)"

definition plays_level :: "bool \<Rightarrow> BackgammonState \<Rightarrow> LegalLevel \<Rightarrow> int \<Rightarrow> bool" where
  "plays_level pco s level a \<longleftrightarrow>
     (\<exists>ms. SpielMoveToCheckerMoves pco s a = Some ms \<and> length ms = dice_count level
        \<and> (\<forall>m \<in> set ms. num m \<in> set (dice s))
        \<and> (level = kHighDie \<longrightarrow> (\<forall>m \<in> set ms. num m = hi_die s)))"

definition opening_position :: BackgammonState where
  "opening_position = (NewInitialState kWinLossScoring False 25)\<lparr>cur_player := kXPlayerId\<rparr>"

text \<open>A position of the hyper variant where X can hit: X has one checker on point 0 and two
  checkers off, O has a blot on point 1 and two checkers on point 10; X has rolled 1-2.\<close>

definition hit_position :: BackgammonState where
  "hit_position =
     \<lparr>scoring_type = kWinLossScoring, hyper_backgammon = True, cur_player = kXPlayerId,
      prev_player = kXPlayerId, turns = 0, x_turns = 0, o_turns = 0, double_turn = False,
      dice = [1, 2], remaining_dice = [1, 1, 0, 0, 0, 0], bar = [0, 0], scores = [2, 0],
      board = set_point (set_point (set_point empty_board kXPlayerId 0 1) kOPlayerId 1 1)
                kOPlayerId 10 2,
      turn_history_info = []\<rparr>"

definition won_position :: BackgammonState where
  "won_position =
     \<lparr>scoring_type = kFullScoring, hyper_backgammon = True, cur_player = kXPlayerId,
      prev_player = kXPlayerId, turns = 9, x_turns = 5, o_turns = 4, double_turn = False,
      dice = [1, 2], remaining_dice = [0, 0, 0, 0, 0, 0], bar = [0, 0], scores = [3, 0],
      board = set_point empty_board kOPlayerId 10 3,
      turn_history_info = []\<rparr>"

definition tc :: "int list \<Rightarrow> int list \<Rightarrow> int list list \<Rightarrow> int \<Rightarrow> int" where
  "tc br sc bd p = br ! nat p + sc ! nat p + sum_list (bd ! nat p)"

inductive reachable :: "bool \<Rightarrow> BackgammonState \<Rightarrow> bool" for pco :: bool where
  initial: "reachable pco (NewInitialState st hyper idx)"
| action: "reachable pco s \<Longrightarrow> DoApplyAction pco s a = Some s' \<Longrightarrow> reachable pco s'"

section \<open>Self-play: choosing the action\<close>

text \<open>
  The decision branch of the loop of \<^verbatim>\<open>PlayGame\<close>. The search tree comes from \<^verbatim>\<open>mcts.h\<close>,
  which is not among the sources: a \<open>SearchNode\<close> has the fields \<^verbatim>\<open>PlayGame\<close> reads, the search
  \<^verbatim>\<open>(*bots)[player]->MCTSearch(*state)\<close> is the parameter \<open>MCTSearch\<close> and
  \<^verbatim>\<open>SearchNode::BestChild\<close> is the parameter \<open>BestChild\<close>. The game state is seen through its
  interface \<open>state_ops\<close>. \<^verbatim>\<open>SpielFatalError\<close>, a failed \<^verbatim>\<open>SPIEL_CHECK\<close> and a vector read out of
  range end the function with an error.
\<close>

record SearchNode =
  node_action :: int
  node_player :: int
  node_outcome :: "real list"
  node_eval :: real

record 'st state_ops =
  st_current_player :: "'st \<Rightarrow> int"
  st_observation_tensor :: "'st \<Rightarrow> real list"
  st_action_to_string :: "'st \<Rightarrow> int \<Rightarrow> int \<Rightarrow> string"
  st_apply_action :: "'st \<Rightarrow> int \<Rightarrow> 'st"
  st_is_terminal :: "'st \<Rightarrow> bool"
  st_returns :: "'st \<Rightarrow> real list"

datatype play_error = SpielFatalError string | SpielCheckFailed | OutOfRange

text \<open>
  The test \<^verbatim>\<open>history.size() >= temperature_drop\<close> compares a \<^verbatim>\<open>size_t\<close> with an \<^verbatim>\<open>int\<close>: the
  \<^verbatim>\<open>int\<close> is converted to the unsigned 64-bit type, that is, taken modulo \<open>2^64\<close>.
\<close>

definition select_action_node ::
  "('root \<Rightarrow> SearchNode) \<Rightarrow> string list \<Rightarrow> int \<Rightarrow> 'root \<Rightarrow> play_error + SearchNode"
where
  "select_action_node BestChild history temperature_drop search_root =
     (if int (length history) \<ge> temperature_drop mod 2 ^ 64 then Inr (BestChild search_root)
      else Inl (SpielFatalError ''Need SampleFromChildren to use temp drop.''))"

text \<open>One pass through the decision branch: the new state, history and trajectory, and whether
  the loop is left (\<^verbatim>\<open>break\<close>).\<close>

definition PlayGame_decision ::
  "'st state_ops \<Rightarrow> (int \<Rightarrow> 'st \<Rightarrow> 'root) \<Rightarrow> ('root \<Rightarrow> SearchNode) \<Rightarrow> int \<Rightarrow> real
     \<Rightarrow> 'st \<Rightarrow> string list \<Rightarrow> trajectory \<Rightarrow> real
     \<Rightarrow> play_error + ('st \<times> string list \<times> trajectory \<times> bool)"
where
  "PlayGame_decision ops MCTSearch BestChild temperature_drop cutoff_value
       state history traj accum =
     (let player = st_current_player ops state;
          search_root = MCTSearch player state
      in case select_action_node BestChild history temperature_drop search_root of
           Inl e \<Rightarrow> Inl e
         | Inr action_node \<Rightarrow>
             if node_player action_node \<noteq> player then Inl SpielCheckFailed
             else if node_outcome action_node \<noteq> []
                     \<and> \<not> (0 \<le> player \<and> player < int (length (node_outcome action_node)))
             then Inl OutOfRange
             else
               (let action_value =
                      (if node_outcome action_node = [] then node_eval action_node
                       else node_outcome action_node ! nat player);
                    traj1 = traj\<lparr>states := states traj @
                      [\<lparr>observation = st_observation_tensor ops state, current_player = player,
                        action = node_action action_node, state_value = action_value,
                        accum_luck = accum\<rparr>]\<rparr>;
                    history1 = history @
                      [st_action_to_string ops state player (node_action action_node)];
                    state1 = st_apply_action ops state (node_action action_node)
                in if st_is_terminal ops state1
                   then Inr (state1, history1, traj1\<lparr>returns := st_returns ops state1\<rparr>, True)
                   else if \<bar>action_value\<bar> > cutoff_value then
                     (if player = 0
                      then Inr (state1, history1,
                                traj1\<lparr>returns := [action_value, - action_value]\<rparr>, True)
                      else if player = 1
                      then Inr (state1, history1,
                                traj1\<lparr>returns := [- action_value, action_value]\<rparr>, True)
                      else Inl OutOfRange)
                   else Inr (state1, history1, traj1, False)))"

text \<open>A game for examples: states are move counters, the player to move alternates, the game
  ends after four moves; the search returns its node as it is.\<close>

definition counter_ops :: "nat state_ops" where
  "counter_ops =
     \<lparr>st_current_player = (\<lambda>n. int (n mod 2)), st_observation_tensor = (\<lambda>n. [real n]),
      st_action_to_string = (\<lambda>n p a. ''a''), st_apply_action = (\<lambda>n a. Suc n),
      st_is_terminal = (\<lambda>n. 4 \<le> n), st_returns = (\<lambda>n. [1, - 1])\<rparr>"

definition counter_search :: "int \<Rightarrow> nat \<Rightarrow> SearchNode" where
  "counter_search p n = \<lparr>node_action = 7, node_player = p, node_outcome = [], node_eval = 0\<rparr>"

section \<open>The inference caches\<close>

text \<open>
  Modelled from the spec: the inference evaluator \<^verbatim>\<open>VPNetEvaluator\<close> (its source is not among
  the files) with its LRU cache, "key = bytewise hash of observation; value = model output
  vector. Capacity bounded; victim is least-recently-used", which "short-circuits identical
  requests". The cache is a list of entries, most recently used first; the key is the
  observation itself; \<open>forward\<close> is the network with its current weights.
\<close>

record VPNetEvaluator =
  cache :: "(real list \<times> real list) list"
  cache_max :: nat

text \<open>
  Modelled from the spec: the operations of \<^verbatim>\<open>VPNetEvaluator\<close> that \<^verbatim>\<open>AlphaZero\<close>, the actors
  and the learner use, which are not among the sources either. The constructor starts with an
  empty cache of the configured size. \<^verbatim>\<open>Evaluate\<close> returns the cached value of an observation
  that is in the cache and makes the entry the most recent one; otherwise it runs the network,
  stores the value and drops the least recently used entry beyond the capacity.
  \<^verbatim>\<open>ClearCache\<close> empties the cache and \<^verbatim>\<open>CacheInfo().size\<close> is the number of entries.
\<close>

definition new_evaluator :: "nat \<Rightarrow> VPNetEvaluator" where
  "new_evaluator cache_size = \<lparr>cache = [], cache_max = cache_size\<rparr>"

definition Evaluate ::
  "(real list \<Rightarrow> real list) \<Rightarrow> VPNetEvaluator \<Rightarrow> real list \<Rightarrow> real list \<times> VPNetEvaluator"
where
  "Evaluate forward ev obs =
     (case map_of (cache ev) obs of
        Some v \<Rightarrow> (v, ev\<lparr>cache := (obs, v) # filter (\<lambda>e. fst e \<noteq> obs) (cache ev)\<rparr>)
      | None \<Rightarrow>
          (let v = forward obs
           in (v, ev\<lparr>cache := take (cache_max ev) ((obs, v) # cache ev)\<rparr>)))"

definition ClearCache :: "VPNetEvaluator \<Rightarrow> VPNetEvaluator" where
  "ClearCache ev = ev\<lparr>cache := []\<rparr>"

definition CacheInfo_size :: "VPNetEvaluator \<Rightarrow> nat" where
  "CacheInfo_size ev = length (cache ev)"

text \<open>
  \<^verbatim>\<open>AlphaZero\<close> builds two evaluators, \<^verbatim>\<open>eval\<close> and \<^verbatim>\<open>inf_eval\<close>, gives \<^verbatim>\<open>inf_eval\<close> to every
  actor and evaluator thread and \<^verbatim>\<open>eval\<close> to the learner. The state of the run, as far as the
  caches are concerned: the weights of the network (of type \<open>'w\<close>) and the two evaluators.
\<close>

record 'w az_run =
  weights :: 'w
  learner_eval :: VPNetEvaluator    \<comment> \<open>\<^verbatim>\<open>eval\<close>\<close>
  inf_eval :: VPNetEvaluator        \<comment> \<open>\<^verbatim>\<open>inf_eval\<close>\<close>

definition AlphaZero_start :: "'w \<Rightarrow> nat \<Rightarrow> 'w az_run" where
  "AlphaZero_start w inference_cache =
     \<lparr>weights = w, learner_eval = new_evaluator inference_cache,
      inf_eval = new_evaluator inference_cache\<rparr>"

text \<open>An evaluation requested by an actor or evaluator thread (\<^verbatim>\<open>evaluator->Evaluate\<close> in
  \<^verbatim>\<open>EvaluateLuck\<close> and in the search).\<close>

definition actor_evaluate ::
  "('w \<Rightarrow> real list \<Rightarrow> real list) \<Rightarrow> 'w az_run \<Rightarrow> real list \<Rightarrow> real list \<times> 'w az_run"
where
  "actor_evaluate net run obs =
     (let (v, ev) = Evaluate (net (weights run)) (inf_eval run) obs
      in (v, run\<lparr>inf_eval := ev\<rparr>))"

text \<open>
  One step of the learner, as far as the weights and the caches are concerned: training and
  loading the new checkpoint on every device replace the weights (\<open>train\<close>), then
  \<^verbatim>\<open>cache_info = eval->CacheInfo(); if (cache_info.size > 0) { ...; eval->ClearCache(); }\<close>.
\<close>

definition learner_step :: "('w \<Rightarrow> 'w) \<Rightarrow> 'w az_run \<Rightarrow> 'w az_run" where
  "learner_step train run =
     (let run1 = run\<lparr>weights := train (weights run)\<rparr>
      in if CacheInfo_size (learner_eval run1) > 0
         then run1\<lparr>learner_eval := ClearCache (learner_eval run1)\<rparr>
         else run1)"

text \<open>A network for examples: the weights are a number, which is the value of every
  observation.\<close>

definition version_net :: "nat \<Rightarrow> real list \<Rightarrow> real list" where
  "version_net w obs = [real w]"

section \<open>Saving and loading the model configuration\<close>

text \<open>
  Streams are strings. \<^verbatim>\<open>operator<<\<close> for an \<^verbatim>\<open>int\<close> writes the decimal digits, after a minus
  sign for a negative number. \<^verbatim>\<open>operator>>\<close> skips white space first (\<^verbatim>\<open>isspace\<close>: space and
  the characters 9 to 13); for an \<^verbatim>\<open>int\<close> it then reads an optional sign and the digits that
  follow, and fails when there is no digit or the number is outside the 32-bit range; for a
  string it reads the characters up to the next white space, and fails when there is none.
  The value read and the rest of the stream are returned; a failed extraction is \<open>None\<close>.
\<close>

definition is_space :: "char \<Rightarrow> bool" where
  "is_space c \<longleftrightarrow> c = CHR '' '' \<or> (9 \<le> (of_char c :: nat) \<and> (of_char c :: nat) \<le> 13)"

definition is_digit :: "char \<Rightarrow> bool" where
  "is_digit c \<longleftrightarrow> 48 \<le> (of_char c :: nat) \<and> (of_char c :: nat) \<le> 57"

definition digit_char :: "nat \<Rightarrow> char" where
  "digit_char d = char_of (48 + d)"

fun show_nat :: "nat \<Rightarrow> string" where
  "show_nat n = (if n < 10 then [digit_char n] else show_nat (n div 10) @ [digit_char (n mod 10)])"

definition show_int :: "int \<Rightarrow> string" where
  "show_int i = (if i < 0 then CHR ''-'' # show_nat (nat (- i)) else show_nat (nat i))"

definition digits_val :: "string \<Rightarrow> nat" where
  "digits_val ds = foldl (\<lambda>a c. 10 * a + (of_char c - 48)) 0 ds"

definition INT_MIN :: int where
  "INT_MIN = - 2147483648"

definition read_int :: "string \<Rightarrow> (int \<times> string) option" where
  "read_int s =
     (let s1 = dropWhile is_space s;
          (neg, s2) = (case s1 of
                         c # r \<Rightarrow> if c = CHR ''-'' then (True, r)
                                  else if c = CHR ''+'' then (False, r) else (False, s1)
                       | [] \<Rightarrow> (False, s1));
          ds = takeWhile is_digit s2
      in if ds = [] then None
         else (let i = (if neg then - int (digits_val ds) else int (digits_val ds))
               in if i < INT_MIN \<or> INT_MAX < i then None
                  else Some (i, dropWhile is_digit s2)))"

definition read_word :: "string \<Rightarrow> (string \<times> string) option" where
  "read_word s =
     (let s1 = dropWhile is_space s;
          w = takeWhile (\<lambda>c. \<not> is_space c) s1
      in if w = [] then None else Some (w, dropWhile (\<lambda>c. \<not> is_space c) s1))"

text \<open>
  \<^verbatim>\<open>ModelConfig\<close> is declared in \<^verbatim>\<open>model.h\<close>, which is not among the sources; these are the
  fields the stream operators use. The conversions between \<^verbatim>\<open>double\<close> and text belong to the
  C++ library: they are the parameters \<open>show_double\<close> and \<open>read_double\<close>.
\<close>

record ModelConfig =
  observation_tensor_shape :: "int list"
  nn_depth :: int
  nn_width :: int
  learning_rate :: real
  weight_decay :: real
  nn_model :: string

text \<open>\<^verbatim>\<open>operator<<\<close>; reading an entry of the shape that is not there is \<open>None\<close>.\<close>

definition write_ModelConfig :: "(real \<Rightarrow> string) \<Rightarrow> ModelConfig \<Rightarrow> string option" where
  "write_ModelConfig show_double config =
     do {
       c \<leftarrow> nth_chk (observation_tensor_shape config) 0;
       h \<leftarrow> nth_chk (observation_tensor_shape config) 1;
       w \<leftarrow> nth_chk (observation_tensor_shape config) 2;
       Some (show_int c @ '' '' @ show_int h @ '' '' @ show_int w @ '' ''
             @ show_int (nn_depth config) @ '' '' @ show_int (nn_width config) @ '' ''
             @ show_double (learning_rate config) @ '' ''
             @ show_double (weight_decay config) @ '' '' @ nn_model config)
     }"

text \<open>\<^verbatim>\<open>operator>>\<close>; after a failed extraction the fields hold no defined value.\<close>

definition read_ModelConfig ::
  "(string \<Rightarrow> (real \<times> string) option) \<Rightarrow> string \<Rightarrow> ModelConfig option"
where
  "read_ModelConfig read_double s0 =
     do {
       (channels, s1) \<leftarrow> read_int s0;
       (height, s2) \<leftarrow> read_int s1;
       (width, s3) \<leftarrow> read_int s2;
       (depth, s4) \<leftarrow> read_int s3;
       (nwidth, s5) \<leftarrow> read_int s4;
       (lr, s6) \<leftarrow> read_double s5;
       (wd, s7) \<leftarrow> read_double s6;
       (model, s8) \<leftarrow> read_word s7;
       Some \<lparr>observation_tensor_shape = [channels, height, width], nn_depth = depth,
             nn_width = nwidth, learning_rate = lr, weight_decay = wd, nn_model = model\<rparr>
     }"

text \<open>
  The file system maps the name of a file to its content; \<open>writable\<close> tells whether a file
  can be opened for writing. \<^verbatim>\<open>SaveModelConfig\<close> returns its \<^verbatim>\<open>bool\<close> and the file system.
\<close>

definition SaveModelConfig ::
  "(real \<Rightarrow> string) \<Rightarrow> (string \<Rightarrow> bool) \<Rightarrow> (string \<rightharpoonup> string) \<Rightarrow> string \<Rightarrow> string
     \<Rightarrow> ModelConfig \<Rightarrow> (bool \<times> (string \<rightharpoonup> string)) option"
where
  "SaveModelConfig show_double writable fs path filename net_config =
     (if \<not> writable (path @ ''/'' @ filename) then Some (False, fs)
      else do {
        txt \<leftarrow> write_ModelConfig show_double net_config;
        Some (True, fs(path @ ''/'' @ filename \<mapsto> txt))
      })"

definition LoadModelConfig ::
  "(string \<Rightarrow> (real \<times> string) option) \<Rightarrow> (string \<rightharpoonup> string) \<Rightarrow> string \<Rightarrow> string
     \<Rightarrow> ModelConfig option"
where
  "LoadModelConfig read_double fs path filename =
     (case fs (path @ ''/'' @ filename) of
        None \<Rightarrow> None
      | Some txt \<Rightarrow> read_ModelConfig read_double txt)"

definition int_range :: "int \<Rightarrow> bool" where
  "int_range i \<longleftrightarrow> INT_MIN \<le> i \<and> i \<le> INT_MAX"

text \<open>Writing a \<^verbatim>\<open>double\<close> after a space and reading it back gives the value and leaves what
  follows, when that is nothing or begins with white space.\<close>

definition double_round_trip ::
  "(real \<Rightarrow> string) \<Rightarrow> (string \<Rightarrow> (real \<times> string) option) \<Rightarrow> real \<Rightarrow> bool"
where
  "double_round_trip show_double read_double x \<longleftrightarrow>
     (\<forall>rest. rest = [] \<or> is_space (hd rest) \<longrightarrow>
        read_double (CHR '' '' # show_double x @ rest) = Some (x, rest))"

text \<open>Conversions that agree with the stream operators on the value 0, which is written as
  \<^verbatim>\<open>0\<close>; the examples use no other \<^verbatim>\<open>double\<close>.\<close>

definition zero_show :: "real \<Rightarrow> string" where
  "zero_show x = ''0''"

definition zero_read :: "string \<Rightarrow> (real \<times> string) option" where
  "zero_read s =
     (case dropWhile is_space s of
        c # r \<Rightarrow> if c = CHR ''0'' \<and> (r = [] \<or> is_space (hd r)) then Some (0, r) else None
      | [] \<Rightarrow> None)"

definition example_config :: "string \<Rightarrow> ModelConfig" where
  "example_config name =
     \<lparr>observation_tensor_shape = [4, 8, 8], nn_depth = 2, nn_width = 64,
      learning_rate = 0, weight_decay = 0, nn_model = name\<rparr>"

section \<open>Verification\<close>

subsection \<open>TD(lambda) returns\<close>

lemma td_loop_end:
  "length sts \<le> i \<Longrightarrow> td_loop sts accum outcome lam s n i lp ret = ret + lp * outcome"
  by (subst td_loop.simps) simp

lemma td_loop_cut:
  "i < length sts \<Longrightarrow> 0 < n \<Longrightarrow> int i = s + n \<Longrightarrow>
   td_loop sts accum outcome lam s n i lp ret = ret + lp * adj sts accum i"
  by (subst td_loop.simps) (simp add: adj_def Let_def)

lemma td_loop_step:
  "i < length sts \<Longrightarrow> \<not> (0 < n \<and> int i = s + n) \<Longrightarrow>
   td_loop sts accum outcome lam s n i lp ret =
   td_loop sts accum outcome lam s n (Suc i) (lp * lam) (ret + (1 - lam) * lp * adj sts accum i)"
  by (subst td_loop.simps) (auto simp add: adj_def Let_def)

lemma sum_shift_pow:
  fixes lp lam :: real
  assumes "i < m"
  shows "(\<Sum>j = i..<m. lp * lam ^ (j - i) * f j)
       = lp * f i + (\<Sum>j = Suc i..<m. (lp * lam) * lam ^ (j - Suc i) * f j)"
proof -
  have "(\<Sum>j = Suc i..<m. (lp * lam) * lam ^ (j - Suc i) * f j)
        = (\<Sum>j = Suc i..<m. lp * lam ^ (j - i) * f j)"
  proof (rule sum.cong)
    fix j assume "j \<in> {Suc i..<m}"
    then have "j - i = Suc (j - Suc i)" by auto
    then show "(lp * lam) * lam ^ (j - Suc i) * f j = lp * lam ^ (j - i) * f j"
      by simp
  qed simp
  then show ?thesis using assms by (simp add: sum.atLeast_Suc_lessThan)
qed

lemma td_loop_run:
  assumes "i \<le> length sts" "n \<le> 0 \<or> s + n < int i \<or> int (length sts) \<le> s + n"
  shows "td_loop sts accum outcome lam s n i lp ret =
     ret + (1 - lam) * (\<Sum>j = i..<length sts. lp * lam ^ (j - i) * adj sts accum j)
         + lp * lam ^ (length sts - i) * outcome"
  using assms
proof (induction "length sts - i" arbitrary: i lp ret)
  case 0
  then have "i = length sts" by simp
  then show ?case by (simp add: td_loop_end)
next
  case (Suc k)
  then have lt: "i < length sts" by simp
  have ne: "\<not> (0 < n \<and> int i = s + n)" using Suc.prems lt by auto
  have k: "k = length sts - Suc i" using Suc.hyps by simp
  have c2: "n \<le> 0 \<or> s + n < int (Suc i) \<or> int (length sts) \<le> s + n"
    using Suc.prems by auto
  have le: "Suc i \<le> length sts" using lt by simp
  have p: "lam * lam ^ (length sts - Suc i) = lam ^ (length sts - i)"
    using lt by (simp add: Suc_diff_Suc flip: power_Suc)
  show ?case
    unfolding td_loop_step[OF lt ne] Suc.hyps(1)[OF k le c2] sum_shift_pow[OF lt]
    by (simp add: algebra_simps p)
qed

lemma td_loop_cutoff:
  assumes "0 < n" "int i \<le> s + n" "s + n < int (length sts)"
  shows "td_loop sts accum outcome lam s n i lp ret =
     ret + (1 - lam) * (\<Sum>j = i..<nat (s + n). lp * lam ^ (j - i) * adj sts accum j)
         + lp * lam ^ (nat (s + n) - i) * adj sts accum (nat (s + n))"
  using assms
proof (induction "nat (s + n) - i" arbitrary: i lp ret)
  case 0
  then have e: "int i = s + n" by linarith
  then have i: "nat (s + n) = i" by linarith
  have lt: "i < length sts" using 0 e by linarith
  show ?case by (simp add: td_loop_cut[OF lt 0(2) e] i)
next
  case (Suc k)
  then have lt': "i < nat (s + n)" by linarith
  then have lt: "i < length sts" using Suc.prems by linarith
  have ne: "\<not> (0 < n \<and> int i = s + n)" using lt' by linarith
  have k: "k = nat (s + n) - Suc i" using Suc.hyps by simp
  have le: "int (Suc i) \<le> s + n" using lt' by linarith
  define c where "c = nat (s + n)"
  have p: "lam * lam ^ (c - Suc i) = lam ^ (c - i)"
    using lt' by (simp add: c_def Suc_diff_Suc flip: power_Suc)
  show ?case
    unfolding td_loop_step[OF lt ne] Suc.hyps(1)[OF k Suc.prems(1) le Suc.prems(3)] sum_shift_pow[OF lt']
    unfolding c_def[symmetric]
    by (simp add: algebra_simps p)
qed

lemma adj_eq: "adj (states tr) (accum_luck (states tr ! s)) i = adj_value tr s i"
  by (simp add: adj_def adj_value_def)

lemma sum_reindex:
  fixes f :: "nat \<Rightarrow> real" and lam :: real
  shows "(\<Sum>j = Suc s..<s + Suc m. lam * lam ^ (j - Suc s) * f j) = (\<Sum>k = 1..m. lam ^ k * f (s + k))"
proof -
  have "(\<Sum>j = Suc s..<s + Suc m. lam * lam ^ (j - Suc s) * f j)
      = (\<Sum>j = 0 + Suc s..<m + Suc s. lam * lam ^ (j - Suc s) * f j)"
    by (simp add: add.commute)
  also have "\<dots> = (\<Sum>i = 0..<m. lam * lam ^ (i + Suc s - Suc s) * f (i + Suc s))"
    by (rule sum.shift_bounds_nat_ivl)
  also have "\<dots> = (\<Sum>i = 0..<m. lam ^ Suc i * f (s + Suc i))"
    by (simp add: add.commute)
  also have "\<dots> = (\<Sum>k = Suc 0..<Suc m. lam ^ k * f (s + k))"
    by (rule sum.shift_bounds_Suc_ivl[symmetric])
  finally show ?thesis by (simp add: atLeastLessThanSuc_atLeastAtMost)
qed

lemma td_mixture_loop:
  assumes ok: "td_inputs_ok tr s n"
  shows "td_loop (states tr) (accum_luck (states tr ! s)) (bootstrap tr s) lam (int s) (int n)
           (s + 1) lam (player0_value (states tr ! s) * (1 - lam))
         = td_mixture tr s lam n"
proof (cases "0 < n \<and> s + n < length (states tr)")
  case True
  then obtain n' where n': "n = Suc n'" by (cases n) auto
  have c: "nat (int s + int n) = s + n" by simp
  have r: "(\<Sum>j = Suc s..<s + Suc n'. lam * lam ^ (j - Suc s) * adj_value tr s j)
         = (\<Sum>k = 1..n'. lam ^ k * adj_value tr s (s + k))"
    by (rule sum_reindex)
  have "td_loop (states tr) (accum_luck (states tr ! s)) (bootstrap tr s) lam (int s) (int n)
           (s + 1) lam (player0_value (states tr ! s) * (1 - lam))
     = player0_value (states tr ! s) * (1 - lam)
       + (1 - lam) * (\<Sum>j = s + 1..<s + n. lam * lam ^ (j - (s + 1)) * adj_value tr s j)
       + lam * lam ^ (s + n - (s + 1)) * adj_value tr s (s + n)"
    using True by (subst td_loop_cutoff) (simp_all add: adj_eq c)
  also have "\<dots> = player0_value (states tr ! s) * (1 - lam)
       + (1 - lam) * (\<Sum>k = 1..n'. lam ^ k * adj_value tr s (s + k))
       + lam ^ n * adj_value tr s (s + n)"
    unfolding n' using r by simp
  also have "\<dots> = td_mixture tr s lam n"
    using True by (simp add: td_mixture_def n' atLeastLessThanSuc_atLeastAtMost)
  finally show ?thesis .
next
  case False
  have lt: "s < length (states tr)" using ok by (simp add: td_inputs_ok_def)
  define m where "m = length (states tr) - 1 - s"
  have len: "length (states tr) = s + Suc m" using lt by (simp add: m_def)
  have r: "(\<Sum>j = Suc s..<s + Suc m. lam * lam ^ (j - Suc s) * adj_value tr s j)
         = (\<Sum>k = 1..m. lam ^ k * adj_value tr s (s + k))"
    by (rule sum_reindex)
  have "td_loop (states tr) (accum_luck (states tr ! s)) (bootstrap tr s) lam (int s) (int n)
           (s + 1) lam (player0_value (states tr ! s) * (1 - lam))
     = player0_value (states tr ! s) * (1 - lam)
       + (1 - lam) * (\<Sum>j = s + 1..<length (states tr). lam * lam ^ (j - (s + 1)) * adj_value tr s j)
       + lam * lam ^ (length (states tr) - (s + 1)) * bootstrap tr s"
    using False lt by (subst td_loop_run) (auto simp add: adj_eq)
  also have "\<dots> = player0_value (states tr ! s) * (1 - lam)
       + (1 - lam) * (\<Sum>k = 1..m. lam ^ k * adj_value tr s (s + k))
       + lam ^ (m + 1) * bootstrap tr s"
    unfolding len using r by simp
  also have "\<dots> = td_mixture tr s lam n"
    using False by (auto simp add: td_mixture_def m_def Let_def)
  finally show ?thesis .
qed

lemma TdLambdaReturns_eq:
  assumes ok: "td_inputs_ok tr s n"
  shows "TdLambdaReturns near tr (int s) lam (int n) = Some
     (if lam \<ge> 1 \<or> near lam 1 then
        (if n = 0 \<or> length (states tr) \<le> s + n then bootstrap tr s
         else adj_value tr s (s + n))
      else if lam \<le> 0 \<or> near lam 0 then player0_value (states tr ! s)
      else td_mixture tr s lam n)"
proof -
  have b: "\<not> (int s < 0 \<or> int (length (states tr)) \<le> int s \<or> returns tr = []
         \<or> INT_MAX < int (length (states tr)))"
    using ok by (auto simp: td_inputs_ok_def)
  have o: "\<not> INT_MAX < int s + int n" using ok by (simp add: td_inputs_ok_def)
  show ?thesis
    unfolding TdLambdaReturns_def
    apply (simp only: b if_False Let_def nat_int bootstrap_def[symmetric])
    using o td_mixture_loop[OF ok, of lam]
    by (auto simp add: adj_value_def nat_add_distrib)
qed

lemma td_loop_bounded:
  assumes "0 \<le> lam" "lam \<le> 1" "\<bar>outcome\<bar> \<le> 1"
    and "\<forall>j. i \<le> j \<and> j < length sts \<longrightarrow> \<bar>adj sts accum j\<bar> \<le> 1"
    and "0 \<le> lp" "\<bar>ret\<bar> \<le> 1 - lp"
  shows "\<bar>td_loop sts accum outcome lam s n i lp ret\<bar> \<le> 1"
  using assms(4-6)
proof (induction "length sts - i" arbitrary: i lp ret)
  case 0
  then have "length sts \<le> i" by simp
  moreover have "\<bar>lp * outcome\<bar> \<le> lp"
    using 0(3) assms(3) by (simp add: abs_mult mult_left_le)
  ultimately show ?case using 0(4) by (simp add: td_loop_end)
next
  case (Suc k)
  then have lt: "i < length sts" by simp
  have a: "\<bar>adj sts accum i\<bar> \<le> 1" using Suc.prems(1) lt by simp
  have la: "\<bar>lp * adj sts accum i\<bar> \<le> lp"
    using Suc.prems(2) a by (simp add: abs_mult mult_left_le)
  show ?case
  proof (cases "0 < n \<and> int i = s + n")
    case True
    then show ?thesis using la Suc.prems(3) lt by (simp add: td_loop_cut)
  next
    case False
    have k: "k = length sts - Suc i" using Suc.hyps by simp
    have f: "\<forall>j. Suc i \<le> j \<and> j < length sts \<longrightarrow> \<bar>adj sts accum j\<bar> \<le> 1"
      using Suc.prems(1) by simp
    have p: "0 \<le> lp * lam" using Suc.prems(2) assms(1) by simp
    have "\<bar>(1 - lam) * lp * adj sts accum i\<bar> = (1 - lam) * \<bar>lp * adj sts accum i\<bar>"
      using assms(2) by (simp add: abs_mult)
    also have "\<dots> \<le> (1 - lam) * lp"
      using la assms(2) by (simp add: mult_left_mono)
    finally have "\<bar>ret + (1 - lam) * lp * adj sts accum i\<bar> \<le> (1 - lp) + (1 - lam) * lp"
      using Suc.prems(3) by linarith
    then have r: "\<bar>ret + (1 - lam) * lp * adj sts accum i\<bar> \<le> 1 - lp * lam"
      by (simp add: algebra_simps)
    show ?thesis
      unfolding td_loop_step[OF lt False]
      by (rule Suc.hyps(1)[OF k f p r])
  qed
qed

lemma bootstrap_bounded: "\<bar>bootstrap tr s\<bar> \<le> 1"
  by (simp add: bootstrap_def abs_le_iff)

lemma TdLambdaReturns_abs_le:
  assumes adj: "\<forall>i. s \<le> i \<and> i < length (states tr) \<longrightarrow> \<bar>adj_value tr s i\<bar> \<le> 1"
    and r: "TdLambdaReturns near tr (int s) lam n = Some r"
  shows "\<bar>r\<bar> \<le> 1"
proof -
  have b: "\<not> (int s < 0 \<or> int (length (states tr)) \<le> int s \<or> returns tr = []
         \<or> INT_MAX < int (length (states tr)))"
    using r by (auto simp: TdLambdaReturns_def split: if_splits)
  then have lt: "s < length (states tr)" by simp
  have vs: "\<bar>player0_value (states tr ! s)\<bar> \<le> 1"
    using adj lt by (auto simp: adj_value_def dest: spec[of _ s])
  show ?thesis
  proof (cases "lam \<ge> 1 \<or> near lam 1")
    case True
    have "\<bar>r\<bar> \<le> 1"
    proof (cases "n \<le> 0 \<or> int (length (states tr)) \<le> int s + n")
      case True
      then have "r = bootstrap tr s"
        using r \<open>lam \<ge> 1 \<or> near lam 1\<close>
        by (simp only: TdLambdaReturns_def b if_False Let_def nat_int bootstrap_def[symmetric])
           (auto split: if_splits)
      then show ?thesis using bootstrap_bounded by simp
    next
      case False
      define i where "i = nat (int s + n)"
      have i: "s \<le> i" "i < length (states tr)" using False by (auto simp: i_def)
      have "r = adj_value tr s i"
        using r \<open>lam \<ge> 1 \<or> near lam 1\<close> False
        by (simp only: TdLambdaReturns_def b if_False Let_def nat_int bootstrap_def[symmetric])
           (auto split: if_splits simp: adj_value_def i_def)
      then show ?thesis using adj i by simp
    qed
    then show ?thesis .
  next
    case False
    note F1 = this
    show ?thesis
    proof (cases "lam \<le> 0 \<or> near lam 0")
      case True
      then have "r = player0_value (states tr ! s)"
        using r b F1
        by (simp only: TdLambdaReturns_def b if_False Let_def nat_int bootstrap_def[symmetric] if_True)
           (auto split: if_splits)
      then show ?thesis using vs by simp
    next
      case False
      then have l: "0 \<le> lam" "lam \<le> 1" using F1 by auto
      have re: "r = td_loop (states tr) (accum_luck (states tr ! s)) (bootstrap tr s) lam (int s) n
                   (s + 1) lam (player0_value (states tr ! s) * (1 - lam))"
        using r b F1 False
        by (simp only: TdLambdaReturns_def b if_False Let_def nat_int bootstrap_def[symmetric] if_True)
           (auto split: if_splits)
      have a: "\<forall>j. s + 1 \<le> j \<and> j < length (states tr) \<longrightarrow>
                  \<bar>adj (states tr) (accum_luck (states tr ! s)) j\<bar> \<le> 1"
        using adj by (simp add: adj_eq)
      have i: "\<bar>player0_value (states tr ! s) * (1 - lam)\<bar> \<le> 1 - lam"
        using vs l by (simp add: abs_mult mult_right_le_one_le mult.commute mult_left_le)
      show ?thesis unfolding re
        by (rule td_loop_bounded[OF l bootstrap_bounded a l(1) i])
    qed
  qed
qed

text \<open>
  C1 (as amended). For a state index \<open>s\<close> of the trajectory and \<open>td_n_steps = n \<ge> 0\<close>:
  when \<open>lambda \<ge> 1\<close> or \<open>Near(lambda, 1)\<close> the result is the clipped bootstrap \<open>B\<close> if
  \<open>n = 0\<close> or \<open>s + n\<close> is past the last state, and \<open>v\<^bsub>s+n\<^esub> - L\<^bsub>s+n\<^esub>\<close> otherwise; else when
  \<open>lambda \<le> 0\<close> or \<open>Near(lambda, 0)\<close> it is \<open>v\<^sub>s\<close>; else it is the lambda-mixture
  \<open>v\<^sub>s (1 - lambda) + (1 - lambda) \<Sum>\<^bsub>k=1..m\<^esub> lambda\<^sup>k (v\<^bsub>s+k\<^esub> - L\<^bsub>s+k\<^esub>) + lambda\<^bsup>m+1\<^esup> B\<close>
  running to the last state, or, when \<open>n > 0\<close> and index \<open>s + n\<close> exists, the sum up to
  \<open>n - 1\<close> followed by \<open>lambda\<^sup>n (v\<^bsub>s+n\<^esub> - L\<^bsub>s+n\<^esub>)\<close> with no \<open>1 - lambda\<close> weight and no bootstrap.
\<close>

theorem TdLambdaReturns_closed_form:
  assumes "td_inputs_ok tr s n"
  shows "TdLambdaReturns near tr (int s) lam (int n) = Some
     (if lam \<ge> 1 \<or> near lam 1 then
        (if n = 0 \<or> length (states tr) \<le> s + n then bootstrap tr s
         else adj_value tr s (s + n))
      else if lam \<le> 0 \<or> near lam 0 then player0_value (states tr ! s)
      else td_mixture tr s lam n)"
  using assms by (rule TdLambdaReturns_eq)

text \<open>
  The scenario S3 of the specification: three states with player-0 values \<open>0.2, 0.4, -0.1\<close>,
  accumulated luck \<open>0, 0.1, 0.1\<close>, return \<open>+1\<close>, \<open>lambda = 0.5\<close>, \<open>n = 0\<close>.
\<close>

theorem TdLambdaReturns_closed_form_witness:
  "td_inputs_ok s3_trajectory 0 0 \<and>
   TdLambdaReturns Near s3_trajectory 0 (1/2) 0 = Some (21/80)"
proof -
  have ok: "td_inputs_ok s3_trajectory 0 0"
    by (simp add: td_inputs_ok_def s3_trajectory_def INT_MAX_def)
  have m: "td_mixture s3_trajectory 0 (1/2) 0 = 21/80"
    by (simp add: td_mixture_def s3_trajectory_def adj_value_def player0_value_def bootstrap_def
         Let_def numeral_2_eq_2 power2_eq_square power3_eq_cube)
  show ?thesis
    using ok TdLambdaReturns_closed_form[OF ok, of Near "1/2"] m
    by (simp add: Near_def)
qed

text \<open>
  As stated for every \<open>lambda\<close> strictly between 0 and 1, the claim fails: at
  \<open>lambda = 0.999999\<close> the test \<open>Near(lambda, 1)\<close> holds and the code returns the bootstrap
  \<open>B = 1\<close>, while the mixture is \<open>0.999999\<close>.
\<close>

theorem TdLambdaReturns_near_one_counterexample:
  "\<not> (0 < (999999/1000000 :: real) \<and> (999999/1000000 :: real) < 1 \<longrightarrow>
      TdLambdaReturns Near near1_trajectory 0 (999999/1000000) 0
        = Some (td_mixture near1_trajectory 0 (999999/1000000) 0))"
  by (simp add: TdLambdaReturns_def near1_trajectory_def Near_def INT_MAX_def td_mixture_def
        bootstrap_def adj_value_def player0_value_def)

text \<open>
  C4 (as amended). Let \<open>s\<close> be a state index of the trajectory, \<open>td_n_steps = n \<ge> 0\<close> with
  \<open>s + n\<close> at most \<^verbatim>\<open>INT_MAX\<close>, the returns vector non-empty and the number of states at most
  \<^verbatim>\<open>INT_MAX\<close> (\<open>td_inputs_ok\<close>). If every luck-adjusted value \<open>v\<^sub>i - L\<^sub>i\<close> from the targeted state
  \<open>s\<close> onwards lies in \<open>[-1, 1]\<close>, then \<open>TdLambdaReturns\<close> returns a value of absolute value at
  most \<open>1 + \<epsilon>\<close>, for every \<open>\<epsilon> > 0\<close>: the result is a convex combination of those values and
  the clipped bootstrap. (The \<open>\<epsilon>\<close> of the claim is room for the rounding of \<^verbatim>\<open>double\<close>
  arithmetic, which the real numbers of this model do not have.)
\<close>

theorem TdLambdaReturns_bounded:
  assumes "td_inputs_ok tr s n"
    and "\<forall>i. s \<le> i \<and> i < length (states tr) \<longrightarrow> \<bar>adj_value tr s i\<bar> \<le> 1"
    and "0 < eps"
  shows "\<exists>r. TdLambdaReturns near tr (int s) lam (int n) = Some r \<and> \<bar>r\<bar> \<le> 1 + eps"
proof -
  obtain r where r: "TdLambdaReturns near tr (int s) lam (int n) = Some r"
    using TdLambdaReturns_eq[OF assms(1)] by blast
  then have "\<bar>r\<bar> \<le> 1" using TdLambdaReturns_abs_le[OF assms(2)] by blast
  then have "\<bar>r\<bar> \<le> 1 + eps" using assms(3) by simp
  then show ?thesis using r by blast
qed

text \<open>The scenario S3 with \<open>\<epsilon> = 1/1000000\<close>.\<close>

theorem TdLambdaReturns_bounded_witness:
  "td_inputs_ok s3_trajectory 0 0 \<and>
   \<bar>adj_value s3_trajectory 0 0\<bar> \<le> 1 \<and> \<bar>adj_value s3_trajectory 0 1\<bar> \<le> 1 \<and>
   \<bar>adj_value s3_trajectory 0 2\<bar> \<le> 1 \<and> length (states s3_trajectory) = 3 \<and>
   (0 :: real) < 1 / 1000000 \<and>
   (\<exists>r. TdLambdaReturns Near s3_trajectory 0 (1/2) 0 = Some r \<and> \<bar>r\<bar> \<le> 1 + 1 / 1000000)"
proof -
  have ok: "td_inputs_ok s3_trajectory 0 0"
    by (simp add: td_inputs_ok_def s3_trajectory_def INT_MAX_def)
  have a: "\<bar>adj_value s3_trajectory 0 0\<bar> \<le> 1" "\<bar>adj_value s3_trajectory 0 1\<bar> \<le> 1"
    "\<bar>adj_value s3_trajectory 0 2\<bar> \<le> 1" "length (states s3_trajectory) = 3"
    by (simp_all add: s3_trajectory_def adj_value_def player0_value_def)
  have b: "\<forall>i. 0 \<le> i \<and> i < length (states s3_trajectory) \<longrightarrow> \<bar>adj_value s3_trajectory 0 i\<bar> \<le> 1"
  proof (intro allI impI)
    fix i assume "0 \<le> i \<and> i < length (states s3_trajectory)"
    then have "i = 0 \<or> i = 1 \<or> i = 2" using a(4) by auto
    then show "\<bar>adj_value s3_trajectory 0 i\<bar> \<le> 1" using a(1-3) by auto
  qed
  have e: "(0 :: real) < 1 / 1000000" by simp
  show ?thesis using ok a e TdLambdaReturns_bounded[OF ok b e, of Near "1/2"] by simp
qed

text \<open>
  Without the bound on the luck-adjusted values the claim fails: two states of player 0 with
  recorded values \<open>1, 1\<close>, accumulated luck \<open>0, -1\<close>, return \<open>+1\<close>, \<open>lambda = 0.5\<close>, \<open>n = 0\<close>
  give the target \<open>1.25\<close>.
\<close>

theorem TdLambdaReturns_unbounded_counterexample:
  "TdLambdaReturns Near luck_trajectory 0 (1/2) 0 = Some (5/4) \<and> \<not> \<bar>5/4 :: real\<bar> \<le> 1 + 1/5"
  by (simp add: TdLambdaReturns_def luck_trajectory_def Near_def INT_MAX_def
        td_loop.simps player0_value_def)

subsection \<open>Luck evaluation\<close>

lemma luck_loop_sum:
  assumes "\<forall>p \<in> set outs. evaluate (apply_action st (fst p)) \<noteq> []"
    and "length (filter (\<lambda>p. fst p = a) outs) = (if found then 0 else 1)"
  shows "luck_loop apply_action evaluate st a outs (avg, av, found) =
     Some (avg + (\<Sum>p\<leftarrow>outs. snd p * hd (evaluate (apply_action st (fst p)))),
           (if found then av else hd (evaluate (apply_action st a))), True)"
  using assms
proof (induction outs arbitrary: avg av found)
  case Nil
  then show ?case by (simp split: if_splits)
next
  case (Cons p outs)
  obtain ta tp where p: "p = (ta, tp)" by (cases p)
  obtain v vs where ev: "evaluate (apply_action st ta) = v # vs"
    using Cons.prems(1) p by (cases "evaluate (apply_action st ta)") auto
  have rest: "\<forall>p \<in> set outs. evaluate (apply_action st (fst p)) \<noteq> []"
    using Cons.prems(1) by simp
  show ?case
  proof (cases "ta = a")
    case True
    then have nf: "\<not> found" and c: "length (filter (\<lambda>p. fst p = a) outs) = (if True then 0 else 1)"
      using Cons.prems(2) p by (auto split: if_splits)
    show ?thesis
      using Cons.IH[OF rest c, of "avg + tp * v" v] True nf ev p
      by (simp add: algebra_simps)
  next
    case False
    then have c: "length (filter (\<lambda>p. fst p = a) outs) = (if found then 0 else 1)"
      using Cons.prems(2) p by simp
    show ?thesis
      using Cons.IH[OF rest c, of "avg + tp * v" av] False ev p
      by (simp add: algebra_simps)
  qed
qed

text \<open>
  C6. At a chance state whose outcomes contain the chosen action \<open>a\<close> exactly once (and whose
  successor states the evaluator values), \<open>EvaluateLuck\<close> returns the evaluator's player-0
  value of the state after \<open>a\<close> minus the probability-weighted sum of the values of all
  the successor states.
\<close>

theorem EvaluateLuck_value_minus_average:
  assumes "is_chance_node st"
    and "length (filter (\<lambda>p. fst p = a) (chance_outcomes st)) = 1"
    and "\<forall>p \<in> set (chance_outcomes st). evaluate (apply_action st (fst p)) \<noteq> []"
  shows "EvaluateLuck is_chance_node chance_outcomes apply_action evaluate st a =
     Some (hd (evaluate (apply_action st a))
           - (\<Sum>p\<leftarrow>chance_outcomes st. snd p * hd (evaluate (apply_action st (fst p)))))"
proof -
  have c: "length (filter (\<lambda>p. fst p = a) (chance_outcomes st)) = (if False then 0 else 1)"
    using assms(2) by simp
  show ?thesis
    unfolding EvaluateLuck_def
    using assms(1) assms(3) c
      luck_loop_sum[where evaluate=evaluate and apply_action=apply_action and st=st
        and outs="chance_outcomes st" and a=a and found=False and avg=0 and av=0]
    by simp
qed

text \<open>Scenario S4: outcomes \<open>[(a\<^sub>1, 0.5, V = +0.4), (a\<^sub>2, 0.5, V = -0.4)]\<close>, chosen \<open>a\<^sub>1\<close>:
  the luck is \<open>0.4\<close>.\<close>

theorem EvaluateLuck_value_minus_average_witness:
  "EvaluateLuck (\<lambda>st. st = 0) s4_outcomes s4_apply s4_evaluate 0 1 = Some (2/5)"
proof -
  have 1: "(\<lambda>st. st = (0::nat)) 0" by simp
  have 2: "length (filter (\<lambda>p. fst p = 1) (s4_outcomes 0)) = 1"
    by (simp add: s4_outcomes_def)
  have 3: "\<forall>p \<in> set (s4_outcomes 0). s4_evaluate (s4_apply 0 (fst p)) \<noteq> []"
    by (simp add: s4_outcomes_def s4_evaluate_def)
  show ?thesis
    using EvaluateLuck_value_minus_average[of "\<lambda>st. st = 0" 0 1 s4_outcomes s4_evaluate s4_apply, OF 1 2 3]
    by (simp add: s4_outcomes_def s4_evaluate_def s4_apply_def)
qed

subsection \<open>Backgammon: applying and undoing a checker move\<close>

lemma nth_chk_Some [simp]:
  "0 \<le> i \<Longrightarrow> i < int (length xs) \<Longrightarrow> nth_chk xs i = Some (xs ! nat i)"
  by (simp add: nth_chk_def)

lemma nth_chk_None [simp]:
  "i < 0 \<or> int (length xs) \<le> i \<Longrightarrow> nth_chk xs i = None"
  by (auto simp add: nth_chk_def)

lemma upd_chk_Some [simp]:
  "0 \<le> i \<Longrightarrow> i < int (length xs) \<Longrightarrow> upd_chk xs i v = Some (xs[nat i := v])"
  by (simp add: upd_chk_def)

lemma add_at_Some:
  "0 \<le> i \<Longrightarrow> i < int (length xs) \<Longrightarrow> add_at xs i d = Some (xs[nat i := xs ! nat i + d])"
  by (simp add: add_at_def)

lemma nth_chk2_Some [simp]:
  "0 \<le> p \<Longrightarrow> p < int (length m) \<Longrightarrow> 0 \<le> i \<Longrightarrow> i < int (length (m ! nat p)) \<Longrightarrow>
   nth_chk2 m p i = Some (m ! nat p ! nat i)"
  by (simp add: nth_chk2_def)

lemma add_at2_Some:
  "0 \<le> p \<Longrightarrow> p < int (length m) \<Longrightarrow> 0 \<le> i \<Longrightarrow> i < int (length (m ! nat p)) \<Longrightarrow>
   add_at2 m p i d = Some (m[nat p := (m ! nat p)[nat i := m ! nat p ! nat i + d]])"
  by (simp add: add_at2_def add_at_Some)

lemma sum_list_update_int:
  fixes xs :: "int list"
  shows "i < length xs \<Longrightarrow> sum_list (xs[i := v]) = sum_list xs - xs ! i + v"
  by (induction xs arbitrary: i) (auto split: nat.splits)

lemma move_target_range:
  assumes "1 \<le> num m" "num m \<le> 6" "pos m = kBarPos \<or> (0 \<le> pos m \<and> pos m \<le> 23)"
  shows "move_target p m = kScorePos \<or> (0 \<le> move_target p m \<and> move_target p m \<le> 23)"
  using assms by (auto simp: move_target_def kBarPos_def kScorePos_def)

lemma PositionFrom_target:
  assumes "p = 0 \<or> p = 1"
  shows "(if pos m = kBarPos then PositionFromBar p (num m) else PositionFrom p (pos m) (num m))
         = Some (move_target p m)"
  using assms
  by (auto simp: move_target_def PositionFrom_def PositionFromBar_def kXPlayerId_def kOPlayerId_def
      Let_def)

lemma length_bump [simp]: "length (bump xs i d) = length xs"
  by (simp add: bump_def)

lemma length_bump2 [simp]: "length (bump2 m p i d) = length m"
  by (simp add: bump2_def)

lemma add_at_bump: "0 \<le> i \<Longrightarrow> i < int (length xs) \<Longrightarrow> add_at xs i d = Some (bump xs i d)"
  by (simp add: bump_def add_at_Some)

lemma add_at2_bump:
  "0 \<le> p \<Longrightarrow> p < int (length m) \<Longrightarrow> 0 \<le> i \<Longrightarrow> i < int (length (m ! nat p)) \<Longrightarrow>
   add_at2 m p i d = Some (bump2 m p i d)"
  by (simp add: bump2_def bump_def add_at2_Some)

lemma bump2_row_length [simp]:
  "length (bump2 m p i d ! q) = length (m ! q)"
  by (cases "nat p < length m"; cases "q = nat p") (simp_all add: bump2_def bump_def list_update_beyond)

lemma bump2_nth:
  "0 \<le> p \<Longrightarrow> 0 \<le> q \<Longrightarrow> 0 \<le> i \<Longrightarrow> 0 \<le> j \<Longrightarrow> nat p < length m \<Longrightarrow> nat i < length (m ! nat p) \<Longrightarrow>
   bump2 m p i d ! nat q ! nat j = m ! nat q ! nat j + (if q = p \<and> j = i then d else 0)"
  by (cases "q = p"; cases "j = i") (auto simp: bump2_def bump_def)

lemma bump_nth:
  "0 \<le> i \<Longrightarrow> 0 \<le> j \<Longrightarrow> nat i < length xs \<Longrightarrow>
   bump xs i d ! nat j = xs ! nat j + (if j = i then d else 0)"
  by (cases "j = i") (auto simp: bump_def)

lemma apply_eq:
  assumes "shape_ok s" "playable_move s m"
  shows "ApplyCheckerMove s m = Some (hit m, apply_pure s m)"
proof -
  define p where "p = cur_player s"
  define t where "t = move_target p m"
  have p: "p = 0 \<or> p = 1" using assms(1) by (simp add: shape_ok_def p_def)
  have pr: "0 \<le> p" "p < 2" "0 \<le> 1 - p" "1 - p < 2" "1 - p \<noteq> p" using p by auto
  have sh: "length (bar s) = 2" "length (scores s) = 2" "length (board s) = 2"
     "length (remaining_dice s) = 6"
    using assms(1) by (simp_all add: shape_ok_def)
  have rowlen: "length (board s ! nat p) = 24" "length (board s ! nat (1 - p)) = 24"
    using assms(1) p by (auto simp: shape_ok_def)
  have n: "1 \<le> num m" "num m \<le> 6" using assms(2) by (simp_all add: playable_move_def)
  have ps: "pos m = kBarPos \<or> (0 \<le> pos m \<and> pos m \<le> 23)"
    using assms(2) by (auto simp add: playable_move_def)
  have nneg: "\<not> pos m < 0" using ps by (auto simp: kBarPos_def)
  have tr: "t = kScorePos \<or> (0 \<le> t \<and> t \<le> 23)"
    unfolding t_def using move_target_range[OF n ps] .
  have h: "t \<noteq> kScorePos \<Longrightarrow> hit m \<longleftrightarrow> board s ! nat (1 - p) ! nat t = 1"
          "t = kScorePos \<Longrightarrow> \<not> hit m"
    using assms(2) by (auto simp: playable_move_def Let_def p_def t_def pt_def)
  have tgt: "(if pos m = kBarPos then PositionFromBar p (num m) else PositionFrom p (pos m) (num m))
         = Some t" unfolding t_def using PositionFrom_target[OF p] .
  note cond = add_at_bump add_at2_bump bump2_nth
  show ?thesis
  proof (cases "pos m = kBarPos")
    case True
    then have tns: "t \<noteq> kScorePos" "0 \<le> t" "t \<le> 23"
      using n p by (auto simp: t_def move_target_def kScorePos_def)
    from True tgt have pfb: "PositionFromBar p (num m) = Some t" by simp
    show ?thesis
      unfolding ApplyCheckerMove_def apply_pure_def p_def[symmetric] Let_def t_def[symmetric]
      using True nneg pr sh rowlen n tns h(1)[OF tns(1)] pfb
      by (simp add: cond Opponent_def)
  next
    case False
    then have r: "0 \<le> pos m" "pos m \<le> 23" using ps by auto
    from False tgt have pf: "PositionFrom p (pos m) (num m) = Some t" by simp
    show ?thesis
    proof (cases "t = kScorePos")
      case True
      show ?thesis
        unfolding ApplyCheckerMove_def apply_pure_def p_def[symmetric] Let_def t_def[symmetric]
        using False True nneg pr sh rowlen n r h(2)[OF True] pf
        by (simp add: cond Opponent_def)
    next
      case F2: False
      then have tns: "0 \<le> t" "t \<le> 23" using tr by auto
      show ?thesis
        unfolding ApplyCheckerMove_def apply_pure_def p_def[symmetric] Let_def t_def[symmetric]
        using False F2 nneg pr sh rowlen n r tns h(1)[OF F2] pf
        by (simp add: cond Opponent_def)
    qed
  qed
qed

lemma apply_pure_fields [simp]:
  "cur_player (apply_pure s m) = cur_player s"
  "dice (apply_pure s m) = dice s"
  "hyper_backgammon (apply_pure s m) = hyper_backgammon s"
  "scoring_type (apply_pure s m) = scoring_type s"
  "prev_player (apply_pure s m) = prev_player s"
  "turns (apply_pure s m) = turns s"
  "remaining_dice (apply_pure s m) = bump (remaining_dice s) (num m - 1) (- 1)"
  by (simp_all add: apply_pure_def Let_def)

lemma apply_pure_bar:
  "bar (apply_pure s m) =
     (let b1 = (if pos m = kBarPos then bump (bar s) (cur_player s) (- 1) else bar s)
      in if hit m then bump b1 (1 - cur_player s) 1 else b1)"
  by (simp add: apply_pure_def Let_def)

lemma apply_pure_scores:
  "scores (apply_pure s m) =
     (if move_target (cur_player s) m = kScorePos then bump (scores s) (cur_player s) 1
      else scores s)"
  by (simp add: apply_pure_def Let_def)

lemma apply_pure_board:
  "board (apply_pure s m) =
     (let p = cur_player s; t = move_target p m;
          b1 = (if pos m = kBarPos then board s else bump2 (board s) p (pos m) (- 1));
          b2 = (if t = kScorePos then b1 else bump2 b1 p t 1)
      in if hit m then bump2 b2 (1 - p) t (- 1) else b2)"
  by (simp add: apply_pure_def Let_def)

lemma shape_ok_apply:
  assumes "shape_ok s"
  shows "shape_ok (apply_pure s m)"
  using assms
  by (auto simp: shape_ok_def apply_pure_bar apply_pure_scores apply_pure_board Let_def)

text \<open>Facts about a playable move in a well-shaped state, collected once.\<close>

lemma playable_facts:
  assumes "shape_ok s" "playable_move s m"
  defines "p \<equiv> cur_player s" and "t \<equiv> move_target (cur_player s) m"
  shows "p = 0 \<or> p = 1" "1 \<le> num m" "num m \<le> 6"
    "pos m = kBarPos \<or> (0 \<le> pos m \<and> pos m \<le> 23)"
    "pos m = kBarPos \<longrightarrow> 0 < bar s ! nat p"
    "pos m \<noteq> kBarPos \<longrightarrow> 0 < pt s p (pos m)"
    "t = kScorePos \<or> (0 \<le> t \<and> t \<le> 23)"
    "t = kScorePos \<longrightarrow> \<not> hit m"
    "t \<noteq> kScorePos \<longrightarrow> pt s (1 - p) t \<le> 1 \<and> (hit m \<longleftrightarrow> pt s (1 - p) t = 1)"
    "pos m = kBarPos \<longrightarrow> t \<noteq> kScorePos"
proof -
  show p: "p = 0 \<or> p = 1" using assms(1) by (simp add: shape_ok_def p_def)
  show n: "1 \<le> num m" "num m \<le> 6" using assms(2) by (simp_all add: playable_move_def)
  show ps: "pos m = kBarPos \<or> (0 \<le> pos m \<and> pos m \<le> 23)"
    using assms(2) by (auto simp add: playable_move_def)
  show "pos m = kBarPos \<longrightarrow> 0 < bar s ! nat p" "pos m \<noteq> kBarPos \<longrightarrow> 0 < pt s p (pos m)"
    using assms(2) by (auto simp add: playable_move_def p_def kBarPos_def)
  show "t = kScorePos \<or> (0 \<le> t \<and> t \<le> 23)"
    unfolding t_def using move_target_range[OF n ps] .
  show "t = kScorePos \<longrightarrow> \<not> hit m"
    "t \<noteq> kScorePos \<longrightarrow> pt s (1 - p) t \<le> 1 \<and> (hit m \<longleftrightarrow> pt s (1 - p) t = 1)"
    using assms(2) by (auto simp: playable_move_def Let_def p_def t_def)
  show "pos m = kBarPos \<longrightarrow> t \<noteq> kScorePos"
    using n p by (auto simp: t_def p_def move_target_def kScorePos_def)
qed

lemma bump2_row:
  "0 \<le> p \<Longrightarrow> 0 \<le> q \<Longrightarrow> nat p < length m \<Longrightarrow>
   bump2 m p i d ! nat q = (if q = p then bump (m ! nat p) i d else m ! nat q)"
  by (auto simp: bump2_def)

lemma row_apply_own:
  assumes "shape_ok s"
  shows "board (apply_pure s m) ! nat (cur_player s) =
     (let r1 = (if pos m = kBarPos then board s ! nat (cur_player s)
                else bump (board s ! nat (cur_player s)) (pos m) (- 1))
      in if move_target (cur_player s) m = kScorePos then r1
         else bump r1 (move_target (cur_player s) m) 1)"
proof -
  have p: "cur_player s = 0 \<or> cur_player s = 1" and l: "length (board s) = 2"
    using assms by (auto simp: shape_ok_def)
  then have r: "0 \<le> cur_player s" "0 \<le> 1 - cur_player s" "nat (cur_player s) < 2"
    "nat (1 - cur_player s) < 2" "cur_player s \<noteq> 1 - cur_player s" by auto
  show ?thesis
    using r l by (simp add: apply_pure_board Let_def bump2_row)
qed

lemma row_apply_opp:
  assumes "shape_ok s"
  shows "board (apply_pure s m) ! nat (1 - cur_player s) =
     (if hit m then bump (board s ! nat (1 - cur_player s)) (move_target (cur_player s) m) (- 1)
      else board s ! nat (1 - cur_player s))"
proof -
  have p: "cur_player s = 0 \<or> cur_player s = 1" and l: "length (board s) = 2"
    using assms by (auto simp: shape_ok_def)
  then have r: "0 \<le> cur_player s" "0 \<le> 1 - cur_player s" "nat (cur_player s) < 2"
    "nat (1 - cur_player s) < 2" "1 - cur_player s \<noteq> cur_player s" by auto
  show ?thesis
    using r l by (simp add: apply_pure_board Let_def bump2_row)
qed

lemma pt_apply_own:
  assumes "shape_ok s" "playable_move s m" "0 \<le> j" "j \<le> 23"
  shows "pt (apply_pure s m) (cur_player s) j = pt s (cur_player s) j
           + (if j = pos m then - 1 else 0)
           + (if j = move_target (cur_player s) m then 1 else 0)"
proof -
  note f = playable_facts[OF assms(1,2)]
  have l: "length (board s ! nat (cur_player s)) = 24"
    using assms(1) by (auto simp: shape_ok_def)
  have k: "j \<noteq> kBarPos" "j \<noteq> kScorePos" using assms(3,4) by (auto simp: kBarPos_def kScorePos_def)
  show ?thesis
  proof (cases "pos m = kBarPos")
    case True
    then have t: "move_target (cur_player s) m \<noteq> kScorePos" "0 \<le> move_target (cur_player s) m"
       "move_target (cur_player s) m \<le> 23" using f(7,10) by auto
    show ?thesis using True t l k assms(3,4)
      by (simp add: pt_def row_apply_own[OF assms(1)] Let_def bump_nth)
  next
    case False
    then have r: "0 \<le> pos m" "pos m \<le> 23" using f(4) by auto
    show ?thesis
    proof (cases "move_target (cur_player s) m = kScorePos")
      case True
      then show ?thesis using False r l k assms(3,4)
        by (simp add: pt_def row_apply_own[OF assms(1)] Let_def bump_nth)
    next
      case F2: False
      then have t: "0 \<le> move_target (cur_player s) m" "move_target (cur_player s) m \<le> 23"
        using f(7) by auto
      show ?thesis using False F2 r t l k assms(3,4)
        by (simp add: pt_def row_apply_own[OF assms(1)] Let_def bump_nth)
    qed
  qed
qed

lemma pt_apply_opp:
  assumes "shape_ok s" "playable_move s m" "0 \<le> j" "j \<le> 23"
  shows "pt (apply_pure s m) (1 - cur_player s) j = pt s (1 - cur_player s) j
           + (if hit m \<and> j = move_target (cur_player s) m then - 1 else 0)"
proof -
  note f = playable_facts[OF assms(1,2)]
  have l: "length (board s ! nat (1 - cur_player s)) = 24"
    using assms(1) by (auto simp: shape_ok_def)
  show ?thesis
  proof (cases "hit m")
    case True
    then have t: "0 \<le> move_target (cur_player s) m" "move_target (cur_player s) m \<le> 23"
      using f(7,8) by auto
    show ?thesis using True t l assms(3,4)
      by (simp add: pt_def row_apply_opp[OF assms(1)] bump_nth)
  next
    case False
    then show ?thesis by (simp add: pt_def row_apply_opp[OF assms(1)])
  qed
qed

lemma sum_list_bump:
  "0 \<le> i \<Longrightarrow> nat i < length xs \<Longrightarrow> sum_list (bump xs i d) = sum_list xs + d"
  by (simp add: bump_def sum_list_update_int)

lemma total_apply_own:
  assumes "shape_ok s" "playable_move s m"
  shows "total_checkers (apply_pure s m) (cur_player s) = total_checkers s (cur_player s)"
proof -
  note f = playable_facts[OF assms(1,2)]
  have l: "length (board s ! nat (cur_player s)) = 24" "length (bar s) = 2" "length (scores s) = 2"
    using assms(1) by (auto simp: shape_ok_def)
  have r: "0 \<le> cur_player s" "0 \<le> 1 - cur_player s" "nat (cur_player s) < 2"
    "nat (1 - cur_player s) < 2" "cur_player s \<noteq> 1 - cur_player s" using f(1) by auto
  show ?thesis
  proof (cases "pos m = kBarPos")
    case True
    then have t: "move_target (cur_player s) m \<noteq> kScorePos" "0 \<le> move_target (cur_player s) m"
       "move_target (cur_player s) m \<le> 23" using f(7,10) by auto
    show ?thesis using True t l r
      by (simp add: total_checkers_def row_apply_own[OF assms(1)] Let_def apply_pure_bar
            apply_pure_scores sum_list_bump bump_nth)
  next
    case False
    then have ps: "0 \<le> pos m" "pos m \<le> 23" using f(4) by auto
    show ?thesis
    proof (cases "move_target (cur_player s) m = kScorePos")
      case True
      then show ?thesis using False ps l r
        by (simp add: total_checkers_def row_apply_own[OF assms(1)] Let_def apply_pure_bar
            apply_pure_scores sum_list_bump bump_nth)
    next
      case F2: False
      then have t: "0 \<le> move_target (cur_player s) m" "move_target (cur_player s) m \<le> 23"
        using f(7) by auto
      show ?thesis using False F2 ps t l r
        by (simp add: total_checkers_def row_apply_own[OF assms(1)] Let_def apply_pure_bar
            apply_pure_scores sum_list_bump bump_nth)
    qed
  qed
qed

lemma total_apply_opp:
  assumes "shape_ok s" "playable_move s m"
  shows "total_checkers (apply_pure s m) (1 - cur_player s) = total_checkers s (1 - cur_player s)"
proof -
  note f = playable_facts[OF assms(1,2)]
  have l: "length (board s ! nat (1 - cur_player s)) = 24" "length (bar s) = 2" "length (scores s) = 2"
    using assms(1) by (auto simp: shape_ok_def)
  have r: "0 \<le> cur_player s" "0 \<le> 1 - cur_player s" "nat (cur_player s) < 2"
    "nat (1 - cur_player s) < 2" "cur_player s \<noteq> 1 - cur_player s" "1 - cur_player s \<noteq> cur_player s"
    using f(1) by auto
  show ?thesis
  proof (cases "hit m")
    case True
    then have t: "0 \<le> move_target (cur_player s) m" "move_target (cur_player s) m \<le> 23"
      "move_target (cur_player s) m \<noteq> kScorePos"
      using f(7,8) by auto
    show ?thesis using True t l r
      by (simp add: total_checkers_def row_apply_opp[OF assms(1)] Let_def apply_pure_bar
            apply_pure_scores sum_list_bump bump_nth)
  next
    case False
    then show ?thesis using l r
      by (simp add: total_checkers_def row_apply_opp[OF assms(1)] Let_def apply_pure_bar
            apply_pure_scores sum_list_bump bump_nth)
  qed
qed

lemma valid_state_alt:
  "valid_state s \<longleftrightarrow> shape_ok s \<and> side_ok s (cur_player s) \<and> side_ok s (1 - cur_player s)
     \<and> (\<forall>i. 0 \<le> i \<and> i \<le> 23 \<longrightarrow>
            \<not> (0 < pt s (cur_player s) i \<and> 0 < pt s (1 - cur_player s) i))"
proof (cases "shape_ok s")
  case False
  then show ?thesis by (simp add: valid_state_def)
next
  case True
  then have "cur_player s = 0 \<or> cur_player s = 1" by (simp add: shape_ok_def)
  then show ?thesis
  proof
    assume "cur_player s = 0"
    then show ?thesis using True by (auto simp: valid_state_def side_ok_def)
  next
    assume "cur_player s = 1"
    then show ?thesis using True by (auto simp: valid_state_def side_ok_def)
  qed
qed

lemma bar_apply_own:
  assumes "shape_ok s" "playable_move s m"
  shows "bar (apply_pure s m) ! nat (cur_player s)
         = bar s ! nat (cur_player s) + (if pos m = kBarPos then - 1 else 0)"
proof -
  note f = playable_facts[OF assms(1,2)]
  have l: "length (bar s) = 2" using assms(1) by (auto simp: shape_ok_def)
  have r: "0 \<le> cur_player s" "0 \<le> 1 - cur_player s" "nat (cur_player s) < 2"
    "nat (1 - cur_player s) < 2" "cur_player s \<noteq> 1 - cur_player s" using f(1) by auto
  show ?thesis using l r by (simp add: apply_pure_bar Let_def bump_nth)
qed

lemma bar_apply_opp:
  assumes "shape_ok s" "playable_move s m"
  shows "bar (apply_pure s m) ! nat (1 - cur_player s)
         = bar s ! nat (1 - cur_player s) + (if hit m then 1 else 0)"
proof -
  note f = playable_facts[OF assms(1,2)]
  have l: "length (bar s) = 2" using assms(1) by (auto simp: shape_ok_def)
  have r: "0 \<le> cur_player s" "0 \<le> 1 - cur_player s" "nat (cur_player s) < 2"
    "nat (1 - cur_player s) < 2" "1 - cur_player s \<noteq> cur_player s" using f(1) by auto
  show ?thesis using l r by (simp add: apply_pure_bar Let_def bump_nth)
qed

lemma scores_apply_own:
  assumes "shape_ok s" "playable_move s m"
  shows "scores (apply_pure s m) ! nat (cur_player s)
         = scores s ! nat (cur_player s) + (if move_target (cur_player s) m = kScorePos then 1 else 0)"
proof -
  note f = playable_facts[OF assms(1,2)]
  have l: "length (scores s) = 2" using assms(1) by (auto simp: shape_ok_def)
  have r: "0 \<le> cur_player s" "nat (cur_player s) < 2" using f(1) by auto
  show ?thesis using l r by (simp add: apply_pure_scores bump_nth)
qed

lemma scores_apply_opp:
  assumes "shape_ok s" "playable_move s m"
  shows "scores (apply_pure s m) ! nat (1 - cur_player s) = scores s ! nat (1 - cur_player s)"
proof -
  note f = playable_facts[OF assms(1,2)]
  have l: "length (scores s) = 2" using assms(1) by (auto simp: shape_ok_def)
  have r: "0 \<le> cur_player s" "0 \<le> 1 - cur_player s" "nat (cur_player s) < 2"
    "nat (1 - cur_player s) < 2" "1 - cur_player s \<noteq> cur_player s" using f(1) by auto
  show ?thesis using l r by (simp add: apply_pure_scores bump_nth)
qed

lemma valid_apply:
  assumes "valid_state s" "playable_move s m"
  shows "valid_state (apply_pure s m)"
proof -
  have sh: "shape_ok s" using assms(1) by (simp add: valid_state_def)
  note v = assms(1)[unfolded valid_state_alt]
  note f = playable_facts[OF sh assms(2)]
  let ?p = "cur_player s"
  let ?t = "move_target ?p m"
  have own: "side_ok (apply_pure s m) ?p"
    unfolding side_ok_def
  proof (intro conjI allI impI)
    show "0 \<le> bar (apply_pure s m) ! nat ?p"
      using v f(5) by (simp add: bar_apply_own[OF sh assms(2)] side_ok_def)
    show "0 \<le> scores (apply_pure s m) ! nat ?p"
      using v by (simp add: scores_apply_own[OF sh assms(2)] side_ok_def)
    show "total_checkers (apply_pure s m) ?p = NumCheckersPerPlayer (hyper_backgammon (apply_pure s m))"
      using v by (simp add: total_apply_own[OF sh assms(2)] side_ok_def)
    fix i :: int assume i: "0 \<le> i \<and> i \<le> 23"
    then have "0 \<le> pt s ?p i" using v by (simp add: side_ok_def)
    moreover have "i = pos m \<longrightarrow> 0 < pt s ?p i" using f(6) i by (auto simp: kBarPos_def)
    ultimately show "0 \<le> pt (apply_pure s m) ?p i"
      using i by (simp add: pt_apply_own[OF sh assms(2)])
  qed
  have opp: "side_ok (apply_pure s m) (1 - ?p)"
    unfolding side_ok_def
  proof (intro conjI allI impI)
    show "0 \<le> bar (apply_pure s m) ! nat (1 - ?p)"
      using v by (simp add: bar_apply_opp[OF sh assms(2)] side_ok_def)
    show "0 \<le> scores (apply_pure s m) ! nat (1 - ?p)"
      using v by (simp add: scores_apply_opp[OF sh assms(2)] side_ok_def)
    show "total_checkers (apply_pure s m) (1 - ?p) = NumCheckersPerPlayer (hyper_backgammon (apply_pure s m))"
      using v by (simp add: total_apply_opp[OF sh assms(2)] side_ok_def)
    fix i :: int assume i: "0 \<le> i \<and> i \<le> 23"
    then have "0 \<le> pt s (1 - ?p) i" using v by (simp add: side_ok_def)
    moreover have "hit m \<and> i = ?t \<longrightarrow> pt s (1 - ?p) i = 1" using f(8,9) by auto
    ultimately show "0 \<le> pt (apply_pure s m) (1 - ?p) i"
      using i by (simp add: pt_apply_opp[OF sh assms(2)])
  qed
  have ns: "\<forall>i. 0 \<le> i \<and> i \<le> 23 \<longrightarrow>
            \<not> (0 < pt (apply_pure s m) ?p i \<and> 0 < pt (apply_pure s m) (1 - ?p) i)"
  proof (intro allI impI)
    fix i :: int assume i: "0 \<le> i \<and> i \<le> 23"
    have a: "\<not> (0 < pt s ?p i \<and> 0 < pt s (1 - ?p) i)" using v i by simp
    have b: "0 \<le> pt s ?p i" "0 \<le> pt s (1 - ?p) i" using v i by (simp_all add: side_ok_def)
    have c: "i = ?t \<longrightarrow> pt s (1 - ?p) i \<le> 1 \<and> (hit m \<longleftrightarrow> pt s (1 - ?p) i = 1)"
      using f(9) i by (auto simp: kScorePos_def)
    show "\<not> (0 < pt (apply_pure s m) ?p i \<and> 0 < pt (apply_pure s m) (1 - ?p) i)"
      using a b c i
      by (auto simp add: pt_apply_own[OF sh assms(2)] pt_apply_opp[OF sh assms(2)] split: if_splits)
  qed
  show ?thesis
    unfolding valid_state_alt
    using shape_ok_apply[OF sh] own opp ns by simp
qed

lemma bump_bump [simp]: "bump (bump xs i d) i e = bump xs i (d + e)"
  by (cases "nat i < length xs") (simp_all add: bump_def list_update_beyond add.assoc)

lemma bump_zero [simp]: "bump xs i 0 = xs"
  by (simp add: bump_def)

lemma bump2_bump2 [simp]: "bump2 (bump2 m p i d) p i e = bump2 m p i (d + e)"
  by (cases "nat p < length m") (simp_all add: bump2_def list_update_beyond)

lemma bump2_zero [simp]: "bump2 m p i 0 = m"
  by (simp add: bump2_def)

lemma undo_apply:
  assumes "shape_ok s" "playable_move s m"
  shows "UndoCheckerMove (apply_pure s m) m = Some s"
proof -
  let ?p = "cur_player s"
  let ?t = "move_target ?p m"
  note f = playable_facts[OF assms(1,2)]
  have pr: "0 \<le> ?p" "?p < 2" "0 \<le> 1 - ?p" "1 - ?p < 2" "1 - ?p \<noteq> ?p" using f(1) by auto
  have sh: "length (bar s) = 2" "length (scores s) = 2" "length (board s) = 2"
     "length (remaining_dice s) = 6"
    using assms(1) by (simp_all add: shape_ok_def)
  have rowlen: "length (board s ! nat ?p) = 24" "length (board s ! nat (1 - ?p)) = 24"
    using assms(1) f(1) by (auto simp: shape_ok_def)
  have nneg: "\<not> pos m < 0" using f(4) by (auto simp: kBarPos_def)
  have tgt: "(if pos m = kBarPos then PositionFromBar ?p (num m) else PositionFrom ?p (pos m) (num m))
         = Some ?t" using PositionFrom_target[OF f(1)] .
  note cond = add_at_bump add_at2_bump
  show ?thesis
  proof (cases "pos m = kBarPos")
    case True
    then have tns: "?t \<noteq> kScorePos" "0 \<le> ?t" "?t \<le> 23" using f(7,10) by auto
    from True tgt have pfb: "PositionFromBar ?p (num m) = Some ?t" by simp
    show ?thesis
      unfolding UndoCheckerMove_def apply_pure_def Let_def
      using True nneg pr sh rowlen f(2,3) tns pfb
      by (simp add: cond Opponent_def)
  next
    case False
    then have r: "0 \<le> pos m" "pos m \<le> 23" using f(4) by auto
    from False tgt have pf: "PositionFrom ?p (pos m) (num m) = Some ?t" by simp
    show ?thesis
    proof (cases "?t = kScorePos")
      case True
      then have nh: "\<not> hit m" using f(8) by simp
      show ?thesis
        unfolding UndoCheckerMove_def apply_pure_def Let_def
        using False True nneg pr sh rowlen f(2,3) r nh pf
        by (simp add: cond Opponent_def)
    next
      case F2: False
      then have tns: "0 \<le> ?t" "?t \<le> 23" using f(7) by auto
      show ?thesis
        unfolding UndoCheckerMove_def apply_pure_def Let_def
        using False F2 nneg pr sh rowlen f(2,3) r tns pf
        by (simp add: cond Opponent_def)
    qed
  qed
qed

subsection \<open>Backgammon: single checker moves and the depth-first search\<close>

lemma set_set_insert: "set (set_insert lt x xs) \<subseteq> insert x (set xs)"
  by (induction xs) auto

lemma set_insert_keeps: "set xs \<subseteq> set (set_insert lt x xs)"
  by (induction xs) auto

lemma set_insert_nonempty [simp]: "set_insert lt x xs \<noteq> []"
  by (cases xs) auto

lemma first_checker_Some:
  assumes "0 \<le> p" "nat p < length bd" "\<forall>i \<in> set pts. 0 \<le> i \<and> nat i < length (bd ! nat p)"
  shows "\<exists>f. first_checker bd p pts = Some f"
  using assms(3) by (induction pts) (use assms(1,2) in \<open>auto simp: nth_chk2_Some\<close>)

lemma scan_any_checker_Some:
  assumes "0 \<le> p" "nat p < length bd" "\<forall>i \<in> set pts. 0 \<le> i \<and> nat i < length (bd ! nat p)"
  shows "\<exists>f. scan_any_checker bd p pts = Some f"
  using assms(3) by (induction pts) (use assms(1,2) in \<open>auto simp: nth_chk2_Some\<close>)

lemma shape_rows:
  assumes "shape_ok s" "q = 0 \<or> q = 1"
  shows "0 \<le> q" "nat q < length (board s)" "length (board s ! nat q) = 24" "nat q < length (bar s)"
    "nat q < length (scores s)" "q < 2"
  using assms by (auto simp: shape_ok_def)

lemma FurthestCheckerInHome_Some:
  assumes "shape_ok s" "q = 0 \<or> q = 1"
  shows "\<exists>f. FurthestCheckerInHome s q = Some f"
  unfolding FurthestCheckerInHome_def
  by (rule first_checker_Some) (use shape_rows[OF assms] in auto)

lemma AllInHome_Some:
  assumes "shape_ok s" "q = 0 \<or> q = 1"
  shows "\<exists>f. AllInHome s q = Some f"
proof -
  have "\<exists>f. scan_any_checker (board s) q (if q = kXPlayerId then [0..17] else [6..23]) = Some f"
    by (rule scan_any_checker_Some) (use shape_rows[OF assms] in auto)
  then show ?thesis
    using shape_rows[OF assms] assms(2) by (auto simp: AllInHome_def)
qed

lemma scm_loop_ok:
  assumes sh: "shape_ok s" and die: "1 \<le> die" "die \<le> 6"
    and pts: "\<forall>i \<in> set pts. 0 \<le> i \<and> i \<le> 23"
    and acc: "\<forall>m \<in> set acc. die_move_ok s die m"
  shows "\<exists>ms. SingleCheckerMoves_loop s die b (cur_player s) aih pts acc = Some ms
           \<and> (\<forall>m \<in> set ms. die_move_ok s die m) \<and> (acc \<noteq> [] \<longrightarrow> ms \<noteq> [])"
  using pts acc
proof (induction pts arbitrary: acc)
  case Nil
  then show ?case by simp
next
  case (Cons i pts)
  let ?p = "cur_player s"
  have p: "?p = 0 \<or> ?p = 1" using sh by (simp add: shape_ok_def)
  have o: "1 - ?p = 0 \<or> 1 - ?p = 1" using p by auto
  have i: "0 \<le> i" "i \<le> 23" using Cons.prems(1) by auto
  have nb: "i \<noteq> kBarPos" using i by (simp add: kBarPos_def)
  have r1: "nth_chk2 (board s) ?p i = Some (pt s ?p i)"
    using shape_rows[OF sh p] i by (simp add: nth_chk2_Some pt_def)
  define t where "t = move_target ?p \<lparr>pos = i, num = die, hit = False\<rparr>"
  have r2: "PositionFrom ?p i die = Some t"
    using PositionFrom_target[OF p, of "\<lparr>pos = i, num = die, hit = False\<rparr>"] nb
    by (simp add: t_def)
  have tr: "t = kScorePos \<or> (0 \<le> t \<and> t \<le> 23)"
    unfolding t_def by (rule move_target_range) (use die i in auto)
  obtain f where r3: "FurthestCheckerInHome s ?p = Some f"
    using FurthestCheckerInHome_Some[OF sh p] by blast
  have r4: "t \<noteq> kScorePos \<Longrightarrow> NumOppCheckers s ?p t = Some (pt s (1 - ?p) t)"
    using shape_rows[OF sh o] tr by (simp add: NumOppCheckers_def Opponent_def nth_chk2_Some pt_def)
  have tt: "\<And>h. move_target ?p \<lparr>pos = i, num = die, hit = h\<rparr> = t"
    by (simp add: t_def move_target_def)
  have rest: "\<forall>i \<in> set pts. 0 \<le> i \<and> i \<le> 23" using Cons.prems(1) by simp
  have off: "0 < pt s ?p i \<Longrightarrow> t = kScorePos \<Longrightarrow>
      die_move_ok s die \<lparr>pos = i, num = die, hit = False\<rparr>"
    using die i tt[of False] by (simp add: die_move_ok_def playable_move_def Let_def)
  have reg: "0 < pt s ?p i \<Longrightarrow> t \<noteq> kScorePos \<Longrightarrow> pt s (1 - ?p) t \<le> 1 \<Longrightarrow>
      die_move_ok s die \<lparr>pos = i, num = die, hit = (pt s (1 - ?p) t = 1)\<rparr>"
    using die i tt[of "pt s (1 - ?p) t = 1"] by (simp add: die_move_ok_def playable_move_def Let_def)
  have ins: "\<And>x. die_move_ok s die x \<Longrightarrow>
      \<exists>ms. (if b then Some (set_insert cm_less x acc)
            else SingleCheckerMoves_loop s die b ?p aih pts (set_insert cm_less x acc)) = Some ms
         \<and> (\<forall>m \<in> set ms. die_move_ok s die m) \<and> ms \<noteq> []"
  proof -
    fix x assume x: "die_move_ok s die x"
    have a: "\<forall>m \<in> set (set_insert cm_less x acc). die_move_ok s die m"
      using x Cons.prems(2) set_set_insert[of cm_less x acc] by auto
    show "\<exists>ms. (if b then Some (set_insert cm_less x acc)
            else SingleCheckerMoves_loop s die b ?p aih pts (set_insert cm_less x acc)) = Some ms
         \<and> (\<forall>m \<in> set ms. die_move_ok s die m) \<and> ms \<noteq> []"
      using Cons.IH[OF rest a] a by (cases b) auto
  qed
  note skip = Cons.IH[OF rest Cons.prems(2)]
  show ?case
  proof (cases "0 < pt s ?p i")
    case False
    then show ?thesis using skip r1 by simp
  next
    case True
    show ?thesis
    proof (cases "t = kScorePos")
      case T2: True
      show ?thesis
        using True T2 r1 r2 r3 skip ins[OF off[OF True T2]]
        by (auto simp: Let_def)
    next
      case F2: False
      show ?thesis
      proof (cases "pt s (1 - ?p) t \<le> 1")
        case T3: True
        show ?thesis
          using True F2 T3 r1 r2 r4[OF F2] ins[OF reg[OF True F2 T3]]
          by (auto simp: Let_def)
      next
        case F3: False
        show ?thesis
          using True F2 F3 r1 r2 r4[OF F2] skip
          by (auto simp: Let_def)
      qed
    qed
  qed
qed

lemma scm_loop_nonempty:
  "SingleCheckerMoves_loop s die b p aih pts acc = Some r \<Longrightarrow> acc \<noteq> [] \<Longrightarrow> r \<noteq> []"
proof (induction pts arbitrary: acc r p aih b)
  case Nil
  then show ?case by simp
next
  case (Cons i pts)
  show ?case
    using Cons.prems
    by (auto simp: Let_def split: Option.bind_splits if_splits
          dest: Cons.IH[OF _ set_insert_nonempty] Cons.IH[OF _ Cons.prems(2)])
qed

lemma scm_loop_first_only:
  "SingleCheckerMoves_loop s die True p aih pts acc = Some r1 \<Longrightarrow>
   SingleCheckerMoves_loop s die False p aih pts acc = Some r2 \<Longrightarrow>
   (r1 = [] \<longleftrightarrow> r2 = [])"
proof (induction pts arbitrary: acc r1 r2 p aih)
  case Nil
  then show ?case by simp
next
  case (Cons i pts)
  show ?case
    using Cons.prems
    by (auto simp: Let_def split: Option.bind_splits if_splits
          dest: scm_loop_nonempty[OF _ set_insert_nonempty] Cons.IH)
qed

lemma scm_first_only:
  "SingleCheckerMoves s die True = Some r1 \<Longrightarrow> SingleCheckerMoves s die False = Some r2 \<Longrightarrow>
   (r1 = [] \<longleftrightarrow> r2 = [])"
  unfolding SingleCheckerMoves_def Let_def
  by (auto split: Option.bind_splits if_splits dest: scm_loop_first_only)

lemma scm_ok:
  assumes sh: "shape_ok s" and die: "1 \<le> die" "die \<le> 6"
  shows "\<exists>ms. SingleCheckerMoves s die b = Some ms \<and> (\<forall>m \<in> set ms. die_move_ok s die m)"
proof -
  let ?p = "cur_player s"
  have p: "?p = 0 \<or> ?p = 1" using sh by (simp add: shape_ok_def)
  have o: "1 - ?p = 0 \<or> 1 - ?p = 1" using p by auto
  have rb: "nth_chk (bar s) ?p = Some (bar s ! nat ?p)"
    using shape_rows[OF sh p] by simp
  show ?thesis
  proof (cases "0 < bar s ! nat ?p")
    case True
    define m0 where "m0 = \<lparr>pos = kBarPos, num = die, hit = False\<rparr>"
    define t where "t = move_target ?p m0"
    have r2: "PositionFromBar ?p die = Some t"
      using PositionFrom_target[OF p, of m0] by (simp add: t_def m0_def)
    have tr: "0 \<le> t" "t \<le> 23" "t \<noteq> kScorePos"
      using die p by (auto simp: t_def m0_def move_target_def kScorePos_def)
    have r4: "NumOppCheckers s ?p t = Some (pt s (1 - ?p) t)"
      using shape_rows[OF sh o] tr by (simp add: NumOppCheckers_def Opponent_def nth_chk2_Some pt_def)
    have tt: "\<And>h. move_target ?p \<lparr>pos = kBarPos, num = die, hit = h\<rparr> = t"
      by (simp add: t_def m0_def move_target_def)
    have ok: "pt s (1 - ?p) t \<le> 1 \<Longrightarrow>
        die_move_ok s die \<lparr>pos = kBarPos, num = die, hit = (pt s (1 - ?p) t = 1)\<rparr>"
      using die True tr tt[of "pt s (1 - ?p) t = 1"]
      by (simp add: die_move_ok_def playable_move_def Let_def)
    show ?thesis
      using True rb r2 r4 ok by (simp add: SingleCheckerMoves_def Let_def)
  next
    case False
    obtain aih where a: "AllInHome s ?p = Some aih" using AllInHome_Some[OF sh p] by blast
    have pts: "\<forall>i \<in> set [0..23]. 0 \<le> i \<and> i \<le> (23::int)" by simp
    have "\<exists>ms. SingleCheckerMoves_loop s die b ?p aih [0..23] [] = Some ms
           \<and> (\<forall>m \<in> set ms. die_move_ok s die m)"
      using scm_loop_ok[OF sh die pts, where acc="[]" and b=b and aih=aih] by auto
    then show ?thesis
      using False rb a by (simp add: SingleCheckerMoves_def Let_def)
  qed
qed

lemma scm_loop_cong:
  assumes "same_position s s'"
  shows "SingleCheckerMoves_loop s die b p aih pts acc
       = SingleCheckerMoves_loop s' die b p aih pts acc"
proof -
  have b: "board s = board s'" using assms by (simp add: same_position_def)
  have a: "FurthestCheckerInHome s = FurthestCheckerInHome s'"
    by (rule ext) (unfold FurthestCheckerInHome_def b, rule refl)
  have n: "NumOppCheckers s = NumOppCheckers s'"
    by (rule ext)+ (unfold NumOppCheckers_def b, rule refl)
  note e = b a n
  show ?thesis
  proof (induction pts arbitrary: acc)
    case Nil
    show ?case by simp
  next
    case (Cons i pts)
    show ?case
      unfolding SingleCheckerMoves_loop.simps Cons.IH e ..
  qed
qed

lemma scm_cong:
  assumes "same_position s s'"
  shows "SingleCheckerMoves s die b = SingleCheckerMoves s' die b"
proof -
  have b: "board s = board s'" "bar s = bar s'" "cur_player s = cur_player s'"
    using assms by (simp_all add: same_position_def)
  have a: "AllInHome s = AllInHome s'"
    by (rule ext) (unfold AllInHome_def b, rule refl)
  have n: "NumOppCheckers s = NumOppCheckers s'"
    by (rule ext)+ (unfold NumOppCheckers_def b, rule refl)
  note e = b(3) b(2) a n
  show ?thesis
    unfolding SingleCheckerMoves_def e scm_loop_cong[OF assms] ..
qed

lemma playable_cong:
  assumes "same_position s s'"
  shows "playable_move s m = playable_move s' m"
proof -
  have b: "board s = board s'" "bar s = bar s'" "cur_player s = cur_player s'"
    using assms by (simp_all add: same_position_def)
  show ?thesis unfolding playable_move_def pt_def b ..
qed

lemma same_position_apply:
  assumes "same_position s s'"
  shows "same_position (apply_pure s m) (apply_pure s' m)"
proof -
  have b: "board s = board s'" "bar s = bar s'" "cur_player s = cur_player s'"
    using assms by (simp_all add: same_position_def)
  show ?thesis
    unfolding same_position_def apply_pure_bar apply_pure_board apply_pure_fields b by simp
qed

lemma max_playable_bounds: "0 \<le> max_playable s ds \<and> max_playable s ds \<le> int (length ds)"
proof (induction ds arbitrary: s)
  case Nil
  show ?case by simp
next
  case (Cons d ds)
  show ?case
  proof (cases "SingleCheckerMoves s d False")
    case None
    then show ?thesis by simp
  next
    case (Some ms)
    show ?thesis
    proof (cases "ms = []")
      case True
      then show ?thesis using Some by simp
    next
      case False
      let ?S = "(\<lambda>m. max_playable (apply_pure s m) ds) ` set ms"
      have fin: "finite ?S" "?S \<noteq> {}" using False by auto
      have "\<forall>x \<in> ?S. 0 \<le> x \<and> x \<le> int (length ds)" using Cons.IH by auto
      then have "0 \<le> Max ?S \<and> Max ?S \<le> int (length ds)"
        using fin by (meson Max_in)
      then show ?thesis using Some False by simp
    qed
  qed
qed

lemma nmp_moves:
  assumes v: "valid_state s"
    and child: "\<And>st. valid_state st \<Longrightarrow> child st = Some (val st, st)"
    and bnd: "\<And>st. val st \<le> int sz"
    and ms: "\<forall>m \<in> set ms. playable_move s m"
    and cm: "cm \<le> int sz"
  shows "NumMaxPlayableDies_moves child sz ms s cm
       = Some (1 + Max (insert cm ((\<lambda>m. val (apply_pure s m)) ` set ms)), s)"
  using ms cm
proof (induction ms arbitrary: cm)
  case Nil
  then show ?case by simp
next
  case (Cons m ms)
  have sh: "shape_ok s" using v by (simp add: valid_state_def)
  have pm: "playable_move s m" using Cons.prems(1) by simp
  have a: "ApplyCheckerMove s m = Some (hit m, apply_pure s m)" by (rule apply_eq[OF sh pm])
  have c: "child (apply_pure s m) = Some (val (apply_pure s m), apply_pure s m)"
    by (rule child[OF valid_apply[OF v pm]])
  have u: "UndoCheckerMove (apply_pure s m) m = Some s" by (rule undo_apply[OF sh pm])
  let ?x = "val (apply_pure s m)"
  let ?S = "(\<lambda>m. val (apply_pure s m)) ` set ms"
  have fin: "finite ?S" by simp
  show ?case
  proof (cases "?x = int sz")
    case True
    have "\<forall>y \<in> insert cm (insert ?x ?S). y \<le> int sz" using bnd Cons.prems(2) by auto
    then have "Max (insert cm (insert ?x ?S)) \<le> int sz" using fin by (subst Max_le_iff) auto
    moreover have "?x \<le> Max (insert cm (insert ?x ?S))" using fin by (intro Max_ge) auto
    ultimately have "Max (insert cm (insert ?x ?S)) = int sz" using True by linarith
    then show ?thesis using a c u True by simp
  next
    case False
    have m: "max cm ?x \<le> int sz" using bnd Cons.prems(2) by simp
    have rest: "\<forall>m \<in> set ms. playable_move s m" using Cons.prems(1) by simp
    have e: "Max (insert (max cm ?x) ?S) = Max (insert cm (insert ?x ?S))"
    proof (cases "?S = {}")
      case True
      then show ?thesis by (simp add: max.commute)
    next
      case F: False
      show ?thesis using fin F by (simp add: max.assoc)
    qed
    show ?thesis using a c u False Cons.IH[OF rest m] e by simp
  qed
qed

lemma nmp_eq:
  assumes "valid_state s" "\<forall>d \<in> set ds. 1 \<le> d \<and> d \<le> 6"
  shows "NumMaxPlayableDies s ds = Some (max_playable s (rev ds), s)"
  using assms
proof (induction ds arbitrary: s rule: rev_induct)
  case Nil
  then show ?case by (simp add: NumMaxPlayableDies.simps)
next
  case (snoc die rest)
  have sh: "shape_ok s" using snoc.prems(1) by (simp add: valid_state_def)
  have d: "1 \<le> die" "die \<le> 6" using snoc.prems(2) by auto
  obtain ms where ms: "SingleCheckerMoves s die False = Some ms"
    and ok: "\<forall>m \<in> set ms. die_move_ok s die m"
    using scm_ok[OF sh d] by blast
  have pm: "\<forall>m \<in> set ms. playable_move s m" using ok by (simp add: die_move_ok_def)
  have rest: "\<forall>d \<in> set rest. 1 \<le> d \<and> d \<le> 6" using snoc.prems(2) by simp
  have child: "\<And>st. valid_state st \<Longrightarrow>
      NumMaxPlayableDies st rest = Some (max_playable st (rev rest), st)"
    using snoc.IH rest by blast
  have bnd: "\<And>st. max_playable st (rev rest) \<le> int (length rest)"
    using max_playable_bounds[of _ "rev rest"] by simp
  have loop: "NumMaxPlayableDies_moves (\<lambda>st'. NumMaxPlayableDies st' rest) (length rest) ms s (- 1)
       = Some (1 + Max (insert (- 1) ((\<lambda>m. max_playable (apply_pure s m) (rev rest)) ` set ms)), s)"
    by (rule nmp_moves[OF snoc.prems(1) child bnd pm]) simp_all
  let ?S = "(\<lambda>m. max_playable (apply_pure s m) (rev rest)) ` set ms"
  have mx: "1 + Max (insert (- 1) ?S) = max_playable s (die # rev rest)"
  proof (cases "ms = []")
    case True
    then show ?thesis using ms by simp
  next
    case False
    then have ne: "?S \<noteq> {}" "finite ?S" by auto
    have "\<forall>x \<in> ?S. 0 \<le> x" using max_playable_bounds by auto
    then have "0 \<le> Max ?S" using ne by (meson Max_in)
    then have "Max (insert (- 1) ?S) = Max ?S" using ne by simp
    then show ?thesis using ms False by simp
  qed
  show ?case
    by (subst NumMaxPlayableDies.simps) (simp add: ms loop mx)
qed

subsection \<open>Backgammon: the legal level and the legal single moves\<close>

lemma max_playable_cong:
  "same_position s s' \<Longrightarrow> max_playable s ds = max_playable s' ds"
proof (induction ds arbitrary: s s')
  case Nil
  show ?case by simp
next
  case (Cons d ds)
  have e: "SingleCheckerMoves s d False = SingleCheckerMoves s' d False"
    by (rule scm_cong[OF Cons.prems])
  have h: "(\<lambda>m. max_playable (apply_pure s m) ds) = (\<lambda>m. max_playable (apply_pure s' m) ds)"
    by (rule ext) (rule Cons.IH[OF same_position_apply[OF Cons.prems]])
  show ?case unfolding max_playable.simps e h ..
qed

lemma dice_ok_facts:
  assumes "dice_ok s"
  shows "dice s \<noteq> []" "nth_chk (dice s) 0 = Some (dice s ! 0)" "nth_chk (dice s) 1 = Some (dice s ! 1)"
    "1 \<le> hi_die s" "hi_die s \<le> 6" "1 \<le> lo_die s" "lo_die s \<le> 6" "lo_die s \<le> hi_die s"
    "dice s = [dice s ! 0, dice s ! 1]" "1 \<le> dice s ! 0" "dice s ! 0 \<le> 6" "1 \<le> dice s ! 1" "dice s ! 1 \<le> 6"
proof -
  obtain a b where ab: "dice s = [a, b]" using assms
    by (cases "dice s"; cases "tl (dice s)") (auto simp: dice_ok_def)
  then have r: "1 \<le> a" "a \<le> 6" "1 \<le> b" "b \<le> 6" using assms by (auto simp: dice_ok_def)
  show "dice s \<noteq> []" "nth_chk (dice s) 0 = Some (dice s ! 0)" "nth_chk (dice s) 1 = Some (dice s ! 1)"
    "1 \<le> hi_die s" "hi_die s \<le> 6" "1 \<le> lo_die s" "lo_die s \<le> 6" "lo_die s \<le> hi_die s"
    "dice s = [dice s ! 0, dice s ! 1]" "1 \<le> dice s ! 0" "dice s ! 0 \<le> 6" "1 \<le> dice s ! 1" "dice s ! 1 \<le> 6"
    using ab r by (auto simp: hi_die_def lo_die_def)
qed

lemma DetermineLegalLevel_eq:
  assumes v: "valid_state s" and d: "dice_ok s"
  shows "DetermineLegalLevel s = Some (level_spec s)"
proof -
  note f = dice_ok_facts[OF d]
  have n4: "NumMaxPlayableDies s [hi_die s, hi_die s, hi_die s, hi_die s]
        = Some (max_playable s [hi_die s, hi_die s, hi_die s, hi_die s], s)"
    using nmp_eq[OF v, of "[hi_die s, hi_die s, hi_die s, hi_die s]"] f by simp
  have n2a: "NumMaxPlayableDies s [lo_die s, hi_die s] = Some (max_playable s [hi_die s, lo_die s], s)"
    using nmp_eq[OF v, of "[lo_die s, hi_die s]"] f by simp
  have n2b: "NumMaxPlayableDies s [hi_die s, lo_die s] = Some (max_playable s [lo_die s, hi_die s], s)"
    using nmp_eq[OF v, of "[hi_die s, lo_die s]"] f by simp
  have b1: "0 \<le> max_playable s [hi_die s, lo_die s]" "max_playable s [hi_die s, lo_die s] \<le> 2"
    "0 \<le> max_playable s [lo_die s, hi_die s]" "max_playable s [lo_die s, hi_die s] \<le> 2"
    using max_playable_bounds[of s "[hi_die s, lo_die s]"] max_playable_bounds[of s "[lo_die s, hi_die s]"]
    by simp_all
  define hi where "hi = hi_die s"
  define lo where "lo = lo_die s"
  define a where "a = max_playable s [hi, lo]"
  define b where "b = max_playable s [lo, hi]"
  define c where "c = max_playable s [hi, hi, hi, hi]"
  note defs = hi_def[symmetric] lo_def[symmetric] a_def[symmetric] b_def[symmetric] c_def[symmetric]
  have hl: "max (dice s ! 0) (dice s ! Suc 0) = hi" "min (dice s ! 0) (dice s ! Suc 0) = lo"
    by (simp_all add: hi_def lo_def hi_die_def lo_die_def)
  have ab: "a = 0 \<or> a = 1 \<or> a = 2" "b = 0 \<or> b = 1 \<or> b = 2"
    using b1 unfolding defs by auto
  have ls: "level_spec s =
     (if hi = lo then
           (if c = 1 then kHighDie else if c = 2 then kTwoDice else if c = 3 then kThreeDice
               else if c = 4 then kFourDice else kNoDice)
         else if a = 2 \<or> b = 2 then kTwoDice
         else if a = 1 then kHighDie
         else if b = 1 then kLowDie
         else kNoDice)"
    unfolding level_spec_def Let_def defs ..
  show ?thesis
  proof (cases "hi = lo")
    case True
    show ?thesis
      unfolding ls using f(1) True
      by (simp add: DetermineLegalLevel_def f(2,3) hl n4[unfolded defs, unfolded True])
  next
    case False
    show ?thesis
      unfolding ls using f(1) False ab
      by (auto simp add: DetermineLegalLevel_def f(2,3) hl n2a[unfolded defs] n2b[unfolded defs])
  qed
qed

lemma same_position_remaining [simp]:
  "same_position (s\<lparr>remaining_dice := rd\<rparr>) s" "same_position s (s\<lparr>remaining_dice := rd\<rparr>)"
  by (simp_all add: same_position_def)

lemma max_playable_remaining [simp]:
  "max_playable (s\<lparr>remaining_dice := rd\<rparr>) ds = max_playable s ds"
  by (rule max_playable_cong) simp

lemma level_spec_remaining [simp]:
  "level_spec (s\<lparr>remaining_dice := rd\<rparr>) = level_spec s"
  unfolding level_spec_def hi_die_def lo_die_def max_playable_remaining by simp

lemma dice_ok_remaining [simp]: "dice_ok (s\<lparr>remaining_dice := rd\<rparr>) = dice_ok s"
  by (simp add: dice_ok_def)

lemma valid_state_remaining:
  "length rd = 6 \<Longrightarrow> length rd' = 6 \<Longrightarrow>
   valid_state (s\<lparr>remaining_dice := rd\<rparr>) \<Longrightarrow> valid_state (s\<lparr>remaining_dice := rd'\<rparr>)"
  by (simp add: valid_state_def shape_ok_def total_checkers_def pt_def)

lemma level_spec_doubles:
  assumes "hi_die s = lo_die s"
  shows "int (dice_count (level_spec s)) = max_playable s [hi_die s, hi_die s, hi_die s, hi_die s]"
proof -
  have b: "0 \<le> max_playable s [hi_die s, hi_die s, hi_die s, hi_die s]"
     "max_playable s [hi_die s, hi_die s, hi_die s, hi_die s] \<le> 4"
    using max_playable_bounds[of s "[hi_die s, hi_die s, hi_die s, hi_die s]"] by simp_all
  then show ?thesis
    using assms by (auto simp: level_spec_def Let_def dice_count_def)
qed

lemma InitRemainingDice_eq:
  assumes d: "dice_ok s" and v: "valid_state (s\<lparr>remaining_dice := replicate 6 0\<rparr>)"
  shows "\<exists>rd. InitRemainingDice s = Some (s\<lparr>remaining_dice := rd\<rparr>) \<and> length rd = 6
     \<and> (hi_die s = lo_die s \<longrightarrow> rd ! nat (hi_die s - 1) = int (dice_count (level_spec s)))
     \<and> (hi_die s \<noteq> lo_die s \<longrightarrow>
          rd ! nat (hi_die s - 1) = (if level_spec s = kHighDie \<or> level_spec s = kTwoDice then 1 else 0)
        \<and> rd ! nat (lo_die s - 1) = (if level_spec s = kLowDie \<or> level_spec s = kTwoDice then 1 else 0))"
proof -
  let ?s1 = "s\<lparr>remaining_dice := replicate 6 0\<rparr>"
  note f = dice_ok_facts[OF d]
  have l: "DetermineLegalLevel ?s1 = Some (level_spec s)"
    using DetermineLegalLevel_eq[OF v] d by simp
  have hl: "max (dice s ! 0) (dice s ! Suc 0) = hi_die s" "min (dice s ! 0) (dice s ! Suc 0) = lo_die s"
    by (simp_all add: hi_die_def lo_die_def)
  define hi where "hi = hi_die s"
  define lo where "lo = lo_die s"
  have r: "1 \<le> hi" "hi \<le> 6" "1 \<le> lo" "lo \<le> 6" using f by (simp_all add: hi_def lo_def)
  have dbl: "hi = lo \<Longrightarrow> level_spec s \<noteq> kLowDie"
    "hi \<noteq> lo \<Longrightarrow> level_spec s \<noteq> kThreeDice" "hi \<noteq> lo \<Longrightarrow> level_spec s \<noteq> kFourDice"
    by (auto simp: level_spec_def Let_def hi_def lo_def)
  have i: "0 \<le> hi - 1" "hi - 1 < 6" "0 \<le> lo - 1" "lo - 1 < 6" "nat (hi - 1) < 6" "nat (lo - 1) < 6"
    "hi \<noteq> lo \<Longrightarrow> nat (hi - 1) \<noteq> nat (lo - 1)" "hi \<noteq> lo \<Longrightarrow> nat (lo - 1) \<noteq> nat (hi - 1)"
    using r by auto
  define z :: "int list" where "z = replicate 6 0"
  have z: "length z = 6" "\<And>k. k < 6 \<Longrightarrow> z ! k = 0" by (simp_all add: z_def)
  define rd where "rd = (case level_spec s of
             kLowDie \<Rightarrow> z[nat (lo - 1) := 1]
           | kHighDie \<Rightarrow> z[nat (hi - 1) := 1]
           | kTwoDice \<Rightarrow> (z[nat (lo - 1) := 1])[nat (hi - 1) := (z[nat (lo - 1) := 1]) ! nat (hi - 1) + 1]
           | kThreeDice \<Rightarrow> z[nat (hi - 1) := 3]
           | kFourDice \<Rightarrow> z[nat (hi - 1) := 4]
           | kNoDice \<Rightarrow> z)"
  have step: "(case level_spec s of
             kLowDie \<Rightarrow> add_at z (lo - 1) 1
           | kHighDie \<Rightarrow> add_at z (hi - 1) 1
           | kTwoDice \<Rightarrow>
               do { r \<leftarrow> add_at z (lo - 1) 1; add_at r (hi - 1) 1 }
           | kThreeDice \<Rightarrow> upd_chk z (hi - 1) 3
           | kFourDice \<Rightarrow> upd_chk z (hi - 1) 4
           | kNoDice \<Rightarrow> Some z) = Some rd"
    using i z by (cases "level_spec s") (simp_all add: rd_def add_at_Some)
  have len: "length rd = 6" using z by (cases "level_spec s") (simp_all add: rd_def)
  have l': "DetermineLegalLevel (s\<lparr>remaining_dice := z\<rparr>) = Some (level_spec s)"
    using l by (simp add: z_def)
  have hl': "max (dice s ! 0) (dice s ! Suc 0) = hi" "min (dice s ! 0) (dice s ! Suc 0) = lo"
    using hl by (simp_all add: hi_def lo_def)
  have init: "InitRemainingDice s = Some (s\<lparr>remaining_dice := rd\<rparr>)"
    using f(1) i z
    by (cases "level_spec s")
       (simp_all add: InitRemainingDice_def f(2,3) hl' l' Let_def kNumDiceOutcomes_def
          z_def[symmetric] rd_def add_at_Some)
  have v1: "hi = lo \<Longrightarrow> rd ! nat (hi - 1) = int (dice_count (level_spec s))"
    using i z dbl by (cases "level_spec s") (simp_all add: rd_def dice_count_def)
  have v2: "hi \<noteq> lo \<Longrightarrow>
          rd ! nat (hi - 1) = (if level_spec s = kHighDie \<or> level_spec s = kTwoDice then 1 else 0)"
    using i z dbl by (cases "level_spec s") (simp_all add: rd_def)
  have v3: "hi \<noteq> lo \<Longrightarrow>
          rd ! nat (lo - 1) = (if level_spec s = kLowDie \<or> level_spec s = kTwoDice then 1 else 0)"
    using i z dbl by (cases "level_spec s") (simp_all add: rd_def)
  show ?thesis
    unfolding hi_def[symmetric] lo_def[symmetric]
    using init len v1 v2 v3 by blast
qed

lemma rem_read:
  assumes "shape_ok t" "1 \<le> d" "d \<le> 6"
  shows "nth_chk (remaining_dice t) (d - 1) = Some (rem_of t d)"
  using assms by (simp add: shape_ok_def rem_of_def)

lemma first_remaining_die_two:
  assumes "shape_ok t" "1 \<le> d0" "d0 \<le> 6" "1 \<le> d1" "d1 \<le> 6"
  shows "first_remaining_die t [d0, d1] =
     (if 0 < rem_of t d0 then SingleCheckerMoves t d0 False
      else if 0 < rem_of t d1 then SingleCheckerMoves t d1 False
      else Some [])"
  using rem_read[OF assms(1,2,3)] rem_read[OF assms(1,4,5)] by simp

lemma LSM_plain:
  assumes sh: "shape_ok t" and d: "dice t = [d0, d1]" "1 \<le> d0" "d0 \<le> 6" "1 \<le> d1" "d1 \<le> 6"
    and nv: "\<not> (d0 \<noteq> d1 \<and> 0 < rem_of t d0 \<and> 0 < rem_of t d1)"
  shows "LegalSingleCheckerMoves t =
     (if 0 < rem_of t d0 then SingleCheckerMoves t d0 False
      else if 0 < rem_of t d1 then SingleCheckerMoves t d1 False
      else Some [])"
proof -
  have frd: "first_remaining_die t [d0, d1] =
     (if 0 < rem_of t d0 then SingleCheckerMoves t d0 False
      else if 0 < rem_of t d1 then SingleCheckerMoves t d1 False
      else Some [])"
    by (rule first_remaining_die_two[OF sh d(2-5)])
  have rd: "nth_chk [d0, d1] 0 = Some d0" "nth_chk [d0, d1] 1 = Some d1" by simp_all
  show ?thesis
    unfolding LegalSingleCheckerMoves_def d(1) rd frd
    using nv rem_read[OF sh d(2,3)] rem_read[OF sh d(4,5)]
    by (auto simp: Let_def)
qed

lemma can_play_die_first:
  assumes "shape_ok t" "1 \<le> d" "d \<le> 6" "SingleCheckerMoves t d True = Some found"
  shows "found \<noteq> [] \<longleftrightarrow> can_play_die t d"
proof -
  obtain ms where "SingleCheckerMoves t d False = Some ms" using scm_ok[OF assms(1-3)] by blast
  then show ?thesis using scm_first_only[OF assms(4)] by (auto simp: can_play_die_def)
qed

lemma verify_moves_ok:
  assumes v: "valid_state t" and o: "1 \<le> other" "other \<le> 6"
    and ms: "\<forall>m \<in> set ms. playable_move t m"
  shows "\<exists>acc'. verify_moves other ms t acc = Some (acc', t)
     \<and> set acc' \<subseteq> set acc \<union> {m \<in> set ms. can_play_die (apply_pure t m) other}
     \<and> (acc' = [] \<longleftrightarrow> acc = [] \<and> \<not> (\<exists>m \<in> set ms. can_play_die (apply_pure t m) other))"
  using ms
proof (induction ms arbitrary: acc)
  case Nil
  then show ?case by simp
next
  case (Cons m ms)
  have sh: "shape_ok t" using v by (simp add: valid_state_def)
  have pm: "playable_move t m" using Cons.prems by simp
  have a: "ApplyCheckerMove t m = Some (hit m, apply_pure t m)" by (rule apply_eq[OF sh pm])
  have v': "valid_state (apply_pure t m)" by (rule valid_apply[OF v pm])
  then have sh': "shape_ok (apply_pure t m)" by (simp add: valid_state_def)
  obtain found where fd: "SingleCheckerMoves (apply_pure t m) other True = Some found"
    using scm_ok[OF sh' o] by blast
  have fe: "found \<noteq> [] \<longleftrightarrow> can_play_die (apply_pure t m) other"
    by (rule can_play_die_first[OF sh' o fd])
  have u: "UndoCheckerMove (apply_pure t m) m = Some t" by (rule undo_apply[OF sh pm])
  have rest: "\<forall>m \<in> set ms. playable_move t m" using Cons.prems by simp
  let ?acc = "if found \<noteq> [] then set_insert cm_less m acc else acc"
  obtain acc' where r: "verify_moves other ms t ?acc = Some (acc', t)"
     and s: "set acc' \<subseteq> set ?acc \<union> {m \<in> set ms. can_play_die (apply_pure t m) other}"
     and e: "acc' = [] \<longleftrightarrow> ?acc = [] \<and> \<not> (\<exists>m \<in> set ms. can_play_die (apply_pure t m) other)"
    using Cons.IH[OF rest, of ?acc] by blast
  have step: "verify_moves other (m # ms) t acc = Some (acc', t)"
    using a fd u r by (simp add: Let_def)
  show ?case
  proof (cases "found \<noteq> []")
    case True
    then show ?thesis
      using step s e fe set_set_insert[of cm_less m acc] by auto
  next
    case False
    then show ?thesis
      using step s e fe by auto
  qed
qed

lemma LSM_verify:
  assumes v: "valid_state t" and d: "dice t = [d0, d1]" "1 \<le> d0" "d0 \<le> 6" "1 \<le> d1" "d1 \<le> 6"
    and nv: "d0 \<noteq> d1" "0 < rem_of t d0" "0 < rem_of t d1"
  shows "\<exists>ms. LegalSingleCheckerMoves t = Some ms
     \<and> (\<forall>m \<in> set ms. verified_move t d0 d1 m \<or> verified_move t d1 d0 m)
     \<and> (ms = [] \<longleftrightarrow> \<not> (\<exists>m. verified_move t d0 d1 m \<or> verified_move t d1 d0 m))"
proof -
  have sh: "shape_ok t" using v by (simp add: valid_state_def)
  obtain ms0 where ms0: "SingleCheckerMoves t d0 False = Some ms0"
    and ok0: "\<forall>m \<in> set ms0. die_move_ok t d0 m" using scm_ok[OF sh d(2,3)] by blast
  obtain ms1 where ms1: "SingleCheckerMoves t d1 False = Some ms1"
    and ok1: "\<forall>m \<in> set ms1. die_move_ok t d1 m" using scm_ok[OF sh d(4,5)] by blast
  have p0: "\<forall>m \<in> set ms0. playable_move t m" using ok0 by (simp add: die_move_ok_def)
  have p1: "\<forall>m \<in> set ms1. playable_move t m" using ok1 by (simp add: die_move_ok_def)
  obtain a0 where a0: "verify_moves d1 ms0 t [] = Some (a0, t)"
    and s0: "set a0 \<subseteq> set [] \<union> {m \<in> set ms0. can_play_die (apply_pure t m) d1}"
    and e0: "a0 = [] \<longleftrightarrow> [] = ([] :: CheckerMove list) \<and> \<not> (\<exists>m \<in> set ms0. can_play_die (apply_pure t m) d1)"
    using verify_moves_ok[OF v d(4,5) p0, of "[]"] by blast
  obtain a1 where a1: "verify_moves d0 ms1 t a0 = Some (a1, t)"
    and s1: "set a1 \<subseteq> set a0 \<union> {m \<in> set ms1. can_play_die (apply_pure t m) d0}"
    and e1: "a1 = [] \<longleftrightarrow> a0 = [] \<and> \<not> (\<exists>m \<in> set ms1. can_play_die (apply_pure t m) d0)"
    using verify_moves_ok[OF v d(2,3) p1, of a0] by blast
  have rd: "nth_chk [d0, d1] 0 = Some d0" "nth_chk [d0, d1] 1 = Some d1" by simp_all
  have vd: "verify_dice t d0 d1 [d0, d1] t [] = Some a1"
    using nv rem_read[OF sh d(2,3)] rem_read[OF sh d(4,5)] ms0 ms1 a0 a1
    by (simp add: Let_def)
  have lsm: "LegalSingleCheckerMoves t = Some a1"
    unfolding LegalSingleCheckerMoves_def d(1) rd
    using nv rem_read[OF sh d(2,3)] rem_read[OF sh d(4,5)] vd
    by (simp add: Let_def)
  have v0: "\<And>m. verified_move t d0 d1 m \<longleftrightarrow> m \<in> set ms0 \<and> can_play_die (apply_pure t m) d1"
    by (simp add: verified_move_def ms0)
  have v1: "\<And>m. verified_move t d1 d0 m \<longleftrightarrow> m \<in> set ms1 \<and> can_play_die (apply_pure t m) d0"
    by (simp add: verified_move_def ms1)
  show ?thesis
    using lsm s0 s1 e0 e1 unfolding v0 v1 by auto
qed

lemma verified_move_ok:
  assumes "shape_ok t" "1 \<le> d" "d \<le> 6" "verified_move t d e m"
  shows "die_move_ok t d m"
  using scm_ok[OF assms(1-3), of False] assms(4) by (auto simp: verified_move_def)

text \<open>Every legal single move plays a die that is still to be played.\<close>

lemma LSM_moves:
  assumes v: "valid_state t" and d: "dice t = [d0, d1]" "1 \<le> d0" "d0 \<le> 6" "1 \<le> d1" "d1 \<le> 6"
  shows "\<exists>ms. LegalSingleCheckerMoves t = Some ms
     \<and> (\<forall>m \<in> set ms. (die_move_ok t d0 m \<and> 0 < rem_of t d0) \<or> (die_move_ok t d1 m \<and> 0 < rem_of t d1))"
proof -
  have sh: "shape_ok t" using v by (simp add: valid_state_def)
  show ?thesis
  proof (cases "d0 \<noteq> d1 \<and> 0 < rem_of t d0 \<and> 0 < rem_of t d1")
    case True
    then show ?thesis
      using LSM_verify[OF v d] verified_move_ok[OF sh d(2,3)] verified_move_ok[OF sh d(4,5)]
      by blast
  next
    case False
    show ?thesis
      unfolding LSM_plain[OF sh d False]
      using scm_ok[OF sh d(2,3), of False] scm_ok[OF sh d(4,5), of False]
      by auto
  qed
qed

subsection \<open>Backgammon: position ids\<close>

lemma PositionId_points_eq:
  assumes "shape_ok t" "\<forall>i \<in> set pts. 0 \<le> i \<and> i \<le> 23"
  shows "PositionId_points t pts acc = Some (acc @ map (point_char t) pts)"
  using assms(2)
proof (induction pts arbitrary: acc)
  case Nil
  show ?case by simp
next
  case (Cons i pts)
  have i: "0 \<le> i" "i \<le> 23" using Cons.prems by auto
  have r: "nth_chk2 (board t) kXPlayerId i = Some (pt t 0 i)"
    "nth_chk2 (board t) kOPlayerId i = Some (pt t 1 i)"
    using assms(1) i by (simp_all add: shape_ok_def kXPlayerId_def kOPlayerId_def pt_def)
  have rest: "\<forall>i \<in> set pts. 0 \<le> i \<and> i \<le> 23" using Cons.prems by simp
  show ?case
    using r Cons.IH[OF rest] by (simp add: point_char_def)
qed

lemma PositionId_eq:
  assumes "shape_ok t"
  shows "PositionId t = Some (map (point_char t) [0..23]
           @ [char_of (65 + bar t ! 0), char_of (97 + bar t ! 1)])"
proof -
  have p: "PositionId_points t [0..23] [] = Some ([] @ map (point_char t) [0..23])"
    by (rule PositionId_points_eq[OF assms]) simp
  have b: "nth_chk (bar t) kXPlayerId = Some (bar t ! 0)" "nth_chk (bar t) kOPlayerId = Some (bar t ! 1)"
    using assms by (simp_all add: shape_ok_def kXPlayerId_def kOPlayerId_def)
  show ?thesis unfolding PositionId_def using p b by simp
qed

lemma elem_le_sum_list:
  fixes xs :: "int list"
  assumes "\<forall>x \<in> set xs. 0 \<le> x" "i < length xs"
  shows "xs ! i \<le> sum_list xs"
  using assms
proof (induction xs arbitrary: i)
  case Nil
  then show ?case by simp
next
  case (Cons x xs)
  have nn: "0 \<le> sum_list xs" "0 \<le> x" using Cons.prems(1) by (simp_all add: sum_list_nonneg)
  show ?case
  proof (cases i)
    case 0
    then show ?thesis using nn by simp
  next
    case (Suc k)
    then have "xs ! k \<le> sum_list xs" using Cons.IH[of k] Cons.prems by simp
    then show ?thesis using Suc nn by simp
  qed
qed

lemma valid_bounds:
  assumes "valid_state t" "q = 0 \<or> q = 1"
  shows "0 \<le> bar t ! nat q" "bar t ! nat q \<le> 15"
    "\<And>i. 0 \<le> i \<Longrightarrow> i \<le> 23 \<Longrightarrow> 0 \<le> pt t q i \<and> pt t q i \<le> 15"
proof -
  have sh: "shape_ok t" using assms(1) by (simp add: valid_state_def)
  have nn: "0 \<le> bar t ! nat q" "0 \<le> scores t ! nat q"
    "total_checkers t q = NumCheckersPerPlayer (hyper_backgammon t)"
    "\<forall>i \<in> {0..23}. 0 \<le> pt t q i"
    using assms by (auto simp: valid_state_def)
  have len: "length (board t ! nat q) = 24" using shape_rows[OF sh assms(2)] by simp
  have all: "\<forall>x \<in> set (board t ! nat q). 0 \<le> x"
  proof
    fix x assume "x \<in> set (board t ! nat q)"
    then obtain k where k: "k < 24" "x = board t ! nat q ! k" using len by (auto simp: in_set_conv_nth)
    then have "x = pt t q (int k)" by (simp add: pt_def)
    then show "0 \<le> x" using nn(4) k(1) by auto
  qed
  have sumnn: "0 \<le> sum_list (board t ! nat q)" using all by (simp add: sum_list_nonneg)
  have N: "NumCheckersPerPlayer (hyper_backgammon t) \<le> 15"
    by (simp add: NumCheckersPerPlayer_def kNumCheckersPerPlayer_def)
  show "0 \<le> bar t ! nat q" by (rule nn(1))
  show "bar t ! nat q \<le> 15" using nn(2,3) sumnn N by (simp add: total_checkers_def)
  fix i :: int assume i: "0 \<le> i" "i \<le> 23"
  have "pt t q i \<le> sum_list (board t ! nat q)"
    unfolding pt_def by (rule elem_le_sum_list[OF all]) (use i len in auto)
  then have "pt t q i \<le> 15" using nn(1,2,3) N by (simp add: total_checkers_def)
  then show "0 \<le> pt t q i \<and> pt t q i \<le> 15" using nn(4) i by auto
qed

lemma char_of_inj_small:
  fixes a b :: int
  assumes "char_of a = char_of b" "0 \<le> a" "a < 256" "0 \<le> b" "b < 256"
  shows "a = b"
proof -
  have "of_char (char_of a) = (of_char (char_of b) :: int)" using assms(1) by simp
  then show ?thesis using assms(2-5) by simp
qed

lemma point_char_inj:
  assumes c: "point_char t i = point_char t' i"
    and b: "0 \<le> pt t 0 i" "pt t 0 i \<le> 15" "0 \<le> pt t 1 i" "pt t 1 i \<le> 15"
       "0 \<le> pt t' 0 i" "pt t' 0 i \<le> 15" "0 \<le> pt t' 1 i" "pt t' 1 i \<le> 15"
    and ns: "\<not> (0 < pt t 0 i \<and> 0 < pt t 1 i)" "\<not> (0 < pt t' 0 i \<and> 0 < pt t' 1 i)"
  shows "pt t 0 i = pt t' 0 i \<and> pt t 1 i = pt t' 1 i"
proof -
  define code where "code = (\<lambda>t. if pt t 0 i > 0 then 65 + pt t 0 i - 1
      else if pt t 1 i > 0 then 97 + pt t 1 i - 1 else (45::int))"
  have "of_char CHR ''-'' = (45::int)" by simp
  then have dash: "CHR ''-'' = char_of (45::int)" by (metis char_of_char)
  have pc: "\<And>u. point_char u i = char_of (code u)"
    by (simp add: point_char_def code_def dash)
  have r: "0 \<le> code t" "code t < 256" "0 \<le> code t'" "code t' < 256"
    using b by (auto simp: code_def)
  have "code t = code t'"
    by (rule char_of_inj_small) (use c r in \<open>simp_all add: pc\<close>)
  then show ?thesis
    using b ns by (auto simp: code_def split: if_splits)
qed

lemma list2_eq:
  assumes "length xs = 2" "length ys = 2" "xs ! 0 = ys ! 0" "xs ! 1 = ys ! 1"
  shows "xs = ys"
proof (rule nth_equalityI)
  show "length xs = length ys" using assms by simp
  fix i assume "i < length xs"
  then have "i = 0 \<or> i = 1" using assms(1) by auto
  then show "xs ! i = ys ! i" using assms(3,4) by auto
qed

lemma row_eq:
  assumes "length (xs :: int list) = 24" "length ys = 24"
    "\<And>i. 0 \<le> i \<Longrightarrow> i \<le> 23 \<Longrightarrow> xs ! nat i = ys ! nat i"
  shows "xs = ys"
proof (rule nth_equalityI)
  show "length xs = length ys" using assms by simp
  fix k assume "k < length xs"
  then have "0 \<le> int k" "int k \<le> 23" using assms(1) by auto
  then have "xs ! nat (int k) = ys ! nat (int k)" by (rule assms(3))
  then show "xs ! k = ys ! k" by simp
qed

lemma PositionId_inj:
  assumes v: "valid_state t" and v': "valid_state t'"
    and e: "PositionId t = PositionId t'"
  shows "bar t = bar t' \<and> board t = board t'"
proof -
  have sh: "shape_ok t" "shape_ok t'" using v v' by (simp_all add: valid_state_def)
  have l: "map (point_char t) [0..23] @ [char_of (65 + bar t ! 0), char_of (97 + bar t ! 1)]
         = map (point_char t') [0..23] @ [char_of (65 + bar t' ! 0), char_of (97 + bar t' ! 1)]"
    using e unfolding PositionId_eq[OF sh(1)] PositionId_eq[OF sh(2)] by simp
  then have m: "map (point_char t) [0..23] = map (point_char t') [0..23]"
    and b: "char_of (65 + bar t ! 0) = (char_of (65 + bar t' ! 0) :: char)"
           "char_of (97 + bar t ! 1) = (char_of (97 + bar t' ! 1) :: char)"
    by simp_all
  have pc: "\<And>i. 0 \<le> i \<Longrightarrow> i \<le> 23 \<Longrightarrow> point_char t i = point_char t' i"
    using m by (simp add: map_eq_conv)
  have q0: "(0::int) = 0 \<or> (0::int) = 1" and q1: "(1::int) = 0 \<or> (1::int) = 1" by simp_all
  note bt0 = valid_bounds[OF v q0] and bt1 = valid_bounds[OF v q1]
    and bt0' = valid_bounds[OF v' q0] and bt1' = valid_bounds[OF v' q1]
  have b0: "bar t ! 0 = bar t' ! 0"
    using char_of_inj_small[OF b(1)] bt0(1,2) bt0'(1,2) by simp
  have b1: "bar t ! 1 = bar t' ! 1"
    using char_of_inj_small[OF b(2)] bt1(1,2) bt1'(1,2) by simp
  have bars: "bar t = bar t'"
    by (rule list2_eq) (use sh b0 b1 in \<open>simp_all add: shape_ok_def\<close>)
  have pts: "\<And>i. 0 \<le> i \<Longrightarrow> i \<le> 23 \<Longrightarrow> pt t 0 i = pt t' 0 i \<and> pt t 1 i = pt t' 1 i"
  proof -
    fix i :: int assume i: "0 \<le> i" "i \<le> 23"
    have ns: "\<not> (0 < pt t 0 i \<and> 0 < pt t 1 i)" "\<not> (0 < pt t' 0 i \<and> 0 < pt t' 1 i)"
      using v v' i by (auto simp: valid_state_def)
    show "pt t 0 i = pt t' 0 i \<and> pt t 1 i = pt t' 1 i"
      by (rule point_char_inj[OF pc[OF i]])
         (use bt0(3)[OF i] bt1(3)[OF i] bt0'(3)[OF i] bt1'(3)[OF i] ns in auto)
  qed
  have r0: "board t ! 0 = board t' ! 0"
    by (rule row_eq) (use sh pts in \<open>auto simp: shape_ok_def pt_def\<close>)
  have r1: "board t ! 1 = board t' ! 1"
    by (rule row_eq) (use sh pts in \<open>auto simp: shape_ok_def pt_def\<close>)
  have "board t = board t'"
    by (rule list2_eq) (use sh r0 r1 in \<open>simp_all add: shape_ok_def\<close>)
  then show ?thesis using bars by simp
qed

subsection \<open>Backgammon: the breadth-first search of move sequences\<close>

lemma playable_legal_pos_num: "playable_move t m \<Longrightarrow> legal_pos_num m"
  by (auto simp: playable_move_def legal_pos_num_def)

lemma rem_of_apply:
  assumes "shape_ok t" "1 \<le> num m" "num m \<le> 6" "1 \<le> d" "d \<le> 6"
  shows "rem_of (apply_pure t m) d = rem_of t d - (if num m = d then 1 else 0)"
proof -
  have l: "length (remaining_dice t) = 6" using assms(1) by (simp add: shape_ok_def)
  have "bump (remaining_dice t) (num m - 1) (- 1) ! nat (d - 1)
        = remaining_dice t ! nat (d - 1) + (if d - 1 = num m - 1 then - 1 else 0)"
    by (rule bump_nth) (use assms l in auto)
  then show ?thesis by (auto simp: rem_of_def)
qed

lemma AddMove_ext:
  assumes inv: "seq_inv s j q" and m: "die_move_ok (seq_state q) d m" and d: "d \<in> set (dice s)"
    and pos: "0 < rem_of (seq_state q) d"
  shows "AddMove q m = Some (ext q m)" "seq_inv s (Suc j) (ext q m)"
proof -
  let ?t = "seq_state q"
  have v: "valid_state ?t" using inv by (simp add: seq_inv_def)
  then have sh: "shape_ok ?t" by (simp add: valid_state_def)
  have pm: "playable_move ?t m" and nm: "num m = d" using m by (simp_all add: die_move_ok_def)
  have a: "ApplyCheckerMove ?t m = Some (hit m, apply_pure ?t m)" by (rule apply_eq[OF sh pm])
  have v': "valid_state (apply_pure ?t m)" by (rule valid_apply[OF v pm])
  then have sh': "shape_ok (apply_pure ?t m)" by (simp add: valid_state_def)
  obtain i where pid: "PositionId (apply_pure ?t m) = Some i"
    using PositionId_eq[OF sh'] by simp
  show "AddMove q m = Some (ext q m)"
    unfolding AddMove_def ext_def using a pid by simp
  have n: "1 \<le> num m" "num m \<le> 6" using pm by (simp_all add: playable_move_def)
  have r: "\<forall>e. 1 \<le> e \<and> e \<le> 6 \<longrightarrow>
           rem_of (seq_state (ext q m)) e
           = rem_of s e - int (length (filter (\<lambda>m. num m = e) (seq_moves (ext q m))))"
  proof (intro allI impI)
    fix e :: int assume e: "1 \<le> e \<and> e \<le> 6"
    have "rem_of ?t e = rem_of s e - int (length (filter (\<lambda>m. num m = e) (seq_moves q)))"
      using inv e by (simp add: seq_inv_def)
    then show "rem_of (seq_state (ext q m)) e
           = rem_of s e - int (length (filter (\<lambda>m. num m = e) (seq_moves (ext q m))))"
      using rem_of_apply[OF sh n, of e] e by (simp add: ext_def)
  qed
  have r0: "\<forall>e \<in> set (dice s). 1 \<le> e \<and> e \<le> 6 \<longrightarrow> 0 \<le> rem_of (seq_state (ext q m)) e"
  proof (intro ballI impI)
    fix e :: int assume e: "e \<in> set (dice s)" "1 \<le> e \<and> e \<le> 6"
    have "\<forall>d \<in> set (dice s). 1 \<le> d \<and> d \<le> 6 \<longrightarrow> 0 \<le> rem_of ?t d"
      using inv unfolding seq_inv_def by blast
    then have ge: "0 \<le> rem_of ?t e" using e by blast
    show "0 \<le> rem_of (seq_state (ext q m)) e"
      using rem_of_apply[OF sh n, of e] e n pos nm ge by (auto simp: ext_def)
  qed
  have a: "length (seq_moves (ext q m)) = Suc j \<and> valid_state (seq_state (ext q m))
     \<and> dice (seq_state (ext q m)) = dice s
     \<and> cur_player (seq_state (ext q m)) = cur_player s
     \<and> (1 \<le> Suc j \<longrightarrow> PositionId (seq_state (ext q m)) = Some (seq_id (ext q m)))
     \<and> (\<forall>m \<in> set (seq_moves (ext q m)). legal_pos_num m \<and> num m \<in> set (dice s))"
    using inv v' pid playable_legal_pos_num[OF pm] nm d
    by (simp add: seq_inv_def ext_def)
  show "seq_inv s (Suc j) (ext q m)"
    unfolding seq_inv_def using a r r0 by blast
qed

lemma set_insert_equiv:
  assumes "\<And>a. \<not> lt a a"
  shows "\<exists>y \<in> set (set_insert lt x xs). \<not> lt x y \<and> \<not> lt y x"
  by (induction xs) (use assms in auto)

lemma cms_insert_id: "\<exists>y \<in> set (set_insert cms_less x xs). seq_id y = seq_id x"
proof -
  obtain y where y: "y \<in> set (set_insert cms_less x xs)" "\<not> cms_less x y" "\<not> cms_less y x"
    using set_insert_equiv[of cms_less x xs] by (auto simp: cms_less_def)
  then have "seq_id y = seq_id x" by (simp add: cms_less_def)
  then show ?thesis using y(1) by blast
qed

lemma extend_seq_ok:
  assumes inv: "seq_inv s j q" and ms: "ok_moves s q ms"
    and acc: "\<forall>x \<in> set acc. seq_inv s (Suc j) x"
  shows "\<exists>r. extend_seq q ms acc = Some r \<and> (\<forall>x \<in> set r. seq_inv s (Suc j) x)
     \<and> set acc \<subseteq> set r
     \<and> (\<forall>m \<in> set ms. \<exists>x \<in> set r. seq_id x = seq_id (ext q m))
     \<and> (\<forall>x \<in> set r. x \<in> set acc \<or> (\<exists>m \<in> set ms. x = ext q m))
     \<and> (r = [] \<longleftrightarrow> acc = [] \<and> ms = [])"
  using ms acc
proof (induction ms arbitrary: acc)
  case Nil
  then show ?case by simp
next
  case (Cons m ms)
  obtain d where d: "d \<in> set (dice s)" "die_move_ok (seq_state q) d m" "0 < rem_of (seq_state q) d"
    using Cons.prems(1) by (auto simp: ok_moves_def)
  note e = AddMove_ext[OF inv d(2) d(1) d(3)]
  let ?acc = "set_insert cms_less (ext q m) acc"
  have a: "\<forall>x \<in> set ?acc. seq_inv s (Suc j) x"
    using Cons.prems(2) e(2) set_set_insert[of cms_less "ext q m" acc] by auto
  have rest: "ok_moves s q ms" using Cons.prems(1) by (simp add: ok_moves_def)
  obtain r where r: "extend_seq q ms ?acc = Some r" "\<forall>x \<in> set r. seq_inv s (Suc j) x"
     "set ?acc \<subseteq> set r" "\<forall>m \<in> set ms. \<exists>x \<in> set r. seq_id x = seq_id (ext q m)"
     "\<forall>x \<in> set r. x \<in> set ?acc \<or> (\<exists>m \<in> set ms. x = ext q m)"
     "r = [] \<longleftrightarrow> ?acc = [] \<and> ms = []"
    using Cons.IH[OF rest a] by blast
  have step: "extend_seq q (m # ms) acc = Some r" using e(1) r(1) by simp
  have "\<exists>x \<in> set r. seq_id x = seq_id (ext q m)"
    using cms_insert_id[of "ext q m" acc] r(3) by blast
  moreover have "set acc \<subseteq> set r" using r(3) set_insert_keeps[of acc cms_less "ext q m"] by blast
  moreover have "\<forall>x \<in> set r. x \<in> set acc \<or> (\<exists>m' \<in> set (m # ms). x = ext q m')"
    using r(5) set_set_insert[of cms_less "ext q m" acc] by auto
  ultimately show ?case using step r(2,4,6) by auto
qed

lemma lsm_ok:
  assumes d: "dice_ok s" and inv: "seq_inv s j q"
  shows "LegalSingleCheckerMoves (seq_state q) = Some (lsm (seq_state q))"
    "ok_moves s q (lsm (seq_state q))"
proof -
  let ?t = "seq_state q"
  note f = dice_ok_facts[OF d]
  have v: "valid_state ?t" and dt: "dice ?t = dice s" using inv by (simp_all add: seq_inv_def)
  have dd: "dice ?t = [dice s ! 0, dice s ! 1]" using dt f(9) by simp
  obtain ms where ms: "LegalSingleCheckerMoves ?t = Some ms"
    and ok: "\<forall>m \<in> set ms. (die_move_ok ?t (dice s ! 0) m \<and> 0 < rem_of ?t (dice s ! 0))
                 \<or> (die_move_ok ?t (dice s ! 1) m \<and> 0 < rem_of ?t (dice s ! 1))"
    using LSM_moves[OF v dd f(10-13)] by blast
  show "LegalSingleCheckerMoves ?t = Some (lsm ?t)" using ms by (simp add: lsm_def)
  have m: "dice s ! 0 \<in> set (dice s)" "dice s ! 1 \<in> set (dice s)"
    using d by (simp_all add: dice_ok_def)
  show "ok_moves s q (lsm ?t)"
    unfolding ok_moves_def using ok ms m by (auto simp: lsm_def)
qed

lemma extend_all_ok:
  assumes d: "dice_ok s" and inv: "\<forall>q \<in> set seqs. seq_inv s j q"
    and acc: "\<forall>x \<in> set acc. seq_inv s (Suc j) x"
  shows "\<exists>r. extend_all seqs acc = Some r \<and> (\<forall>x \<in> set r. seq_inv s (Suc j) x)
     \<and> set acc \<subseteq> set r
     \<and> (\<forall>q \<in> set seqs. \<forall>m \<in> set (lsm (seq_state q)). \<exists>x \<in> set r. seq_id x = seq_id (ext q m))
     \<and> (\<forall>x \<in> set r. x \<in> set acc \<or> (\<exists>q \<in> set seqs. \<exists>m \<in> set (lsm (seq_state q)). x = ext q m))
     \<and> (r = [] \<longleftrightarrow> acc = [] \<and> (\<forall>q \<in> set seqs. lsm (seq_state q) = []))"
  using inv acc
proof (induction seqs arbitrary: acc)
  case Nil
  then show ?case by simp
next
  case (Cons q seqs)
  have qi: "seq_inv s j q" using Cons.prems(1) by simp
  note l = lsm_ok[OF d qi]
  obtain r1 where r1: "extend_seq q (lsm (seq_state q)) acc = Some r1"
     "\<forall>x \<in> set r1. seq_inv s (Suc j) x" "set acc \<subseteq> set r1"
     "\<forall>m \<in> set (lsm (seq_state q)). \<exists>x \<in> set r1. seq_id x = seq_id (ext q m)"
     "\<forall>x \<in> set r1. x \<in> set acc \<or> (\<exists>m \<in> set (lsm (seq_state q)). x = ext q m)"
     "r1 = [] \<longleftrightarrow> acc = [] \<and> lsm (seq_state q) = []"
    using extend_seq_ok[OF qi l(2) Cons.prems(2)] by blast
  have rest: "\<forall>q \<in> set seqs. seq_inv s j q" using Cons.prems(1) by simp
  obtain r where r: "extend_all seqs r1 = Some r" "\<forall>x \<in> set r. seq_inv s (Suc j) x"
     "set r1 \<subseteq> set r"
     "\<forall>q \<in> set seqs. \<forall>m \<in> set (lsm (seq_state q)). \<exists>x \<in> set r. seq_id x = seq_id (ext q m)"
     "\<forall>x \<in> set r. x \<in> set r1 \<or> (\<exists>q \<in> set seqs. \<exists>m \<in> set (lsm (seq_state q)). x = ext q m)"
     "r = [] \<longleftrightarrow> r1 = [] \<and> (\<forall>q \<in> set seqs. lsm (seq_state q) = [])"
    using Cons.IH[OF rest r1(2)] by blast
  have step: "extend_all (q # seqs) acc = Some r" using l(1) r1(1) r(1) by simp
  have a: "set acc \<subseteq> set r" using r1(3) r(3) by blast
  have b: "\<forall>q' \<in> set (q # seqs). \<forall>m \<in> set (lsm (seq_state q')). \<exists>x \<in> set r. seq_id x = seq_id (ext q' m)"
  proof (intro ballI)
    fix q' m assume q': "q' \<in> set (q # seqs)" and m: "m \<in> set (lsm (seq_state q'))"
    show "\<exists>x \<in> set r. seq_id x = seq_id (ext q' m)"
    proof (cases "q' = q")
      case True
      then show ?thesis using r1(4) r(3) m by blast
    next
      case False
      then show ?thesis using r(4) q' m by auto
    qed
  qed
  have c: "\<forall>x \<in> set r. x \<in> set acc \<or> (\<exists>q' \<in> set (q # seqs). \<exists>m \<in> set (lsm (seq_state q')). x = ext q' m)"
    using r(5) r1(5) by auto
  have e: "r = [] \<longleftrightarrow> acc = [] \<and> (\<forall>q' \<in> set (q # seqs). lsm (seq_state q') = [])"
    using r(6) r1(6) by auto
  show ?case using step r(2) a b c e by blast
qed

text \<open>The rounds of the breadth-first search, for an invariant of the levels.\<close>

lemma seq_rounds_general:
  assumes step: "\<And>j seqs. P j seqs \<Longrightarrow> j < k \<Longrightarrow>
            \<exists>new. extend_all seqs [] = Some new \<and> new \<noteq> [] \<and> P (Suc j) new"
    and stop: "\<And>seqs. P k seqs \<Longrightarrow> extend_all seqs [] = Some []"
    and "P j seqs" "j \<le> k" "k \<le> j + n"
  shows "\<exists>r. seq_rounds n seqs = Some r \<and> P k r"
  using assms(3-5)
proof (induction n arbitrary: j seqs)
  case 0
  then show ?case by simp
next
  case (Suc n)
  show ?case
  proof (cases "j = k")
    case True
    then show ?thesis using stop[of seqs] Suc.prems(1) by simp
  next
    case False
    then have lt: "j < k" using Suc.prems(2) by simp
    obtain new where new: "extend_all seqs [] = Some new" "new \<noteq> []" "P (Suc j) new"
      using step[OF Suc.prems(1) lt] by blast
    have "\<exists>r. seq_rounds n new = Some r \<and> P k r"
      by (rule Suc.IH[OF new(3)]) (use lt Suc.prems(3) in auto)
    then show ?thesis using new by simp
  qed
qed

lemma mp_attain:
  assumes "SingleCheckerMoves t d False = Some ms" "ms \<noteq> []"
  shows "\<exists>m \<in> set ms. max_playable t (d # ds) = 1 + max_playable (apply_pure t m) ds"
    and "\<forall>m \<in> set ms. 1 + max_playable (apply_pure t m) ds \<le> max_playable t (d # ds)"
proof -
  let ?S = "(\<lambda>m. max_playable (apply_pure t m) ds) ` set ms"
  have fin: "finite ?S" "?S \<noteq> {}" using assms(2) by auto
  have e: "max_playable t (d # ds) = 1 + Max ?S" using assms by simp
  have "Max ?S \<in> ?S" using fin by (rule Max_in)
  then show "\<exists>m \<in> set ms. max_playable t (d # ds) = 1 + max_playable (apply_pure t m) ds"
    unfolding e by auto
  show "\<forall>m \<in> set ms. 1 + max_playable (apply_pure t m) ds \<le> max_playable t (d # ds)"
    unfolding e using fin(1) by auto
qed

lemma mp_pos:
  assumes "shape_ok t" "1 \<le> d" "d \<le> 6"
  shows "1 \<le> max_playable t (d # ds) \<longleftrightarrow> can_play_die t d"
proof -
  obtain ms where ms: "SingleCheckerMoves t d False = Some ms"
    using scm_ok[OF assms] by blast
  show ?thesis
  proof (cases "ms = []")
    case True
    then show ?thesis using ms by (simp add: can_play_die_def)
  next
    case False
    obtain m where "m \<in> set ms" "max_playable t (d # ds) = 1 + max_playable (apply_pure t m) ds"
      using mp_attain(1)[OF ms False] by blast
    then have "1 \<le> max_playable t (d # ds)"
      using max_playable_bounds[of "apply_pure t m" ds] by simp
    then show ?thesis using ms False by (simp add: can_play_die_def)
  qed
qed

lemma mp_two:
  assumes v: "valid_state t" and a: "1 \<le> a" "a \<le> 6" and b: "1 \<le> b" "b \<le> 6"
  shows "max_playable t [a, b] = 2 \<longleftrightarrow> (\<exists>m. verified_move t a b m)"
proof -
  have sh: "shape_ok t" using v by (simp add: valid_state_def)
  obtain ms where ms: "SingleCheckerMoves t a False = Some ms"
    and ok: "\<forall>m \<in> set ms. die_move_ok t a m"
    using scm_ok[OF sh a] by blast
  have sh': "\<And>m. m \<in> set ms \<Longrightarrow> shape_ok (apply_pure t m)"
    using ok valid_apply[OF v] by (auto simp: die_move_ok_def valid_state_def)
  have vm: "\<And>m. verified_move t a b m \<longleftrightarrow> m \<in> set ms \<and> can_play_die (apply_pure t m) b"
    by (simp add: verified_move_def ms)
  show ?thesis
  proof
    assume two: "max_playable t [a, b] = 2"
    then have ne: "ms \<noteq> []" using ms by auto
    obtain m where m: "m \<in> set ms" "max_playable t [a, b] = 1 + max_playable (apply_pure t m) [b]"
      using mp_attain(1)[OF ms ne] by blast
    then have "1 \<le> max_playable (apply_pure t m) [b]" using two by simp
    then have "can_play_die (apply_pure t m) b" using mp_pos[OF sh'[OF m(1)] b] by simp
    then show "\<exists>m. verified_move t a b m" using vm m(1) by blast
  next
    assume "\<exists>m. verified_move t a b m"
    then obtain m where m: "m \<in> set ms" "can_play_die (apply_pure t m) b" using vm by blast
    then have ne: "ms \<noteq> []" by auto
    have "1 \<le> max_playable (apply_pure t m) [b]" using mp_pos[OF sh'[OF m(1)] b] m(2) by simp
    then have "2 \<le> max_playable t [a, b]" using mp_attain(2)[OF ms ne, of "[b]"] m(1) by fastforce
    then show "max_playable t [a, b] = 2" using max_playable_bounds[of t "[a, b]"] by simp
  qed
qed

lemma mp_take: "max_playable s ds = n \<Longrightarrow> max_playable s (take (nat n) ds) = n"
proof (induction ds arbitrary: s n)
  case Nil
  then show ?case by simp
next
  case (Cons d ds)
  show ?case
  proof (cases "SingleCheckerMoves s d False")
    case None
    then show ?thesis using Cons.prems by simp
  next
    case (Some ms)
    show ?thesis
    proof (cases "ms = []")
      case True
      then show ?thesis using Cons.prems Some by simp
    next
      case False
      obtain m where m: "m \<in> set ms" "max_playable s (d # ds) = 1 + max_playable (apply_pure s m) ds"
        using mp_attain(1)[OF Some False] by blast
      have n1: "1 \<le> n" using m(2) Cons.prems max_playable_bounds[of "apply_pure s m" ds] by simp
      then have tk: "take (nat n) (d # ds) = d # take (nat (n - 1)) ds"
        by (cases "nat n") (auto simp: nat_diff_distrib)
      have "max_playable (apply_pure s m) ds = n - 1" using m(2) Cons.prems by simp
      then have at: "max_playable (apply_pure s m) (take (nat (n - 1)) ds) = n - 1"
        by (rule Cons.IH)
      have "max_playable s (d # take (nat (n - 1)) ds) \<le> int (length (d # take (nat (n - 1)) ds))"
        using max_playable_bounds[of s "d # take (nat (n - 1)) ds"] by blast
      moreover have "int (length (d # take (nat (n - 1)) ds)) \<le> n" using n1 by simp
      ultimately have up: "max_playable s (d # take (nat (n - 1)) ds) \<le> n" by linarith
      have "1 + max_playable (apply_pure s m) (take (nat (n - 1)) ds)
              \<le> max_playable s (d # take (nat (n - 1)) ds)"
        using mp_attain(2)[OF Some False] m(1) by blast
      then show ?thesis unfolding tk using at up by simp
    qed
  qed
qed

lemma count_all:
  "\<forall>m \<in> set xs. num m = d \<Longrightarrow> length (filter (\<lambda>m. num m = d) xs) = length xs"
  by (induction xs) auto

lemma count_two:
  "d0 \<noteq> d1 \<Longrightarrow> \<forall>m \<in> set xs. num m = d0 \<or> num m = d1 \<Longrightarrow>
   length (filter (\<lambda>m. num m = d0) xs) + length (filter (\<lambda>m. num m = (d1::int)) xs) = length xs"
  by (induction xs) auto

lemma seq_rem_doubles:
  assumes inv: "seq_inv s j q" and d: "dice s = [d, d]" "1 \<le> d" "d \<le> 6"
  shows "rem_of (seq_state q) d = rem_of s d - int j"
proof -
  have "\<forall>m \<in> set (seq_moves q). num m = d" using inv d(1) by (simp add: seq_inv_def)
  then have c: "length (filter (\<lambda>m. num m = d) (seq_moves q)) = length (seq_moves q)"
    by (rule count_all)
  have l: "length (seq_moves q) = j" using inv by (simp add: seq_inv_def)
  have "\<forall>e. 1 \<le> e \<and> e \<le> 6 \<longrightarrow>
      rem_of (seq_state q) e = rem_of s e - int (length (filter (\<lambda>m. num m = e) (seq_moves q)))"
    using inv unfolding seq_inv_def by blast
  then have "rem_of (seq_state q) d = rem_of s d - int (length (filter (\<lambda>m. num m = d) (seq_moves q)))"
    using d(2,3) by blast
  then show ?thesis unfolding c l .
qed

lemma lsm_doubles:
  assumes inv: "seq_inv s j q" and d: "dice s = [d, d]" "1 \<le> d" "d \<le> 6"
  shows "LegalSingleCheckerMoves (seq_state q) =
     (if 0 < rem_of (seq_state q) d then SingleCheckerMoves (seq_state q) d False else Some [])"
proof -
  have v: "valid_state (seq_state q)" and dt: "dice (seq_state q) = [d, d]"
    using inv d(1) by (simp_all add: seq_inv_def)
  have sh: "shape_ok (seq_state q)" using v by (simp add: valid_state_def)
  show ?thesis using LSM_plain[OF sh dt d(2,3) d(2,3)] by simp
qed

lemma dbl_stop:
  assumes dk: "dice_ok s" and d: "dice s = [d, d]" "1 \<le> d" "d \<le> 6" and r: "rem_of s d = int c"
    and P: "P_dbl s d c c seqs"
  shows "extend_all seqs [] = Some []"
proof -
  have inv: "\<forall>q \<in> set seqs. seq_inv s c q" using P by (simp add: P_dbl_def)
  have "\<forall>q \<in> set seqs. lsm (seq_state q) = []"
  proof
    fix q assume q: "q \<in> set seqs"
    then have qi: "seq_inv s c q" using inv by blast
    have "rem_of (seq_state q) d = 0" using seq_rem_doubles[OF qi d] r by simp
    then show "lsm (seq_state q) = []" using lsm_doubles[OF qi d] by (simp add: lsm_def)
  qed
  then show ?thesis using extend_all_ok[OF dk inv, of "[]"] by auto
qed

lemma dbl_step:
  assumes dk: "dice_ok s" and d: "dice s = [d, d]" "1 \<le> d" "d \<le> 6" and r: "rem_of s d = int c"
    and P: "P_dbl s d c j seqs" and lt: "j < c"
  shows "\<exists>new. extend_all seqs [] = Some new \<and> new \<noteq> [] \<and> P_dbl s d c (Suc j) new"
proof -
  have inv: "\<forall>q \<in> set seqs. seq_inv s j q" using P by (simp add: P_dbl_def)
  obtain q where q: "q \<in> set seqs"
    and mp: "max_playable (seq_state q) (replicate (c - j) d) = int (c - j)"
    using P by (auto simp: P_dbl_def)
  let ?t = "seq_state q"
  have qi: "seq_inv s j q" using inv q by blast
  have v: "valid_state ?t" using qi by (simp add: seq_inv_def)
  then have sh: "shape_ok ?t" by (simp add: valid_state_def)
  have rp: "0 < rem_of ?t d" using seq_rem_doubles[OF qi d] r lt by simp
  have rep: "replicate (c - j) d = d # replicate (c - Suc j) d"
    using lt by (cases "c - j") auto
  obtain ms where ms: "SingleCheckerMoves ?t d False = Some ms"
    using scm_ok[OF sh d(2,3)] by blast
  have ne: "ms \<noteq> []" using mp ms lt unfolding rep by auto
  obtain m where m: "m \<in> set ms"
    and me: "max_playable ?t (d # replicate (c - Suc j) d)
               = 1 + max_playable (apply_pure ?t m) (replicate (c - Suc j) d)"
    using mp_attain(1)[OF ms ne] by blast
  have mp': "max_playable (apply_pure ?t m) (replicate (c - Suc j) d) = int (c - Suc j)"
    using me mp lt unfolding rep by simp
  have l: "lsm ?t = ms" using lsm_doubles[OF qi d] rp ms by (simp add: lsm_def)
  obtain new where new: "extend_all seqs [] = Some new" "\<forall>x \<in> set new. seq_inv s (Suc j) x"
    "\<forall>q \<in> set seqs. \<forall>m \<in> set (lsm (seq_state q)). \<exists>x \<in> set new. seq_id x = seq_id (ext q m)"
    using extend_all_ok[OF dk inv, of "[]"] by auto
  obtain x where x: "x \<in> set new" "seq_id x = seq_id (ext q m)"
    using new(3) q m l by blast
  have xi: "seq_inv s (Suc j) x" using new(2) x(1) by blast
  have ok: "ok_moves s q (lsm ?t)" by (rule lsm_ok(2)[OF dk qi])
  obtain e where e: "e \<in> set (dice s)" "die_move_ok ?t e m" "0 < rem_of ?t e"
    using ok m l by (auto simp: ok_moves_def)
  have ei: "seq_inv s (Suc j) (ext q m)" by (rule AddMove_ext(2)[OF qi e(2) e(1) e(3)])
  have p1: "PositionId (seq_state x) = Some (seq_id x)" using xi by (simp add: seq_inv_def)
  have p2: "PositionId (seq_state (ext q m)) = Some (seq_id (ext q m))"
    using ei by (simp add: seq_inv_def)
  have vx: "valid_state (seq_state x)" "valid_state (seq_state (ext q m))"
    using xi ei by (simp_all add: seq_inv_def)
  have cp: "cur_player (seq_state x) = cur_player (seq_state (ext q m))"
    using xi ei by (simp add: seq_inv_def)
  have "bar (seq_state x) = bar (seq_state (ext q m)) \<and> board (seq_state x) = board (seq_state (ext q m))"
    by (rule PositionId_inj[OF vx]) (simp add: p1 p2 x(2))
  then have sp: "same_position (seq_state x) (apply_pure ?t m)"
    using cp by (simp add: same_position_def ext_def)
  have "max_playable (seq_state x) (replicate (c - Suc j) d) = int (c - Suc j)"
    using max_playable_cong[OF sp] mp' by simp
  then have "P_dbl s d c (Suc j) new" using new(2) x(1) unfolding P_dbl_def by blast
  moreover have "new \<noteq> []" using x(1) by auto
  ultimately show ?thesis using new(1) by blast
qed

lemma seq_rem_nd:
  assumes inv: "seq_inv s j q" and d: "dice s = [d0, d1]" "1 \<le> d0" "d0 \<le> 6" "1 \<le> d1" "d1 \<le> 6"
    and ne: "d0 \<noteq> d1"
  shows "rem_of (seq_state q) d0 + rem_of (seq_state q) d1 = rem_of s d0 + rem_of s d1 - int j"
    "0 \<le> rem_of (seq_state q) d0" "0 \<le> rem_of (seq_state q) d1"
    "rem_of (seq_state q) d0 \<le> rem_of s d0" "rem_of (seq_state q) d1 \<le> rem_of s d1"
proof -
  have "\<forall>m \<in> set (seq_moves q). num m = d0 \<or> num m = d1" using inv d(1) by (simp add: seq_inv_def)
  then have c: "length (filter (\<lambda>m. num m = d0) (seq_moves q))
              + length (filter (\<lambda>m. num m = d1) (seq_moves q)) = length (seq_moves q)"
    by (rule count_two[OF ne])
  have l: "length (seq_moves q) = j" using inv by (simp add: seq_inv_def)
  have a: "\<forall>e. 1 \<le> e \<and> e \<le> 6 \<longrightarrow>
      rem_of (seq_state q) e = rem_of s e - int (length (filter (\<lambda>m. num m = e) (seq_moves q)))"
    using inv unfolding seq_inv_def by blast
  have r0: "rem_of (seq_state q) d0 = rem_of s d0 - int (length (filter (\<lambda>m. num m = d0) (seq_moves q)))"
    using a d(2,3) by blast
  have r1: "rem_of (seq_state q) d1 = rem_of s d1 - int (length (filter (\<lambda>m. num m = d1) (seq_moves q)))"
    using a d(4,5) by blast
  show "rem_of (seq_state q) d0 + rem_of (seq_state q) d1 = rem_of s d0 + rem_of s d1 - int j"
    using r0 r1 c l by linarith
  have b: "\<forall>e \<in> set (dice s). 1 \<le> e \<and> e \<le> 6 \<longrightarrow> 0 \<le> rem_of (seq_state q) e"
    using inv unfolding seq_inv_def by blast
  show "0 \<le> rem_of (seq_state q) d0" "0 \<le> rem_of (seq_state q) d1"
    using b d by simp_all
  show "rem_of (seq_state q) d0 \<le> rem_of s d0" "rem_of (seq_state q) d1 \<le> rem_of s d1"
    using r0 r1 by simp_all
qed

lemma nd_stop:
  assumes dk: "dice_ok s" and d: "dice s = [d0, d1]" "1 \<le> d0" "d0 \<le> 6" "1 \<le> d1" "d1 \<le> 6"
    and ne: "d0 \<noteq> d1" and r: "rem_of s d0 + rem_of s d1 = int k"
    and P: "P_nd s k k seqs"
  shows "extend_all seqs [] = Some []"
proof -
  have inv: "\<forall>q \<in> set seqs. seq_inv s k q" using P by (simp add: P_nd_def)
  have "\<forall>q \<in> set seqs. lsm (seq_state q) = []"
  proof
    fix q assume q: "q \<in> set seqs"
    then have qi: "seq_inv s k q" using inv by blast
    note f = seq_rem_nd[OF qi d ne]
    have z: "rem_of (seq_state q) d0 = 0" "rem_of (seq_state q) d1 = 0"
      using f(1,2,3) r by simp_all
    have v: "valid_state (seq_state q)" and dt: "dice (seq_state q) = [d0, d1]"
      using qi d(1) by (simp_all add: seq_inv_def)
    have sh: "shape_ok (seq_state q)" using v by (simp add: valid_state_def)
    have "LegalSingleCheckerMoves (seq_state q) = Some []"
      using LSM_plain[OF sh dt d(2-5)] z by simp
    then show "lsm (seq_state q) = []" by (simp add: lsm_def)
  qed
  then show ?thesis using extend_all_ok[OF dk inv, of "[]"] by auto
qed

lemma verified_next:
  assumes v: "valid_state t" and d: "dice t = [d0, d1]" "1 \<le> d0" "d0 \<le> 6" "1 \<le> d1" "d1 \<le> 6"
    and ne: "d0 \<noteq> d1" and ab: "(a = d0 \<and> b = d1) \<or> (a = d1 \<and> b = d0)"
    and r: "rem_of t a = 1" "rem_of t b = 1" and vm: "verified_move t a b m"
  shows "lsm (apply_pure t m) \<noteq> []"
proof -
  have sh: "shape_ok t" using v by (simp add: valid_state_def)
  have a: "1 \<le> a" "a \<le> 6" and b: "1 \<le> b" "b \<le> 6" and nab: "a \<noteq> b" using ab d ne by auto
  have dm: "die_move_ok t a m" by (rule verified_move_ok[OF sh a vm])
  then have pm: "playable_move t m" and nm: "num m = a" by (simp_all add: die_move_ok_def)
  have cp: "can_play_die (apply_pure t m) b" using vm by (simp add: verified_move_def)
  let ?t = "apply_pure t m"
  have v': "valid_state ?t" by (rule valid_apply[OF v pm])
  then have sh': "shape_ok ?t" by (simp add: valid_state_def)
  have n: "1 \<le> num m" "num m \<le> 6" using nm a by simp_all
  have ra: "rem_of ?t a = 0" using rem_of_apply[OF sh n a] r(1) nm by simp
  have rb: "rem_of ?t b = 1" using rem_of_apply[OF sh n b] r(2) nm nab by simp
  have dt: "dice ?t = [d0, d1]" using d(1) by simp
  obtain ms where ms: "SingleCheckerMoves ?t b False = Some ms"
    using scm_ok[OF sh' b] by blast
  then have mne: "ms \<noteq> []" using cp by (simp add: can_play_die_def)
  have nv: "\<not> (d0 \<noteq> d1 \<and> 0 < rem_of ?t d0 \<and> 0 < rem_of ?t d1)"
    using ab ra by auto
  have "LegalSingleCheckerMoves ?t = Some ms"
    unfolding LSM_plain[OF sh' dt d(2-5) nv] using ab ra rb ms by auto
  then show ?thesis using mne by (simp add: lsm_def)
qed

lemma nd_step:
  assumes dk: "dice_ok s" and d: "dice s = [d0, d1]" "1 \<le> d0" "d0 \<le> 6" "1 \<le> d1" "d1 \<le> 6"
    and ne: "d0 \<noteq> d1" and r: "rem_of s d0 + rem_of s d1 = int k"
    and r1: "rem_of s d0 \<le> 1" "rem_of s d1 \<le> 1"
    and P: "P_nd s k j seqs" and lt: "j < k"
  shows "\<exists>new. extend_all seqs [] = Some new \<and> new \<noteq> [] \<and> P_nd s k (Suc j) new"
proof -
  have inv: "\<forall>q \<in> set seqs. seq_inv s j q" using P by (simp add: P_nd_def)
  have live: "\<forall>q \<in> set seqs. lsm (seq_state q) \<noteq> []" using P lt by (simp add: P_nd_def)
  have sne: "seqs \<noteq> []" using P by (simp add: P_nd_def)
  obtain new where new: "extend_all seqs [] = Some new" "\<forall>x \<in> set new. seq_inv s (Suc j) x"
    "\<forall>x \<in> set new. \<exists>q \<in> set seqs. \<exists>m \<in> set (lsm (seq_state q)). x = ext q m"
    "new = [] \<longleftrightarrow> (\<forall>q \<in> set seqs. lsm (seq_state q) = [])"
    using extend_all_ok[OF dk inv, of "[]"] by auto
  have nne: "new \<noteq> []"
  proof -
    obtain q where "q \<in> set seqs" using sne by (cases seqs) auto
    then show ?thesis using new(4) live by blast
  qed
  have "\<forall>x \<in> set new. Suc j < k \<longrightarrow> lsm (seq_state x) \<noteq> []"
  proof (intro ballI impI)
    fix x assume x: "x \<in> set new" and sj: "Suc j < k"
    obtain q m where q: "q \<in> set seqs" and m: "m \<in> set (lsm (seq_state q))" and xe: "x = ext q m"
      using new(3) x by blast
    let ?t = "seq_state q"
    have qi: "seq_inv s j q" using inv q by blast
    note f = seq_rem_nd[OF qi d ne]
    have k2: "rem_of s d0 = 1" "rem_of s d1 = 1" "j = 0" using r r1 sj by auto
    have rt: "rem_of ?t d0 = 1" "rem_of ?t d1 = 1" using f k2 by auto
    have v: "valid_state ?t" and dt: "dice ?t = [d0, d1]"
      using qi d(1) by (simp_all add: seq_inv_def)
    have l: "LegalSingleCheckerMoves ?t = Some (lsm ?t)" by (rule lsm_ok(1)[OF dk qi])
    have "verified_move ?t d0 d1 m \<or> verified_move ?t d1 d0 m"
      using LSM_verify[OF v dt d(2-5) ne] rt l m by auto
    then have "lsm (apply_pure ?t m) \<noteq> []"
    proof
      assume "verified_move ?t d0 d1 m"
      then show ?thesis using verified_next[OF v dt d(2-5) ne _ rt(1) rt(2)] by blast
    next
      assume "verified_move ?t d1 d0 m"
      then show ?thesis using verified_next[OF v dt d(2-5) ne _ rt(2) rt(1)] by blast
    qed
    then show "lsm (seq_state x) \<noteq> []" by (simp add: xe ext_def)
  qed
  then have "P_nd s k (Suc j) new" using new(2) nne by (simp add: P_nd_def)
  then show ?thesis using new(1) nne by blast
qed

lemma LCMS_alt:
  "LegalCheckerMoveSequences s =
     (case extend_all [q0 s] [] of None \<Rightarrow> None
      | Some new \<Rightarrow> if new = [] then Some [] else seq_rounds 3 new)"
proof (cases "LegalSingleCheckerMoves s")
  case None
  then show ?thesis by (simp add: LegalCheckerMoveSequences_def q0_def)
next
  case (Some ms)
  show ?thesis
  proof (cases "extend_seq (q0 s) ms []")
    case None
    then show ?thesis using Some by (simp add: LegalCheckerMoveSequences_def q0_def)
  next
    case (Some new)
    then show ?thesis using \<open>LegalSingleCheckerMoves s = Some ms\<close>
      by (simp add: LegalCheckerMoveSequences_def q0_def kNumMovesPerCheckerSequence_def)
  qed
qed

lemma seq_rounds_4:
  "seq_rounds 4 seqs =
     (case extend_all seqs [] of None \<Rightarrow> None
      | Some new \<Rightarrow> if new = [] then Some seqs else seq_rounds 3 new)"
proof -
  have e: "(4::nat) = Suc 3" by simp
  show ?thesis unfolding e seq_rounds.simps by (cases "extend_all seqs []") simp_all
qed

lemma LCMS_general:
  assumes step: "\<And>j seqs. P j seqs \<Longrightarrow> j < k \<Longrightarrow>
            \<exists>new. extend_all seqs [] = Some new \<and> new \<noteq> [] \<and> P (Suc j) new"
    and stop: "\<And>seqs. P k seqs \<Longrightarrow> extend_all seqs [] = Some []"
    and inv: "\<And>seqs. P k seqs \<Longrightarrow> seqs \<noteq> [] \<and> (\<forall>q \<in> set seqs. seq_inv s k q)"
    and base: "P 0 [q0 s]" and k4: "k \<le> 4"
  shows "\<exists>r. LegalCheckerMoveSequences s = Some r \<and> (\<forall>q \<in> set r. seq_inv s k q)
           \<and> (r = [] \<longleftrightarrow> k = 0)"
proof (cases "k = 0")
  case True
  have "extend_all [q0 s] [] = Some []" using stop base True by blast
  then show ?thesis using True by (simp add: LCMS_alt)
next
  case False
  obtain new where new: "extend_all [q0 s] [] = Some new" "new \<noteq> []"
    using step[OF base] False by blast
  have e: "LegalCheckerMoveSequences s = seq_rounds 4 [q0 s]"
    using new by (simp add: LCMS_alt seq_rounds_4)
  obtain r where r: "seq_rounds 4 [q0 s] = Some r" "P k r"
    using seq_rounds_general[of P k 0 "[q0 s]" 4, OF step stop base] k4 by auto
  show ?thesis using e r inv[OF r(2)] False by simp
qed

lemma seq_inv_q0:
  assumes "valid_state s" "\<forall>d \<in> set (dice s). 0 \<le> rem_of s d"
  shows "seq_inv s 0 (q0 s)"
  using assms by (simp add: seq_inv_def q0_def)

lemma level_nd:
  assumes "hi_die s \<noteq> lo_die s"
  shows "level_spec s = kTwoDice \<Longrightarrow>
           max_playable s [hi_die s, lo_die s] = 2 \<or> max_playable s [lo_die s, hi_die s] = 2"
    "level_spec s = kHighDie \<Longrightarrow> max_playable s [hi_die s, lo_die s] = 1"
    "level_spec s = kLowDie \<Longrightarrow> max_playable s [lo_die s, hi_die s] = 1"
    "level_spec s \<noteq> kThreeDice" "level_spec s \<noteq> kFourDice"
  using assms by (auto simp: level_spec_def Let_def split: if_splits)

lemma dice_hi_lo:
  assumes "dice_ok s"
  shows "dice s = [hi_die s, lo_die s] \<or> dice s = [lo_die s, hi_die s]"
proof -
  note f = dice_ok_facts[OF assms]
  show ?thesis using f(9) by (auto simp: hi_die_def lo_die_def max_def min_def)
qed

lemma lsm_one_die:
  assumes v: "valid_state t" and d: "dice t = [a, b] \<or> dice t = [b, a]"
    and r: "1 \<le> a" "a \<le> 6" "1 \<le> b" "b \<le> 6" and ne: "a \<noteq> b"
    and ra: "0 < rem_of t a" and rb: "rem_of t b \<le> 0"
  shows "LegalSingleCheckerMoves t = SingleCheckerMoves t a False"
proof -
  have sh: "shape_ok t" using v by (simp add: valid_state_def)
  show ?thesis using d
  proof
    assume dt: "dice t = [a, b]"
    show ?thesis using LSM_plain[OF sh dt r] ra rb by simp
  next
    assume dt: "dice t = [b, a]"
    show ?thesis using LSM_plain[OF sh dt r(3,4,1,2)] ra rb by simp
  qed
qed

lemma lsm_two_dice:
  assumes v: "valid_state t" and d: "dice t = [a, b] \<or> dice t = [b, a]"
    and r: "1 \<le> a" "a \<le> 6" "1 \<le> b" "b \<le> 6" and ne: "a \<noteq> b"
    and ra: "0 < rem_of t a" and rb: "0 < rem_of t b"
    and ex: "\<exists>m. verified_move t a b m \<or> verified_move t b a m"
  shows "lsm t \<noteq> []"
proof -
  show ?thesis using d
  proof
    assume dt: "dice t = [a, b]"
    show ?thesis using LSM_verify[OF v dt r ne ra rb] ex by (auto simp: lsm_def)
  next
    assume dt: "dice t = [b, a]"
    have ne': "b \<noteq> a" using ne by simp
    show ?thesis using LSM_verify[OF v dt r(3,4,1,2) ne' rb ra] ex by (auto simp: lsm_def)
  qed
qed

lemma nd_base:
  assumes p: "post_roll s" and ne: "hi_die s \<noteq> lo_die s" and k: "0 < dice_count (level_spec s)"
  shows "lsm s \<noteq> []"
proof -
  have v: "valid_state s" and dk: "dice_ok s" using p by (simp_all add: post_roll_def)
  have sh: "shape_ok s" using v by (simp add: valid_state_def)
  note f = dice_ok_facts[OF dk]
  note l = level_nd[OF ne]
  have rh: "rem_of s (hi_die s) = (if level_spec s = kHighDie \<or> level_spec s = kTwoDice then 1 else 0)"
    and rl: "rem_of s (lo_die s) = (if level_spec s = kLowDie \<or> level_spec s = kTwoDice then 1 else 0)"
    using p ne by (simp_all add: post_roll_def)
  note d = dice_hi_lo[OF dk]
  have d': "dice s = [lo_die s, hi_die s] \<or> dice s = [hi_die s, lo_die s]" using d by blast
  have ne': "lo_die s \<noteq> hi_die s" using ne by simp
  consider "level_spec s = kTwoDice" | "level_spec s = kHighDie" | "level_spec s = kLowDie"
    using k l(4,5) by (cases "level_spec s") (simp_all add: dice_count_def)
  then show ?thesis
  proof cases
    case 1
    have "(\<exists>m. verified_move s (hi_die s) (lo_die s) m) \<or> (\<exists>m. verified_move s (lo_die s) (hi_die s) m)"
      using l(1)[OF 1] mp_two[OF v f(4,5,6,7)] mp_two[OF v f(6,7,4,5)] by blast
    then have ex: "\<exists>m. verified_move s (hi_die s) (lo_die s) m \<or> verified_move s (lo_die s) (hi_die s) m"
      by blast
    show ?thesis
      by (rule lsm_two_dice[OF v d f(4,5,6,7) ne _ _ ex]) (simp_all add: rh rl 1)
  next
    case 2
    have "1 \<le> max_playable s [hi_die s, lo_die s]" using l(2)[OF 2] by simp
    then have c: "can_play_die s (hi_die s)" using mp_pos[OF sh f(4,5)] by blast
    have "LegalSingleCheckerMoves s = SingleCheckerMoves s (hi_die s) False"
      by (rule lsm_one_die[OF v d f(4,5,6,7) ne]) (simp_all add: rh rl 2)
    then show ?thesis using c scm_ok[OF sh f(4,5), of False] by (auto simp: lsm_def can_play_die_def)
  next
    case 3
    have "1 \<le> max_playable s [lo_die s, hi_die s]" using l(3)[OF 3] by simp
    then have c: "can_play_die s (lo_die s)" using mp_pos[OF sh f(6,7)] by blast
    have "LegalSingleCheckerMoves s = SingleCheckerMoves s (lo_die s) False"
      by (rule lsm_one_die[OF v d' f(6,7,4,5) ne']) (simp_all add: rh rl 3)
    then show ?thesis using c scm_ok[OF sh f(6,7), of False] by (auto simp: lsm_def can_play_die_def)
  qed
qed

lemma LCMS_level:
  assumes p: "post_roll s"
  shows "\<exists>r. LegalCheckerMoveSequences s = Some r
           \<and> (\<forall>q \<in> set r. seq_inv s (dice_count (level_spec s)) q)
           \<and> (r = [] \<longleftrightarrow> dice_count (level_spec s) = 0)"
proof -
  have v: "valid_state s" and dk: "dice_ok s" using p by (simp_all add: post_roll_def)
  note f = dice_ok_facts[OF dk]
  define k where "k = dice_count (level_spec s)"
  have k4: "k \<le> 4" unfolding k_def by (cases "level_spec s") (simp_all add: dice_count_def)
  show ?thesis
  proof (cases "hi_die s = lo_die s")
    case True
    define d where "d = hi_die s"
    have dd: "dice s = [d, d]" using dice_hi_lo[OF dk] True by (simp add: d_def)
    have dr: "1 \<le> d" "d \<le> 6" using f by (simp_all add: d_def)
    have r: "rem_of s d = int k" using p True by (simp add: post_roll_def d_def k_def)
    have q: "seq_inv s 0 (q0 s)" by (rule seq_inv_q0[OF v]) (simp add: dd r)
    have "max_playable s [d, d, d, d] = int k"
      using level_spec_doubles[OF True] by (simp add: d_def k_def)
    then have "max_playable s (take (nat (int k)) [d, d, d, d]) = int k" by (rule mp_take)
    moreover have "take k [d, d, d, d] = replicate k d"
      using k4 by (simp add: take_Cons' numeral_eq_Suc less_Suc_eq_le) (auto simp: le_Suc_eq)
    ultimately have m0: "max_playable s (replicate k d) = int k" by simp
    have base: "P_dbl s d k 0 [q0 s]" using q m0 by (simp add: P_dbl_def q0_def)
    have "\<exists>r. LegalCheckerMoveSequences s = Some r \<and> (\<forall>q \<in> set r. seq_inv s k q)
           \<and> (r = [] \<longleftrightarrow> k = 0)"
    proof (rule LCMS_general[of "P_dbl s d k" k, OF _ _ _ base k4])
      show "\<And>j seqs. P_dbl s d k j seqs \<Longrightarrow> j < k \<Longrightarrow>
          \<exists>new. extend_all seqs [] = Some new \<and> new \<noteq> [] \<and> P_dbl s d k (Suc j) new"
        by (rule dbl_step[OF dk dd dr r])
      show "\<And>seqs. P_dbl s d k k seqs \<Longrightarrow> extend_all seqs [] = Some []"
        by (rule dbl_stop[OF dk dd dr r])
      show "\<And>seqs. P_dbl s d k k seqs \<Longrightarrow> seqs \<noteq> [] \<and> (\<forall>q \<in> set seqs. seq_inv s k q)"
        by (auto simp: P_dbl_def)
    qed
    then show ?thesis by (simp add: k_def)
  next
    case False
    obtain d0 d1 where dd: "dice s = [d0, d1]" and dr: "1 \<le> d0" "d0 \<le> 6" "1 \<le> d1" "d1 \<le> 6"
      and hl: "(d0 = hi_die s \<and> d1 = lo_die s) \<or> (d0 = lo_die s \<and> d1 = hi_die s)"
      using dice_hi_lo[OF dk] f(4-7) by auto
    have ne: "d0 \<noteq> d1" using hl False by auto
    note l = level_nd[OF False]
    have rh: "rem_of s (hi_die s) = (if level_spec s = kHighDie \<or> level_spec s = kTwoDice then 1 else 0)"
      and rl: "rem_of s (lo_die s) = (if level_spec s = kLowDie \<or> level_spec s = kTwoDice then 1 else 0)"
      using p False by (simp_all add: post_roll_def)
    have "rem_of s (hi_die s) + rem_of s (lo_die s) = int k"
      unfolding rh rl k_def using l(4,5) by (cases "level_spec s") (simp_all add: dice_count_def)
    then have r: "rem_of s d0 + rem_of s d1 = int k" using hl by auto
    have r1: "rem_of s d0 \<le> 1" "rem_of s d1 \<le> 1" "0 \<le> rem_of s d0" "0 \<le> rem_of s d1"
      using hl rh rl by auto
    have q: "seq_inv s 0 (q0 s)" by (rule seq_inv_q0[OF v]) (simp add: dd r1)
    have "0 < k \<longrightarrow> lsm s \<noteq> []" using nd_base[OF p False] by (simp add: k_def)
    then have base: "P_nd s k 0 [q0 s]" using q by (simp add: P_nd_def q0_def)
    have "\<exists>r. LegalCheckerMoveSequences s = Some r \<and> (\<forall>q \<in> set r. seq_inv s k q)
           \<and> (r = [] \<longleftrightarrow> k = 0)"
    proof (rule LCMS_general[of "P_nd s k" k, OF _ _ _ base k4])
      show "\<And>j seqs. P_nd s k j seqs \<Longrightarrow> j < k \<Longrightarrow>
          \<exists>new. extend_all seqs [] = Some new \<and> new \<noteq> [] \<and> P_nd s k (Suc j) new"
        by (rule nd_step[OF dk dd dr ne r r1(1,2)])
      show "\<And>seqs. P_nd s k k seqs \<Longrightarrow> extend_all seqs [] = Some []"
        by (rule nd_stop[OF dk dd dr ne r])
      show "\<And>seqs. P_nd s k k seqs \<Longrightarrow> seqs \<noteq> [] \<and> (\<forall>q \<in> set seqs. seq_inv s k q)"
        by (auto simp: P_nd_def)
    qed
    then show ?thesis by (simp add: k_def)
  qed
qed

subsection \<open>Backgammon: actions\<close>

lemma CurrentPlayer_Some:
  "length (scores s) = 2 \<Longrightarrow> \<exists>cp. CurrentPlayer s = Some cp"
  by (simp add: CurrentPlayer_def IsTerminal_def nth_chk_def kXPlayerId_def kOPlayerId_def
      split: if_splits)

lemma single_roundtrip:
  assumes "legal_pos_num m" "length (scores s) = 2"
  shows "\<exists>a. SingleCheckerMoveToSpielMove pco s m = Some a \<and> 1 \<le> a \<and> a \<le> 150
           \<and> SpielMoveToSingleCheckerMove pco s a = Some (clear_hit m)"
proof -
  obtain cp where cp: "CurrentPlayer s = Some cp"
    using CurrentPlayer_Some[OF assms(2)] by blast
  have r: "\<And>p n. 0 \<le> p \<Longrightarrow> 1 \<le> n \<Longrightarrow> n \<le> 6 \<Longrightarrow> (p * 6 + n - 1) div 6 = (p::int)
              \<and> (p * 6 + n - 1) mod 6 + 1 = n"
  proof -
    fix p n :: int assume a: "0 \<le> p" "1 \<le> n" "n \<le> 6"
    have e: "p * 6 + n - 1 = (n - 1) + 6 * p" by simp
    show "(p * 6 + n - 1) div 6 = p \<and> (p * 6 + n - 1) mod 6 + 1 = n"
      unfolding e using a by simp
  qed
  show ?thesis
    using assms(1) cp r[of "pos m" "num m"] r[of "23 - pos m" "num m"] r[of 24 "num m"]
    by (cases m)
       (auto simp: legal_pos_num_def SingleCheckerMoveToSpielMove_def
        SpielMoveToSingleCheckerMove_def clear_hit_def kBarPos_def EncodedBarMove_def
        kNumDiceOutcomes_def kNumSingleCheckerActions_def kNumPoints_def Let_def)
qed

lemma enc_props:
  assumes "legal_pos_num m" "length (scores s) = 2"
  shows "SingleCheckerMoveToSpielMove pco s m = Some (enc pco s m)"
    "1 \<le> enc pco s m" "enc pco s m \<le> 150"
    "SpielMoveToSingleCheckerMove pco s (enc pco s m) = Some (clear_hit m)"
  using single_roundtrip[OF assms, of pco] by (auto simp: enc_def)

lemma encode_loop:
  assumes "\<forall>m \<in> set moves. legal_pos_num m" "length (scores s) = 2"
    and "0 \<le> a" "a < 151 ^ j" "j + length moves \<le> 4"
  shows "\<exists>b. CheckerMovesToSpielMove_loop pco s moves a
            = Some (foldl (\<lambda>x m. x * 151 + enc pco s m) a moves)
         \<and> 0 \<le> foldl (\<lambda>x m. x * 151 + enc pco s m) a moves
         \<and> foldl (\<lambda>x m. x * 151 + enc pco s m) a moves < 151 ^ (j + length moves)"
  using assms(1,3-5)
proof (induction moves arbitrary: a j)
  case Nil
  then show ?case by simp
next
  case (Cons m moves)
  have lm: "legal_pos_num m" using Cons.prems(1) by simp
  note e = enc_props[OF lm assms(2), of pco]
  let ?a' = "a * 151 + enc pco s m"
  have nn: "0 \<le> ?a'" using Cons.prems(2) e(2) by simp
  have "a + 1 \<le> 151 ^ j" using Cons.prems(3) by simp
  then have "(a + 1) * 151 \<le> 151 ^ j * 151" by simp
  then have lt: "?a' < 151 ^ Suc j" using e(3) by (simp add: algebra_simps)
  have j4: "Suc j \<le> 4" using Cons.prems(4) by simp
  have "(151::int) ^ Suc j \<le> 151 ^ 4" using j4 by (intro power_increasing) auto
  then have small: "\<not> ?a' > INT64_MAX" using lt by (simp add: INT64_MAX_def)
  have ih: "\<exists>b. CheckerMovesToSpielMove_loop pco s moves ?a'
            = Some (foldl (\<lambda>x m. x * 151 + enc pco s m) ?a' moves)
         \<and> 0 \<le> foldl (\<lambda>x m. x * 151 + enc pco s m) ?a' moves
         \<and> foldl (\<lambda>x m. x * 151 + enc pco s m) ?a' moves < 151 ^ (Suc j + length moves)"
    using Cons.IH[of ?a' "Suc j"] Cons.prems(1,4) nn lt by simp
  show ?case
    using ih small e(1)
    by (simp add: kNumSingleCheckerActions_def kNumPoints_def kNumDiceOutcomes_def Let_def)
qed

lemma decode_loop:
  assumes "\<forall>m \<in> set moves. legal_pos_num m" "length (scores s) = 2"
  shows "SpielMoveToCheckerMoves_loop pco s (foldl (\<lambda>x m. x * 151 + enc pco s m) 0 moves) acc
           = Some (map clear_hit moves @ acc)
         \<and> 0 \<le> foldl (\<lambda>x m. x * 151 + enc pco s m) 0 moves"
  using assms(1)
proof (induction moves arbitrary: acc rule: rev_induct)
  case Nil
  then show ?case by (simp add: SpielMoveToCheckerMoves_loop.simps)
next
  case (snoc m moves)
  have lm: "legal_pos_num m" using snoc.prems by simp
  note e = enc_props[OF lm assms(2), of pco]
  let ?b = "foldl (\<lambda>x m. x * 151 + enc pco s m) 0 moves"
  have ih: "SpielMoveToCheckerMoves_loop pco s ?b (clear_hit m # acc)
              = Some (map clear_hit moves @ clear_hit m # acc)" and nn: "0 \<le> ?b"
    using snoc.IH[of "clear_hit m # acc"] snoc.prems by auto
  let ?a = "?b * 151 + enc pco s m"
  have pos: "?a > 0" using nn e(2) by simp
  have m: "?a mod 151 = enc pco s m" using e(2,3) by simp
  have d: "?a div 151 = ?b" using e(2,3) by simp
  show ?case
    apply (simp del: foldl_append add: foldl_append[where ys="[m]", simplified])
    apply (subst SpielMoveToCheckerMoves_loop.simps)
    using pos m d e(4) ih nn
    by (simp add: kNumSingleCheckerActions_def kNumPoints_def kNumDiceOutcomes_def)
qed

lemma ipow_power: "ipow a n = a ^ n"
  by (induction n) auto

lemma roundtrip:
  assumes "moves \<noteq> []" "length moves \<le> 4" "\<forall>m \<in> set moves. legal_pos_num m"
    and "length (scores s) = 2"
  shows "\<exists>a. CheckerMovesToSpielMove pco s moves = Some a \<and> 0 < a \<and> a \<le> kNumCheckerActions
           \<and> SpielMoveToCheckerMoves pco s a = Some (map clear_hit moves)"
proof -
  let ?a = "foldl (\<lambda>x m. x * 151 + enc pco s m) 0 moves"
  have e: "CheckerMovesToSpielMove pco s moves = Some ?a" and lt: "?a < 151 ^ length moves"
    using encode_loop[OF assms(3,4), of 0 0 pco] assms(2)
    by (auto simp: CheckerMovesToSpielMove_def)
  have d: "SpielMoveToCheckerMoves_loop pco s ?a [] = Some (map clear_hit moves)"
    using decode_loop[OF assms(3,4), of pco "[]"] by simp
  obtain ms m where sn: "moves = ms @ [m]" using assms(1) by (cases moves rule: rev_cases) auto
  have lm: "legal_pos_num m" using assms(3) sn by simp
  have "0 \<le> foldl (\<lambda>x m. x * 151 + enc pco s m) 0 ms"
    using decode_loop[of ms s pco "[]"] assms(3,4) sn by simp
  then have gt: "?a > 0" using enc_props(2)[OF lm assms(4), of pco] sn by simp
  have "(151::int) ^ length moves \<le> 151 ^ 4" using assms(2) by (intro power_increasing) auto
  then have le: "?a \<le> kNumCheckerActions" using lt
    by (simp add: kNumCheckerActions_def ipow_power kNumSingleCheckerActions_def kNumPoints_def
         kNumDiceOutcomes_def kNumMovesPerCheckerSequence_def)
  show ?thesis
    using e d gt le assms(2)
    by (simp add: SpielMoveToCheckerMoves_def kNumMovesPerCheckerSequence_def)
qed

lemma count_points_eq:
  assumes "0 \<le> p" "p < int (length bd)"
    and "\<forall>i \<in> set idx. i < length (bd ! nat p) \<and> 0 \<le> bd ! nat p ! i"
  shows "count_points bd p idx tot = Some (tot + (\<Sum>i\<leftarrow>idx. bd ! nat p ! i))"
  using assms(3)
proof (induction idx arbitrary: tot)
  case Nil
  then show ?case by simp
next
  case (Cons i idx)
  have r: "nth_chk2 bd p (int i) = Some (bd ! nat p ! i)"
    using nth_chk2_Some[of p bd "int i"] assms(1,2) Cons.prems by simp
  show ?case using r Cons by (simp add: algebra_simps)
qed

lemma CountTotalCheckers_valid:
  assumes v: "valid_state s" and p: "p = 0 \<or> p = 1"
  shows "CountTotalCheckers s p = Some (NumCheckersPerPlayer (hyper_backgammon s))"
proof -
  have sh: "shape_ok s" using v by (simp add: valid_state_def)
  have l: "length (board s) = 2" "length (board s ! nat p) = 24" "length (bar s) = 2"
      "length (scores s) = 2"
    using sh p by (auto simp: shape_ok_def)
  have vp: "0 \<le> bar s ! nat p" "0 \<le> scores s ! nat p"
     "total_checkers s p = NumCheckersPerPlayer (hyper_backgammon s)"
     "\<forall>i \<in> {0..23}. 0 \<le> pt s p i"
    using v p unfolding valid_state_def by auto
  have nn: "\<forall>i \<in> set [0..<24]. i < length (board s ! nat p) \<and> 0 \<le> board s ! nat p ! i"
  proof
    fix i assume "i \<in> set [0..<24]"
    then have i: "i < 24" by simp
    then have "int i \<in> {0..23}" by simp
    then have "0 \<le> pt s p (int i)" using vp(4) by blast
    then show "i < length (board s ! nat p) \<and> 0 \<le> board s ! nat p ! i"
      using i l(2) by (simp add: pt_def)
  qed
  have c: "count_points (board s) p [0..<24] 0 = Some (0 + (\<Sum>i\<leftarrow>[0..<24]. board s ! nat p ! i))"
    by (rule count_points_eq[OF _ _ nn]) (use p l in auto)
  have "map (\<lambda>i. board s ! nat p ! i) [0..<length (board s ! nat p)] = board s ! nat p"
    by (rule map_nth)
  then have "(\<Sum>i\<leftarrow>[0..<24]. board s ! nat p ! i) = sum_list (board s ! nat p)"
    unfolding l(2) by simp
  then have c': "count_points (board s) p [0..<24] 0 = Some (sum_list (board s ! nat p))"
    using c by simp
  have b: "nth_chk (bar s) p = Some (bar s ! nat p)" "nth_chk (scores s) p = Some (scores s ! nat p)"
    using p l by auto
  show ?thesis
    unfolding CountTotalCheckers_def c' b using vp(1,2,3)
    by (simp add: total_checkers_def)
qed

lemma IsTerminal_Some:
  assumes "length (scores s) = 2"
  shows "\<exists>b. IsTerminal s = Some b"
  using assms by (auto simp: IsTerminal_def kXPlayerId_def kOPlayerId_def)

lemma IsChanceNode_player:
  assumes "length (scores s) = 2" "cur_player s = 0 \<or> cur_player s = 1"
  shows "IsChanceNode s = Some False"
proof -
  obtain b where "IsTerminal s = Some b" using IsTerminal_Some[OF assms(1)] by blast
  then show ?thesis using assms(2)
    by (auto simp: IsChanceNode_def CurrentPlayer_def kTerminalPlayerId_def kChancePlayerId_def)
qed

lemma encode_seqs_ok:
  assumes sc: "length (scores s) = 2"
    and q: "\<forall>q \<in> set seqs. seq_moves q \<noteq> [] \<and> length (seq_moves q) \<le> 4
                \<and> (\<forall>m \<in> set (seq_moves q). legal_pos_num m)"
  shows "\<exists>acts. encode_seqs pco s seqs = Some acts
     \<and> (\<forall>a \<in> set acts. \<exists>q \<in> set seqs. CheckerMovesToSpielMove pco s (seq_moves q) = Some a)
     \<and> (seqs \<noteq> [] \<longrightarrow> acts \<noteq> [])"
  using q
proof (induction seqs)
  case Nil
  then show ?case by simp
next
  case (Cons q seqs)
  obtain a where a: "CheckerMovesToSpielMove pco s (seq_moves q) = Some a" "0 < a"
    using roundtrip[of "seq_moves q" s pco] Cons.prems sc by auto
  obtain acts where acts: "encode_seqs pco s seqs = Some acts"
    "\<forall>a \<in> set acts. \<exists>q \<in> set seqs. CheckerMovesToSpielMove pco s (seq_moves q) = Some a"
    using Cons by auto
  have "encode_seqs pco s (q # seqs) = Some (a # acts)" using a acts(1) by simp
  then show ?case using a(1) acts(2) by auto
qed

lemma hi_lo_remaining [simp]:
  "hi_die (s\<lparr>remaining_dice := rd\<rparr>) = hi_die s" "lo_die (s\<lparr>remaining_dice := rd\<rparr>) = lo_die s"
  by (simp_all add: hi_die_def lo_die_def)

lemma post_roll_init:
  assumes d: "dice_ok s0" and v: "valid_state (s0\<lparr>remaining_dice := replicate 6 0\<rparr>)"
  shows "\<exists>rd. InitRemainingDice s0 = Some (s0\<lparr>remaining_dice := rd\<rparr>)
            \<and> post_roll (s0\<lparr>remaining_dice := rd\<rparr>)"
proof -
  obtain rd where rd: "InitRemainingDice s0 = Some (s0\<lparr>remaining_dice := rd\<rparr>)" "length rd = 6"
     "hi_die s0 = lo_die s0 \<longrightarrow> rd ! nat (hi_die s0 - 1) = int (dice_count (level_spec s0))"
     "hi_die s0 \<noteq> lo_die s0 \<longrightarrow>
          rd ! nat (hi_die s0 - 1) = (if level_spec s0 = kHighDie \<or> level_spec s0 = kTwoDice then 1 else 0)
        \<and> rd ! nat (lo_die s0 - 1) = (if level_spec s0 = kLowDie \<or> level_spec s0 = kTwoDice then 1 else 0)"
    using InitRemainingDice_eq[OF d v] by blast
  have v': "valid_state (s0\<lparr>remaining_dice := rd\<rparr>)"
    by (rule valid_state_remaining[OF _ rd(2) v]) simp
  have "post_roll (s0\<lparr>remaining_dice := rd\<rparr>)"
    unfolding post_roll_def using v' d rd(3,4) by (simp add: rem_of_def)
  then show ?thesis using rd(1) by blast
qed

lemma high_die_only:
  assumes p: "post_roll s" and h: "level_spec s = kHighDie" and q: "seq_inv s j q"
  shows "\<forall>m \<in> set (seq_moves q). num m = hi_die s"
proof
  fix m assume m: "m \<in> set (seq_moves q)"
  have dk: "dice_ok s" using p by (simp add: post_roll_def)
  note f = dice_ok_facts[OF dk]
  have nm: "num m \<in> set (dice s)" using q m by (simp add: seq_inv_def)
  show "num m = hi_die s"
  proof (cases "hi_die s = lo_die s")
    case True
    then show ?thesis using nm dice_hi_lo[OF dk] by auto
  next
    case False
    have rl: "rem_of s (lo_die s) = 0" using p False h by (simp add: post_roll_def)
    have a: "\<forall>e. 1 \<le> e \<and> e \<le> 6 \<longrightarrow>
      rem_of (seq_state q) e = rem_of s e - int (length (filter (\<lambda>m. num m = e) (seq_moves q)))"
      using q unfolding seq_inv_def by blast
    have b: "\<forall>e \<in> set (dice s). 1 \<le> e \<and> e \<le> 6 \<longrightarrow> 0 \<le> rem_of (seq_state q) e"
      using q unfolding seq_inv_def by blast
    have lo: "lo_die s \<in> set (dice s)" using dice_hi_lo[OF dk] by auto
    have "rem_of (seq_state q) (lo_die s)
            = rem_of s (lo_die s) - int (length (filter (\<lambda>m. num m = lo_die s) (seq_moves q)))"
      using a f(6,7) by blast
    moreover have "0 \<le> rem_of (seq_state q) (lo_die s)" using b lo f(6,7) by blast
    ultimately have "filter (\<lambda>m. num m = lo_die s) (seq_moves q) = []" using rl by simp
    then have "num m \<noteq> lo_die s" using m by (auto simp: filter_empty_conv)
    then show ?thesis using nm dice_hi_lo[OF dk] by auto
  qed
qed

lemma LegalActions_level:
  assumes p: "post_roll s"
  shows "\<exists>acts. LegalActions pco s = Some acts
     \<and> (\<forall>a \<in> set acts. a = kEndTurnAction \<or> plays_level pco s (level_spec s) a)"
proof -
  have v: "valid_state s" and dk: "dice_ok s" using p by (simp_all add: post_roll_def)
  have sh: "shape_ok s" using v by (simp add: valid_state_def)
  have sc: "length (scores s) = 2" and cp: "cur_player s = 0 \<or> cur_player s = 1"
    using sh by (simp_all add: shape_ok_def)
  define k where "k = dice_count (level_spec s)"
  have k4: "k \<le> 4" unfolding k_def by (cases "level_spec s") (simp_all add: dice_count_def)
  obtain r where r: "LegalCheckerMoveSequences s = Some r" "\<forall>q \<in> set r. seq_inv s k q"
    "r = [] \<longleftrightarrow> k = 0"
    using LCMS_level[OF p, folded k_def] by auto
  have ch: "IsChanceNode s = Some False" by (rule IsChanceNode_player[OF sc cp])
  obtain b where b: "IsTerminal s = Some b" using IsTerminal_Some[OF sc] by blast
  have dne: "dice s \<noteq> []" using dk by (auto simp: dice_ok_def)
  have ct: "CountTotalCheckers s kXPlayerId = Some (NumCheckersPerPlayer (hyper_backgammon s))"
    "CountTotalCheckers s kOPlayerId = Some (NumCheckersPerPlayer (hyper_backgammon s))"
    using CountTotalCheckers_valid[OF v] by (simp_all add: kXPlayerId_def kOPlayerId_def)
  show ?thesis
  proof (cases "b \<or> r = []")
    case True
    then have "LegalActions pco s = Some [] \<or> LegalActions pco s = Some [kEndTurnAction]"
      unfolding LegalActions_def using ch b dne ct r(1)
      by (auto simp: kNumMovesPerCheckerSequence_def)
    then show ?thesis by auto
  next
    case False
    then have k1: "1 \<le> k" using r(3) by simp
    have qs: "\<forall>q \<in> set r. seq_moves q \<noteq> [] \<and> length (seq_moves q) \<le> 4
                \<and> (\<forall>m \<in> set (seq_moves q). legal_pos_num m)"
      using r(2) k1 k4 by (auto simp: seq_inv_def)
    obtain acts where acts: "encode_seqs pco s r = Some acts"
      "\<forall>a \<in> set acts. \<exists>q \<in> set r. CheckerMovesToSpielMove pco s (seq_moves q) = Some a"
      using encode_seqs_ok[OF sc qs] by blast
    have la: "LegalActions pco s = Some (sort acts)"
      unfolding LegalActions_def using ch b dne ct r(1) False acts(1)
      by (simp add: kNumMovesPerCheckerSequence_def)
    have "\<forall>a \<in> set (sort acts). plays_level pco s (level_spec s) a"
    proof
      fix a assume "a \<in> set (sort acts)"
      then have "a \<in> set acts" by simp
      then obtain q where q: "q \<in> set r" "CheckerMovesToSpielMove pco s (seq_moves q) = Some a"
        using acts(2) by blast
      have qi: "seq_inv s k q" using r(2) q(1) by blast
      have qm: "seq_moves q \<noteq> []" "length (seq_moves q) \<le> 4"
          "\<forall>m \<in> set (seq_moves q). legal_pos_num m"
        using qs q(1) by auto
      have dec: "SpielMoveToCheckerMoves pco s a = Some (map clear_hit (seq_moves q))"
        using roundtrip[OF qm sc, of pco] q(2) by auto
      have l: "length (map clear_hit (seq_moves q)) = k" using qi by (simp add: seq_inv_def)
      have n: "\<forall>m \<in> set (map clear_hit (seq_moves q)). num m \<in> set (dice s)"
        using qi by (auto simp: seq_inv_def clear_hit_def)
      have h: "level_spec s = kHighDie \<longrightarrow> (\<forall>m \<in> set (map clear_hit (seq_moves q)). num m = hi_die s)"
        using high_die_only[OF p _ qi] by (auto simp: clear_hit_def)
      show "plays_level pco s (level_spec s) a"
        unfolding plays_level_def using dec l n h by (simp add: k_def)
    qed
    then show ?thesis using la by blast
  qed
qed

lemma chance_values:
  assumes "1 \<le> a" "a \<le> 21"
  shows "\<exists>v0 v1. nth_chk2 kChanceOutcomeValues (a - 1) 0 = Some v0
           \<and> nth_chk2 kChanceOutcomeValues (a - 1) 1 = Some v1
           \<and> 1 \<le> v0 \<and> v0 \<le> 6 \<and> 1 \<le> v1 \<and> v1 \<le> 6"
proof -
  have "a = 1 \<or> a = 2 \<or> a = 3 \<or> a = 4 \<or> a = 5 \<or> a = 6 \<or> a = 7 \<or> a = 8 \<or> a = 9
      \<or> a = 10 \<or> a = 11 \<or> a = 12 \<or> a = 13 \<or> a = 14 \<or> a = 15 \<or> a = 16 \<or> a = 17
      \<or> a = 18 \<or> a = 19 \<or> a = 20 \<or> a = 21"
    using assms by arith
  then show ?thesis
    by (elim disjE) (simp_all add: kChanceOutcomeValues_def nth_chk2_def nth_chk_def)
qed

lemma valid_state_dice [simp]: "valid_state (s\<lparr>dice := ds\<rparr>) = valid_state s"
  by (simp add: valid_state_def shape_ok_def total_checkers_def pt_def)

lemma opening_valid: "valid_state (opening_position\<lparr>remaining_dice := replicate 6 0\<rparr>)"
  by code_simp

lemma clear_hit_id: "clear_hit m = m \<longleftrightarrow> \<not> hit m"
  by (cases m) (simp add: clear_hit_def)

text \<open>The sequences found after a roll can be encoded.\<close>

lemma legal_sequences_encodable:
  assumes "post_roll s" "LegalCheckerMoveSequences s = Some seqs" "q \<in> set seqs"
  shows "seq_moves q \<noteq> [] \<and> length (seq_moves q) \<le> 4
     \<and> (\<forall>m \<in> set (seq_moves q). legal_pos_num m) \<and> length (scores s) = 2"
proof -
  define k where "k = dice_count (level_spec s)"
  have k4: "k \<le> 4" unfolding k_def by (cases "level_spec s") (simp_all add: dice_count_def)
  have i: "seq_inv s k q" and k0: "k \<noteq> 0"
    using LCMS_level[OF assms(1), folded k_def] assms(2,3) by auto
  have "shape_ok s" using assms(1) by (simp add: post_roll_def valid_state_def)
  then have "length (scores s) = 2" by (simp add: shape_ok_def)
  then show ?thesis using i k0 k4 by (auto simp: seq_inv_def)
qed

subsection \<open>Backgammon: counting the checkers\<close>

lemma count_points_ge: "count_points bd p idx tot = Some r \<Longrightarrow> tot \<le> r"
proof (induction idx arbitrary: tot)
  case Nil
  then show ?case by simp
next
  case (Cons i idx)
  then obtain c where c: "nth_chk2 bd p (int i) = Some c" "\<not> c < 0"
      "count_points bd p idx (tot + c) = Some r"
    by (auto simp: bind_eq_Some_conv split: if_splits)
  have "tot + c \<le> r" by (rule Cons.IH[OF c(3)])
  then show ?case using c(2) by simp
qed

lemma CountTotalCheckers_score:
  assumes "CountTotalCheckers s p = Some n"
  shows "\<exists>sc. nth_chk (scores s) p = Some sc \<and> 0 \<le> sc \<and> sc \<le> n"
proof -
  obtain tot b sc where t: "count_points (board s) p [0..<24] 0 = Some tot"
    and b: "nth_chk (bar s) p = Some b" "\<not> b < 0"
    and sc: "nth_chk (scores s) p = Some sc" "\<not> sc < 0" and n: "n = tot + b + sc"
    using assms unfolding CountTotalCheckers_def
    by (auto simp: bind_eq_Some_conv split: if_splits)
  have "0 \<le> tot" by (rule count_points_ge[OF t])
  then show ?thesis using b sc n by simp
qed

lemma add_at_nth:
  assumes "add_at xs i d = Some ys" "0 \<le> p"
  shows "ys ! nat p = xs ! nat p + (if i = p then d else 0)"
proof -
  have i: "0 \<le> i" "i < int (length xs)" and ys: "ys = xs[nat i := xs ! nat i + d]"
    using assms(1) by (auto simp: add_at_def nth_chk_def upd_chk_def split: if_splits)
  show ?thesis using i assms(2) unfolding ys by (cases "i = p") auto
qed

lemma add_at_sum:
  assumes "add_at xs i d = Some ys"
  shows "sum_list ys = sum_list xs + d"
proof -
  have i: "0 \<le> i" "i < int (length xs)" and ys: "ys = xs[nat i := xs ! nat i + d]"
    using assms(1) by (auto simp: add_at_def nth_chk_def upd_chk_def split: if_splits)
  show ?thesis using i unfolding ys by (simp add: sum_list_update_int)
qed

lemma add_at2_sum:
  assumes "add_at2 bd q i d = Some bd'" "0 \<le> p"
  shows "sum_list (bd' ! nat p) = sum_list (bd ! nat p) + (if q = p then d else 0)"
proof -
  obtain row' where q: "0 \<le> q" "q < int (length bd)" and r: "add_at (bd ! nat q) i d = Some row'"
    and bd': "bd' = bd[nat q := row']"
    using assms(1) by (auto simp: add_at2_def nth_chk_def upd_chk_def bind_eq_Some_conv split: if_splits)
  show ?thesis using q assms(2) add_at_sum[OF r] unfolding bd' by (cases "q = p") auto
qed

lemma total_checkers_tc: "total_checkers s p = tc (bar s) (scores s) (board s) p"
  by (simp add: total_checkers_def tc_def)

lemma tc_bar:
  "add_at br i d = Some br' \<Longrightarrow> 0 \<le> p \<Longrightarrow> tc br' sc bd p = tc br sc bd p + (if i = p then d else 0)"
  by (simp add: tc_def add_at_nth)

lemma tc_scores:
  "add_at sc i d = Some sc' \<Longrightarrow> 0 \<le> p \<Longrightarrow> tc br sc' bd p = tc br sc bd p + (if i = p then d else 0)"
  by (simp add: tc_def add_at_nth)

lemma tc_board:
  "add_at2 bd q i d = Some bd' \<Longrightarrow> 0 \<le> p \<Longrightarrow> tc br sc bd' p = tc br sc bd p + (if q = p then d else 0)"
  by (simp add: tc_def add_at2_sum)

lemma ApplyCheckerMove_total:
  assumes a: "ApplyCheckerMove s m = Some (h, s')" and p: "0 \<le> p"
  shows "total_checkers s' p = total_checkers s p \<and> hyper_backgammon s' = hyper_backgammon s"
proof (cases "pos m < 0")
  case True
  then show ?thesis using a by (simp add: ApplyCheckerMove_def)
next
  case False
  let ?pl = "cur_player s"
  obtain s1 np where s1: "(if pos m = kBarPos then do {
             b \<leftarrow> add_at (bar s) ?pl (- 1);
             np \<leftarrow> PositionFromBar ?pl (num m);
             Some (s\<lparr>bar := b\<rparr>, np) }
           else do {
             bd \<leftarrow> add_at2 (board s) ?pl (pos m) (- 1);
             np \<leftarrow> PositionFrom ?pl (pos m) (num m);
             Some (s\<lparr>board := bd\<rparr>, np) }) = Some (s1, np)"
    and rest1: "do {
        rd \<leftarrow> add_at (remaining_dice s1) (num m - 1) (- 1);
        let s2 = s1\<lparr>remaining_dice := rd\<rparr>;
        s3 \<leftarrow>
          (if np = kScorePos then do {
             sc \<leftarrow> add_at (scores s2) ?pl 1;
             Some (s2\<lparr>scores := sc\<rparr>) }
           else do {
             bd \<leftarrow> add_at2 (board s2) ?pl np 1;
             Some (s2\<lparr>board := bd\<rparr>) });
        is_hit \<leftarrow>
          (if hit m then Some True
           else if np \<noteq> kScorePos then do {
             c \<leftarrow> nth_chk2 (board s3) (Opponent ?pl) np;
             Some (c = 1) }
           else Some False);
        if is_hit then do {
          bd \<leftarrow> add_at2 (board s3) (Opponent ?pl) np (- 1);
          b \<leftarrow> add_at (bar s3) (Opponent ?pl) 1;
          Some (True, s3\<lparr>board := bd, bar := b\<rparr>) }
        else Some (False, s3)
      } = Some (h, s')"
    using a False unfolding ApplyCheckerMove_def Let_def
    by (auto simp: bind_eq_Some_conv)
  have t1: "tc (bar s1) (scores s1) (board s1) p = tc (bar s) (scores s) (board s) p
              + (if ?pl = p then - 1 else 0)"
    and h1: "hyper_backgammon s1 = hyper_backgammon s"
    using s1 p by (auto simp: bind_eq_Some_conv tc_bar tc_board split: if_splits)
  obtain rd s3 is_hit where rd: "add_at (remaining_dice s1) (num m - 1) (- 1) = Some rd"
    and s3: "(if np = kScorePos then do {
             sc \<leftarrow> add_at (scores (s1\<lparr>remaining_dice := rd\<rparr>)) ?pl 1;
             Some (s1\<lparr>remaining_dice := rd, scores := sc\<rparr>) }
           else do {
             bd \<leftarrow> add_at2 (board (s1\<lparr>remaining_dice := rd\<rparr>)) ?pl np 1;
             Some (s1\<lparr>remaining_dice := rd, board := bd\<rparr>) }) = Some s3"
    and fin: "(if is_hit then do {
          bd \<leftarrow> add_at2 (board s3) (Opponent ?pl) np (- 1);
          b \<leftarrow> add_at (bar s3) (Opponent ?pl) 1;
          Some (True, s3\<lparr>board := bd, bar := b\<rparr>) }
        else Some (False, s3)) = Some (h, s')"
    using rest1 unfolding Let_def by (auto simp: bind_eq_Some_conv)
  have t3: "tc (bar s3) (scores s3) (board s3) p = tc (bar s1) (scores s1) (board s1) p
              + (if ?pl = p then 1 else 0)"
    and h3: "hyper_backgammon s3 = hyper_backgammon s1"
    using s3 p by (auto simp: bind_eq_Some_conv tc_scores tc_board split: if_splits)
  have t4: "tc (bar s') (scores s') (board s') p = tc (bar s3) (scores s3) (board s3) p"
    and h4: "hyper_backgammon s' = hyper_backgammon s3"
    using fin p by (auto simp: bind_eq_Some_conv tc_bar tc_board split: if_splits)
  show ?thesis using t1 t3 t4 h1 h3 h4 by (simp add: total_checkers_tc)
qed

lemma UndoCheckerMove_total:
  assumes a: "UndoCheckerMove s m = Some s'" and p: "0 \<le> p"
  shows "total_checkers s' p = total_checkers s p \<and> hyper_backgammon s' = hyper_backgammon s"
proof (cases "pos m < 0")
  case True
  then show ?thesis using a by (simp add: UndoCheckerMove_def)
next
  case False
  let ?pl = "cur_player s"
  obtain np s1 s2 rd where
        s1: "(if hit m then do {
             b \<leftarrow> add_at (bar s) (Opponent ?pl) (- 1);
             bd \<leftarrow> add_at2 (board s) (Opponent ?pl) np 1;
             Some (s\<lparr>bar := b, board := bd\<rparr>) }
           else Some s) = Some s1"
    and s2: "(if np = kScorePos then do {
             sc \<leftarrow> add_at (scores s1) ?pl (- 1);
             Some (s1\<lparr>scores := sc\<rparr>) }
           else do {
             bd \<leftarrow> add_at2 (board s1) ?pl np (- 1);
             Some (s1\<lparr>board := bd\<rparr>) }) = Some s2"
    and rd: "add_at (remaining_dice s2) (num m - 1) 1 = Some rd"
    and fin: "(if pos m = kBarPos then do {
          b \<leftarrow> add_at (bar (s2\<lparr>remaining_dice := rd\<rparr>)) ?pl 1;
          Some (s2\<lparr>remaining_dice := rd, bar := b\<rparr>) }
        else do {
          bd \<leftarrow> add_at2 (board (s2\<lparr>remaining_dice := rd\<rparr>)) ?pl (pos m) 1;
          Some (s2\<lparr>remaining_dice := rd, board := bd\<rparr>) }) = Some s'"
    using a False unfolding UndoCheckerMove_def Let_def
    by (auto simp: bind_eq_Some_conv)
  have t1: "tc (bar s1) (scores s1) (board s1) p = tc (bar s) (scores s) (board s) p"
    and h1: "hyper_backgammon s1 = hyper_backgammon s"
    using s1 p by (auto simp: bind_eq_Some_conv tc_bar tc_board split: if_splits)
  have t2: "tc (bar s2) (scores s2) (board s2) p = tc (bar s1) (scores s1) (board s1) p
              + (if ?pl = p then - 1 else 0)"
    and h2: "hyper_backgammon s2 = hyper_backgammon s1"
    using s2 p by (auto simp: bind_eq_Some_conv tc_scores tc_board split: if_splits)
  have t3: "tc (bar s') (scores s') (board s') p = tc (bar s2) (scores s2) (board s2) p
              + (if ?pl = p then 1 else 0)"
    and h3: "hyper_backgammon s' = hyper_backgammon s2"
    using fin p by (auto simp: bind_eq_Some_conv tc_bar tc_board split: if_splits)
  show ?thesis using t1 t2 t3 h1 h2 h3 by (simp add: total_checkers_tc)
qed

lemma apply_moves_total:
  assumes "apply_moves s ms b = Some (h, s')" "0 \<le> p"
  shows "total_checkers s' p = total_checkers s p \<and> hyper_backgammon s' = hyper_backgammon s"
  using assms(1)
proof (induction ms arbitrary: s b)
  case Nil
  then show ?case by simp
next
  case (Cons m ms)
  obtain h1 s1 where a: "ApplyCheckerMove s m = Some (h1, s1)"
    and r: "apply_moves s1 ms (b \<or> h1) = Some (h, s')"
    using Cons.prems by (auto simp: bind_eq_Some_conv)
  show ?case using ApplyCheckerMove_total[OF a assms(2)] Cons.IH[OF r] by simp
qed

lemma InitRemainingDice_fields:
  assumes "InitRemainingDice s = Some s'"
  shows "bar s' = bar s \<and> scores s' = scores s \<and> board s' = board s
     \<and> hyper_backgammon s' = hyper_backgammon s"
  using assms unfolding InitRemainingDice_def Let_def
  by (auto simp: bind_eq_Some_conv split: if_splits)

lemma RollDice_fields:
  assumes "RollDice s a = Some s'"
  shows "bar s' = bar s \<and> scores s' = scores s \<and> board s' = board s
     \<and> hyper_backgammon s' = hyper_backgammon s"
proof -
  obtain v0 v1 where "InitRemainingDice (s\<lparr>dice := dice s @ [v0, v1]\<rparr>) = Some s'"
    using assms by (auto simp: RollDice_def bind_eq_Some_conv)
  then show ?thesis using InitRemainingDice_fields by fastforce
qed

lemma total_checkers_cong:
  "bar s' = bar s \<Longrightarrow> scores s' = scores s \<Longrightarrow> board s' = board s \<Longrightarrow>
   total_checkers s' p = total_checkers s p"
  by (simp add: total_checkers_def)

lemma DoApplyAction_total:
  assumes a: "DoApplyAction pco s act = Some s'" and p: "0 \<le> p"
  shows "total_checkers s' p = total_checkers s p \<and> hyper_backgammon s' = hyper_backgammon s"
proof -
  obtain c where c: "IsChanceNode s = Some c"
    using a by (auto simp: DoApplyAction_def bind_eq_Some_conv split: if_splits)
  show ?thesis
  proof (cases c)
    case True
    then show ?thesis using a c unfolding DoApplyAction_def Let_def
      by (auto simp: bind_eq_Some_conv total_checkers_def dest!: RollDice_fields split: if_splits)
  next
    case False
    show ?thesis
    proof (cases "dice s = [] \<or> act = kEndTurnAction")
      case True
      then show ?thesis using a c False unfolding DoApplyAction_def Let_def
        by (auto simp: total_checkers_def split: if_splits)
    next
      case nd: False
      then obtain ms h s1 where m: "apply_moves s ms False = Some (h, s1)"
        and s': "bar s' = bar s1" "scores s' = scores s1" "board s' = board s1"
           "hyper_backgammon s' = hyper_backgammon s1"
        using a c False unfolding DoApplyAction_def Let_def
        by (auto simp: bind_eq_Some_conv split: if_splits)
      show ?thesis using apply_moves_total[OF m p] s' by (simp add: total_checkers_def)
    qed
  qed
qed

lemma set_point_row:
  "nat pl < length bd \<Longrightarrow>
   set_point bd pl i v ! q = (if q = nat pl then (bd ! q)[nat i := v] else bd ! q)"
  by (simp add: set_point_def)

lemma length_set_point [simp]: "length (set_point bd pl i v) = length bd"
  by (simp add: set_point_def)

lemma empty_board_facts:
  "length empty_board = 2" "empty_board ! 0 = replicate 24 0" "empty_board ! Suc 0 = replicate 24 0"
  by (simp_all add: empty_board_def kNumPoints_def)

lemma hyper_board_total:
  "sum_list (set_point (set_point (set_point (set_point (set_point (set_point empty_board
             kXPlayerId 2 1) kXPlayerId 1 1) kXPlayerId 0 1)
             kOPlayerId 21 1) kOPlayerId 22 1) kOPlayerId 23 1 ! 0) = 3"
  "sum_list (set_point (set_point (set_point (set_point (set_point (set_point empty_board
             kXPlayerId 2 1) kXPlayerId 1 1) kXPlayerId 0 1)
             kOPlayerId 21 1) kOPlayerId 22 1) kOPlayerId 23 1 ! Suc 0) = 3"
  by code_simp+

lemma standard_board_total:
  "sum_list (set_point (set_point (set_point (set_point (set_point (set_point (set_point
             (set_point empty_board
             kXPlayerId 0 2) kXPlayerId 11 5) kXPlayerId 16 3) kXPlayerId 18 5)
             kOPlayerId 23 2) kOPlayerId 12 5) kOPlayerId 7 3) kOPlayerId 5 5 ! 0) = 15"
  "sum_list (set_point (set_point (set_point (set_point (set_point (set_point (set_point
             (set_point empty_board
             kXPlayerId 0 2) kXPlayerId 11 5) kXPlayerId 16 3) kXPlayerId 18 5)
             kOPlayerId 23 2) kOPlayerId 12 5) kOPlayerId 7 3) kOPlayerId 5 5 ! Suc 0) = 15"
  by code_simp+

lemma one_point_board_total:
  assumes "idx < 24"
  shows "sum_list (set_point (set_point empty_board kOPlayerId (23 - int idx) 15)
                     kXPlayerId (int idx) 15 ! 0) = 15"
    "sum_list (set_point (set_point empty_board kOPlayerId (23 - int idx) 15)
                     kXPlayerId (int idx) 15 ! Suc 0) = 15"
  using assms
  by (simp_all add: set_point_row empty_board_facts kXPlayerId_def kOPlayerId_def
      sum_list_update_int sum_list_replicate)

lemma NewInitialState_total:
  assumes "p = 0 \<or> p = 1"
  shows "total_checkers (NewInitialState st hyper idx) p = NumCheckersPerPlayer hyper"
    "hyper_backgammon (NewInitialState st hyper idx) = hyper"
proof -
  show "hyper_backgammon (NewInitialState st hyper idx) = hyper"
    by (simp add: NewInitialState_def SetupInitialBoard_def)
  consider "hyper" | "\<not> hyper" "idx < 24" | "\<not> hyper" "idx = 24" | "\<not> hyper" "25 \<le> idx"
    by linarith
  then show "total_checkers (NewInitialState st hyper idx) p = NumCheckersPerPlayer hyper"
  proof cases
    case 1
    then show ?thesis using assms hyper_board_total
      by (auto simp: NewInitialState_def SetupInitialBoard_def total_checkers_def
          NumCheckersPerPlayer_def)
  next
    case 2
    then show ?thesis using assms one_point_board_total[of idx]
      by (auto simp: NewInitialState_def SetupInitialBoard_def total_checkers_def
          NumCheckersPerPlayer_def kNumCheckersPerPlayer_def)
  next
    case 3
    then show ?thesis using assms
      by (auto simp: NewInitialState_def SetupInitialBoard_def total_checkers_def
          NumCheckersPerPlayer_def kNumCheckersPerPlayer_def empty_board_facts sum_list_replicate)
  next
    case 4
    then show ?thesis using assms standard_board_total
      by (auto simp: NewInitialState_def SetupInitialBoard_def total_checkers_def
          NumCheckersPerPlayer_def kNumCheckersPerPlayer_def)
  qed
qed

lemma reachable_total:
  assumes "reachable pco s" "p = 0 \<or> p = 1"
  shows "total_checkers s p = NumCheckersPerPlayer (hyper_backgammon s)"
  using assms(1)
proof (induction rule: reachable.induct)
  case (initial st hyper idx)
  show ?case using NewInitialState_total[OF assms(2)] by simp
next
  case (action s a s')
  have "0 \<le> p" using assms(2) by auto
  then show ?case using DoApplyAction_total[OF action.hyps(2)] action.IH by simp
qed

lemma count_points_val:
  assumes "count_points bd p idx tot = Some r"
  shows "r = tot + (\<Sum>i\<leftarrow>idx. the (nth_chk2 bd p (int i)))"
  using assms
proof (induction idx arbitrary: tot)
  case Nil
  then show ?case by simp
next
  case (Cons i idx)
  then obtain c where c: "nth_chk2 bd p (int i) = Some c"
      "count_points bd p idx (tot + c) = Some r"
    by (auto simp: bind_eq_Some_conv split: if_splits)
  show ?case using Cons.IH[OF c(2)] c(1) by simp
qed

lemma CountTotalCheckers_val:
  assumes c: "CountTotalCheckers s p = Some n" and r: "length (board s ! nat p) = 24"
  shows "n = total_checkers s p"
proof -
  obtain tot b sc where t: "count_points (board s) p [0..<24] 0 = Some tot"
    and b: "nth_chk (bar s) p = Some b"
    and sc: "nth_chk (scores s) p = Some sc" and n: "n = tot + b + sc"
    using c unfolding CountTotalCheckers_def
    by (auto simp: bind_eq_Some_conv split: if_splits)
  have p: "0 \<le> p" using b by (simp add: nth_chk_def split: if_splits)
  have pb: "p < int (length (board s))"
  proof (rule ccontr)
    assume "\<not> p < int (length (board s))"
    then have "nth_chk2 (board s) p 0 = None" by (simp add: nth_chk2_def nth_chk_def)
    then show False using t by (simp add: upt_rec[of 0])
  qed
  have e: "\<forall>i \<in> set [0..<24]. the (nth_chk2 (board s) p (int i)) = board s ! nat p ! i"
    using p pb r by (simp add: nth_chk2_def nth_chk_def)
  have "(\<Sum>i\<leftarrow>[0..<24]. the (nth_chk2 (board s) p (int i))) = (\<Sum>i\<leftarrow>[0..<24]. board s ! nat p ! i)"
    by (rule arg_cong[where f=sum_list], rule map_cong[OF refl]) (use e in blast)
  also have "\<dots> = sum_list (board s ! nat p)"
    using map_nth[of "board s ! nat p"] r by simp
  finally have "tot = sum_list (board s ! nat p)" using count_points_val[OF t] by simp
  then show ?thesis using b sc n by (auto simp: total_checkers_def nth_chk_def split: if_splits)
qed

subsection \<open>The inference caches\<close>

lemma learner_step_inf_eval: "inf_eval (learner_step train run) = inf_eval run"
  by (simp add: learner_step_def Let_def)

subsection \<open>Saving and loading the model configuration\<close>

declare show_nat.simps [simp del]

lemma digit_char_props:
  assumes "d < 10"
  shows "is_digit (digit_char d)" "\<not> is_space (digit_char d)"
    "(of_char (digit_char d) :: nat) - 48 = d"
    "digit_char d \<noteq> CHR ''-''" "digit_char d \<noteq> CHR ''+''"
proof -
  have o: "(of_char (digit_char d) :: nat) = 48 + d"
    using assms by (simp add: digit_char_def)
  show "is_digit (digit_char d)" using o assms by (simp add: is_digit_def)
  have "digit_char d \<noteq> CHR '' ''"
  proof
    assume "digit_char d = CHR '' ''"
    then have "(of_char (digit_char d) :: nat) = of_char CHR '' ''" by simp
    then show False using o by simp
  qed
  then show "\<not> is_space (digit_char d)" using o by (simp add: is_space_def)
  show "(of_char (digit_char d) :: nat) - 48 = d" using o by simp
  show "digit_char d \<noteq> CHR ''-''"
  proof
    assume "digit_char d = CHR ''-''"
    then have "(of_char (digit_char d) :: nat) = of_char CHR ''-''" by simp
    then show False using o by simp
  qed
  show "digit_char d \<noteq> CHR ''+''"
  proof
    assume "digit_char d = CHR ''+''"
    then have "(of_char (digit_char d) :: nat) = of_char CHR ''+''" by simp
    then show False using o by simp
  qed
qed

lemma digits_val_snoc: "digits_val (ds @ [c]) = 10 * digits_val ds + (of_char c - 48)"
  by (simp add: digits_val_def)

lemma show_nat_props:
  "show_nat n \<noteq> [] \<and> (\<forall>c \<in> set (show_nat n). is_digit c) \<and> digits_val (show_nat n) = n"
proof (induction n rule: show_nat.induct)
  case (1 n)
  show ?case
  proof (cases "n < 10")
    case True
    then show ?thesis
      using digit_char_props[OF True]
      by (subst (1 2 3) show_nat.simps) (simp add: digits_val_def)
  next
    case False
    have m: "n mod 10 < 10" by simp
    show ?thesis
      using 1[OF False] digit_char_props[OF m] False
      by (subst (1 2 3) show_nat.simps) (simp add: digits_val_snoc)
  qed
qed

lemma show_nat_hd: "\<exists>c r. show_nat n = c # r \<and> is_digit c"
  using show_nat_props[of n] by (cases "show_nat n") auto

lemma is_digit_not_space: "is_digit c \<Longrightarrow> \<not> is_space c \<and> c \<noteq> CHR ''-'' \<and> c \<noteq> CHR ''+''"
  by (auto simp: is_digit_def is_space_def)

lemma not_digit_sign: "\<not> is_digit CHR ''-''" "\<not> is_space CHR ''-''" "is_space CHR '' ''"
  "\<not> is_digit CHR '' ''"
  by (simp_all add: is_digit_def is_space_def)

lemma take_drop_digits:
  assumes "\<forall>c \<in> set ds. is_digit c" "rest = [] \<or> \<not> is_digit (hd rest)"
  shows "takeWhile is_digit (ds @ rest) = ds" "dropWhile is_digit (ds @ rest) = rest"
proof -
  have t: "takeWhile is_digit rest = []" "dropWhile is_digit rest = rest"
    using assms(2) by (cases rest; simp)+
  show "takeWhile is_digit (ds @ rest) = ds" using assms(1) t by (simp add: takeWhile_append2)
  show "dropWhile is_digit (ds @ rest) = rest" using assms(1) t by (simp add: dropWhile_append2)
qed

lemma read_int_show:
  assumes r: "INT_MIN \<le> i" "i \<le> INT_MAX" and rest: "rest = [] \<or> \<not> is_digit (hd rest)"
    and sp: "\<forall>c \<in> set sp. is_space c"
  shows "read_int (sp @ show_int i @ rest) = Some (i, rest)"
proof -
  obtain c0 r0 where h: "show_int i = c0 # r0" "\<not> is_space c0"
  proof (cases "i < 0")
    case True
    then show ?thesis using that[of "CHR ''-''"] not_digit_sign by (simp add: show_int_def)
  next
    case False
    obtain c r where "show_nat (nat i) = c # r" "is_digit c" using show_nat_hd by blast
    then show ?thesis using that[of c r] False is_digit_not_space by (simp add: show_int_def)
  qed
  have d: "dropWhile is_space (sp @ show_int i @ rest) = show_int i @ rest"
    using sp h by (simp add: dropWhile_append2)
  show ?thesis
  proof (cases "i < 0")
    case True
    let ?ds = "show_nat (nat (- i))"
    note p = show_nat_props[of "nat (- i)"]
    have td: "takeWhile is_digit (?ds @ rest) = ?ds" "dropWhile is_digit (?ds @ rest) = rest"
      using take_drop_digits[OF _ rest, of ?ds] p by simp_all
    show ?thesis
      unfolding read_int_def d
      using True td p r by (simp add: show_int_def Let_def)
  next
    case False
    let ?ds = "show_nat (nat i)"
    note p = show_nat_props[of "nat i"]
    obtain c r' where cr: "?ds = c # r'" "is_digit c" using show_nat_hd by blast
    have td: "takeWhile is_digit (?ds @ rest) = ?ds" "dropWhile is_digit (?ds @ rest) = rest"
      using take_drop_digits[OF _ rest, of ?ds] p by simp_all
    have cs: "(case ?ds @ rest of
                 c # r \<Rightarrow> if c = CHR ''-'' then (True, r)
                          else if c = CHR ''+'' then (False, r) else (False, ?ds @ rest)
               | [] \<Rightarrow> (False, ?ds @ rest)) = (False, ?ds @ rest)"
      using cr is_digit_not_space[OF cr(2)] by simp
    show ?thesis
      unfolding read_int_def d
      using False td p r cs by (simp add: show_int_def Let_def)
  qed
qed

lemma read_word_show:
  assumes "w \<noteq> []" "\<forall>c \<in> set w. \<not> is_space c" "\<forall>c \<in> set sp. is_space c"
  shows "read_word (sp @ w) = Some (w, [])"
proof -
  obtain c r where w: "w = c # r" "\<not> is_space c" using assms(1,2) by (cases w) auto
  have d: "dropWhile is_space (sp @ w) = w" using assms(3) w by (simp add: dropWhile_append2)
  have t: "takeWhile (\<lambda>c. \<not> is_space c) w = w" "dropWhile (\<lambda>c. \<not> is_space c) w = []"
    using assms(2) by simp_all
  show ?thesis unfolding read_word_def d Let_def t using assms(1) by simp
qed

lemma zero_round_trip: "double_round_trip zero_show zero_read 0"
  by (auto simp: double_round_trip_def zero_show_def zero_read_def is_space_def)

lemma read_write_ModelConfig:
  assumes sh: "observation_tensor_shape config = [c, h, w]"
    and ir: "int_range c" "int_range h" "int_range w" "int_range (nn_depth config)"
      "int_range (nn_width config)"
    and nm: "nn_model config \<noteq> []" "\<forall>ch \<in> set (nn_model config). \<not> is_space ch"
    and lr: "double_round_trip show_double read_double (learning_rate config)"
    and wd: "double_round_trip show_double read_double (weight_decay config)"
  shows "\<exists>content. write_ModelConfig show_double config = Some content
           \<and> read_ModelConfig read_double content = Some config"
proof -
  let ?m = "nn_model config"
  let ?t7 = "'' '' @ ?m"
  let ?t6 = "'' '' @ show_double (weight_decay config) @ ?t7"
  let ?t5 = "'' '' @ show_double (learning_rate config) @ ?t6"
  let ?t4 = "'' '' @ show_int (nn_width config) @ ?t5"
  let ?t3 = "'' '' @ show_int (nn_depth config) @ ?t4"
  let ?t2 = "'' '' @ show_int w @ ?t3"
  let ?t1 = "'' '' @ show_int h @ ?t2"
  let ?t0 = "show_int c @ ?t1"
  have w: "write_ModelConfig show_double config = Some ?t0"
    by (simp add: write_ModelConfig_def sh)
  have sp: "\<forall>ch \<in> set '' ''. is_space ch" "\<forall>ch \<in> set ([] :: string). is_space ch"
    by (simp_all add: is_space_def)
  have nd: "\<And>r. '' '' @ r = [] \<or> \<not> is_digit (hd ('' '' @ r))"
    by (simp add: is_digit_def)
  have r0: "read_int ?t0 = Some (c, ?t1)"
    using read_int_show[OF _ _ nd sp(2), of c] ir(1) by (simp add: int_range_def)
  have r1: "read_int ?t1 = Some (h, ?t2)"
    using read_int_show[OF _ _ nd sp(1), of h] ir(2) by (simp add: int_range_def)
  have r2: "read_int ?t2 = Some (w, ?t3)"
    using read_int_show[OF _ _ nd sp(1), of w] ir(3) by (simp add: int_range_def)
  have r3: "read_int ?t3 = Some (nn_depth config, ?t4)"
    using read_int_show[OF _ _ nd sp(1), of "nn_depth config"] ir(4) by (simp add: int_range_def)
  have r4: "read_int ?t4 = Some (nn_width config, ?t5)"
    using read_int_show[OF _ _ nd sp(1), of "nn_width config"] ir(5) by (simp add: int_range_def)
  have r5: "read_double ?t5 = Some (learning_rate config, ?t6)"
    using lr by (simp add: double_round_trip_def is_space_def)
  have r6: "read_double ?t6 = Some (weight_decay config, ?t7)"
    using wd by (simp add: double_round_trip_def is_space_def)
  have r7: "read_word ?t7 = Some (?m, [])"
    by (rule read_word_show[OF nm sp(1)])
  have "read_ModelConfig read_double ?t0
      = Some \<lparr>observation_tensor_shape = [c, h, w], nn_depth = nn_depth config,
             nn_width = nn_width config, learning_rate = learning_rate config,
             weight_decay = weight_decay config, nn_model = nn_model config\<rparr>"
    using r0 r1 r2 r3 r4 r5 r6 r7 by (simp add: read_ModelConfig_def)
  also have "\<dots> = Some config" using sh by (cases config) simp
  finally show ?thesis using w by blast
qed

subsection \<open>Legal actions consume the dice of the legal level\<close>

text \<open>
  C2. Let \<open>s0\<close> be a well-formed position with a player to move and no dice, and let
  \<^verbatim>\<open>RollDice\<close> roll any of the 21 outcomes. Then the roll succeeds, \<^verbatim>\<open>DetermineLegalLevel\<close>
  returns a level in the rolled state (the one of the exhaustive search \<open>level_spec\<close>),
  \<^verbatim>\<open>LegalActions\<close> returns a list of actions there, and
  every returned action other than \<^verbatim>\<open>kEndTurnAction\<close> is decoded by
  \<^verbatim>\<open>SpielMoveToCheckerMoves\<close> into a sequence of exactly as many moves as the level has dice
  (\<open>dice_count\<close>: 0, 1, 1, 2, 3, 4), each move playing one of the rolled dice; at the level
  \<^verbatim>\<open>kHighDie\<close> every move of a returned action plays the high die.
\<close>

theorem LegalActions_consume_legal_level:
  assumes "valid_state (s0\<lparr>remaining_dice := replicate 6 0\<rparr>)" and "dice s0 = []"
    and "1 \<le> roll" and "roll \<le> 21"
  shows "\<exists>s level acts. RollDice s0 roll = Some s \<and> DetermineLegalLevel s = Some level
     \<and> level = level_spec s \<and> LegalActions pco s = Some acts
     \<and> (\<forall>a \<in> set acts. a = kEndTurnAction \<or> plays_level pco s level a)"
proof -
  obtain v0 v1 where cv: "nth_chk2 kChanceOutcomeValues (roll - 1) 0 = Some v0"
     "nth_chk2 kChanceOutcomeValues (roll - 1) 1 = Some v1"
     "1 \<le> v0" "v0 \<le> 6" "1 \<le> v1" "v1 \<le> 6"
    using chance_values[OF assms(3,4)] by blast
  let ?s1 = "s0\<lparr>dice := dice s0 @ [v0, v1]\<rparr>"
  have dk: "dice_ok ?s1" using assms(2) cv(3-6) by (simp add: dice_ok_def)
  have v: "valid_state (?s1\<lparr>remaining_dice := replicate 6 0\<rparr>)"
    using assms(1) by (simp add: valid_state_def shape_ok_def total_checkers_def pt_def)
  obtain rd where rd: "InitRemainingDice ?s1 = Some (?s1\<lparr>remaining_dice := rd\<rparr>)"
     "post_roll (?s1\<lparr>remaining_dice := rd\<rparr>)"
    using post_roll_init[OF dk v] by blast
  let ?s = "?s1\<lparr>remaining_dice := rd\<rparr>"
  have r: "RollDice s0 roll = Some ?s" using cv(1,2) rd(1) by (simp add: RollDice_def)
  have "valid_state ?s" "dice_ok ?s" using rd(2) by (simp_all add: post_roll_def)
  then have l: "DetermineLegalLevel ?s = Some (level_spec ?s)" by (rule DetermineLegalLevel_eq)
  show ?thesis using r l LegalActions_level[OF rd(2), of pco] by blast
qed

text \<open>The standard opening position with X to move and the roll 1-3 (outcome 2).\<close>

theorem LegalActions_consume_legal_level_witness:
  "valid_state (opening_position\<lparr>remaining_dice := replicate 6 0\<rparr>) \<and> dice opening_position = []
   \<and> (\<exists>s level acts. RollDice opening_position 2 = Some s \<and> DetermineLegalLevel s = Some level
     \<and> level = level_spec s \<and> LegalActions False s = Some acts
     \<and> (\<forall>a \<in> set acts. a = kEndTurnAction \<or> plays_level False s level a))"
proof -
  have v: "valid_state (opening_position\<lparr>remaining_dice := replicate 6 0\<rparr>)" by code_simp
  have d: "dice opening_position = []" by code_simp
  show ?thesis
    using LegalActions_consume_legal_level[OF v d, of 2 False] v d by simp
qed

subsection \<open>The round trip of the action encoding\<close>

text \<open>
  C5. A non-empty sequence of at most \<^verbatim>\<open>kNumMovesPerCheckerSequence\<close> (4) moves, each from a
  point 0..23 or from the bar and with a die number 1..6, is encoded by
  \<^verbatim>\<open>CheckerMovesToSpielMove\<close> into an action that \<^verbatim>\<open>SpielMoveToCheckerMoves\<close> decodes into the
  same sequence with every \<^verbatim>\<open>hit\<close> flag reset to false; so the decoded sequence is the
  original one exactly when no move of it has its \<^verbatim>\<open>hit\<close> flag set. (The sequences of
  \<^verbatim>\<open>LegalCheckerMoveSequences\<close> are of this kind: \<open>legal_sequences_encodable\<close>.)
\<close>

theorem action_round_trip:
  assumes "moves \<noteq> []" and "length moves \<le> 4" and "\<forall>m \<in> set moves. legal_pos_num m"
    and "length (scores s) = 2"
  shows "\<exists>a. CheckerMovesToSpielMove pco s moves = Some a
     \<and> SpielMoveToCheckerMoves pco s a = Some (map clear_hit moves)
     \<and> (SpielMoveToCheckerMoves pco s a = Some moves \<longleftrightarrow> (\<forall>m \<in> set moves. \<not> hit m))"
proof -
  obtain a where a: "CheckerMovesToSpielMove pco s moves = Some a"
     "SpielMoveToCheckerMoves pco s a = Some (map clear_hit moves)"
    using roundtrip[OF assms, of pco] by blast
  have "map clear_hit moves = moves \<longleftrightarrow> (\<forall>m \<in> set moves. \<not> hit m)"
    by (induction moves) (simp_all add: clear_hit_id)
  then show ?thesis using a by auto
qed

text \<open>The second sequence that \<^verbatim>\<open>LegalCheckerMoveSequences\<close> finds in \<open>hit_position\<close>, which
  hits nothing, is encoded as 315 and decoded to itself.\<close>

theorem action_round_trip_witness:
  "CheckerMovesToSpielMove False hit_position
      [\<lparr>pos = 0, num = 2, hit = False\<rparr>, \<lparr>pos = 2, num = 1, hit = False\<rparr>] = Some 315
   \<and> SpielMoveToCheckerMoves False hit_position 315
      = Some [\<lparr>pos = 0, num = 2, hit = False\<rparr>, \<lparr>pos = 2, num = 1, hit = False\<rparr>]"
proof -
  let ?v = "[\<lparr>pos = 0, num = 2, hit = False\<rparr>, \<lparr>pos = 2, num = 1, hit = False\<rparr>]"
  have e: "CheckerMovesToSpielMove False hit_position ?v = Some 315" by code_simp
  have h: "?v \<noteq> []" "length ?v \<le> 4" "\<forall>m \<in> set ?v. legal_pos_num m"
      "length (scores hit_position) = 2"
    by (simp_all add: legal_pos_num_def hit_position_def)
  obtain a where a: "CheckerMovesToSpielMove False hit_position ?v = Some a"
     "SpielMoveToCheckerMoves False hit_position a = Some (map clear_hit ?v)"
    using action_round_trip[OF h, of False] by blast
  have "a = 315" using a(1) e by simp
  then show ?thesis using a e by (simp add: clear_hit_def)
qed

text \<open>In \<open>hit_position\<close> the first legal sequence hits the blot on point 1; its action 159 is
  decoded into a sequence whose first move has lost the \<^verbatim>\<open>hit\<close> flag.\<close>

theorem action_round_trip_hit_counterexample:
  "map_option (map seq_moves) (LegalCheckerMoveSequences hit_position)
     = Some [[\<lparr>pos = 0, num = 1, hit = True\<rparr>, \<lparr>pos = 1, num = 2, hit = False\<rparr>],
             [\<lparr>pos = 0, num = 2, hit = False\<rparr>, \<lparr>pos = 2, num = 1, hit = False\<rparr>]]
   \<and> CheckerMovesToSpielMove False hit_position
        [\<lparr>pos = 0, num = 1, hit = True\<rparr>, \<lparr>pos = 1, num = 2, hit = False\<rparr>] = Some 159
   \<and> SpielMoveToCheckerMoves False hit_position 159
        = Some [\<lparr>pos = 0, num = 1, hit = False\<rparr>, \<lparr>pos = 1, num = 2, hit = False\<rparr>]
   \<and> [\<lparr>pos = 0, num = 1, hit = False\<rparr>, \<lparr>pos = 1, num = 2, hit = False\<rparr>]
        \<noteq> [\<lparr>pos = 0, num = 1, hit = True\<rparr>, \<lparr>pos = 1, num = 2, hit = False\<rparr>]"
proof -
  have 1: "map_option (map seq_moves) (LegalCheckerMoveSequences hit_position)
     = Some [[\<lparr>pos = 0, num = 1, hit = True\<rparr>, \<lparr>pos = 1, num = 2, hit = False\<rparr>],
             [\<lparr>pos = 0, num = 2, hit = False\<rparr>, \<lparr>pos = 2, num = 1, hit = False\<rparr>]]"
    by code_simp
  have 2: "CheckerMovesToSpielMove False hit_position
        [\<lparr>pos = 0, num = 1, hit = True\<rparr>, \<lparr>pos = 1, num = 2, hit = False\<rparr>] = Some 159"
    by code_simp
  have 3: "SpielMoveToCheckerMoves False hit_position 159
        = Some [\<lparr>pos = 0, num = 1, hit = False\<rparr>, \<lparr>pos = 1, num = 2, hit = False\<rparr>]"
    by code_simp
  show ?thesis using 1 2 3 by simp
qed

subsection \<open>Conservation of the checkers\<close>

text \<open>
  C8. For each player \<open>p\<close>, the total \<open>bar(p) + scores(p) + sum of the 24 points of p\<close>
  (\<open>total_checkers\<close>) equals \<^verbatim>\<open>NumCheckersPerPlayer\<close> (15, or 3 in the hyper variant) in every
  state reached from an initial state by actions that \<^verbatim>\<open>DoApplyAction\<close> accepts (legal or
  not); \<^verbatim>\<open>ApplyCheckerMove\<close> and \<^verbatim>\<open>UndoCheckerMove\<close> leave the total unchanged whenever they
  return (for a pass move they do nothing); and what \<^verbatim>\<open>CountTotalCheckers\<close> returns is this
  total.
\<close>

theorem checker_count_conserved:
  assumes "p = 0 \<or> p = 1"
  shows "(reachable pco s \<longrightarrow> total_checkers s p = NumCheckersPerPlayer (hyper_backgammon s))
     \<and> (ApplyCheckerMove s m = Some (h, s') \<longrightarrow> total_checkers s' p = total_checkers s p)
     \<and> (UndoCheckerMove s m = Some s'' \<longrightarrow> total_checkers s'' p = total_checkers s p)
     \<and> (CountTotalCheckers s p = Some n \<and> length (board s ! nat p) = 24
           \<longrightarrow> n = total_checkers s p)"
proof -
  have p: "0 \<le> p" using assms by auto
  show ?thesis
    using reachable_total[OF _ assms, of pco s] ApplyCheckerMove_total[OF _ p, of s m h s']
      UndoCheckerMove_total[OF _ p, of s m s''] CountTotalCheckers_val[of s p n]
    by blast
qed

text \<open>The standard initial state, and the hitting move of \<open>hit_position\<close> applied and
  undone.\<close>

theorem checker_count_conserved_witness:
  "reachable False (NewInitialState kWinLossScoring False 25)
   \<and> total_checkers (NewInitialState kWinLossScoring False 25) 0 = 15
   \<and> ApplyCheckerMove hit_position \<lparr>pos = 0, num = 1, hit = True\<rparr>
        = Some (True, apply_pure hit_position \<lparr>pos = 0, num = 1, hit = True\<rparr>)
   \<and> total_checkers (apply_pure hit_position \<lparr>pos = 0, num = 1, hit = True\<rparr>) 0
        = total_checkers hit_position 0
   \<and> UndoCheckerMove (apply_pure hit_position \<lparr>pos = 0, num = 1, hit = True\<rparr>)
        \<lparr>pos = 0, num = 1, hit = True\<rparr> = Some hit_position
   \<and> CountTotalCheckers hit_position 0 = Some 3
   \<and> total_checkers hit_position 0 = 3"
proof -
  let ?m = "\<lparr>pos = 0, num = 1, hit = True\<rparr>"
  let ?i = "NewInitialState kWinLossScoring False 25"
  have r: "reachable False ?i" by (rule reachable.initial)
  have sh: "shape_ok hit_position" by code_simp
  have pm: "playable_move hit_position ?m" by code_simp
  have a: "ApplyCheckerMove hit_position ?m = Some (True, apply_pure hit_position ?m)"
    using apply_eq[OF sh pm] by simp
  have u: "UndoCheckerMove (apply_pure hit_position ?m) ?m = Some hit_position"
    by (rule undo_apply[OF sh pm])
  have c: "CountTotalCheckers hit_position 0 = Some 3" by code_simp
  have l: "length (board hit_position ! nat 0) = 24" by code_simp
  have h: "hyper_backgammon ?i = False" by code_simp
  have 1: "total_checkers ?i 0 = 15"
    using checker_count_conserved[of 0 False ?i] r h
    by (simp add: NumCheckersPerPlayer_def kNumCheckersPerPlayer_def)
  have 2: "total_checkers (apply_pure hit_position ?m) 0 = total_checkers hit_position 0"
    using checker_count_conserved[of 0 False hit_position ?m True "apply_pure hit_position ?m"] a
    by simp
  have 3: "total_checkers hit_position 0 = 3"
    using checker_count_conserved[of 0 False hit_position ?m True "apply_pure hit_position ?m"
        hit_position 3] c l
    by simp
  show ?thesis using r 1 a 2 u c 3 by simp
qed

subsection \<open>Returns in the hyper variant\<close>

text \<open>
  C10. In the hyper variant (\<^verbatim>\<open>hyper_backgammon\<close> true), in every state where each player's
  checkers are all counted (\<^verbatim>\<open>CountTotalCheckers\<close> returns \<^verbatim>\<open>NumCheckersPerPlayer\<close>, which is 3),
  \<^verbatim>\<open>Returns\<close> yields \<open>[0, 0]\<close>, whether the state is terminal or not: \<^verbatim>\<open>IsTerminal\<close> holds
  exactly when a score is 3, and \<^verbatim>\<open>Returns\<close> looks for a score of 15.
\<close>

theorem Returns_hyper_zero:
  assumes "hyper_backgammon s"
    and "CountTotalCheckers s kXPlayerId = Some (NumCheckersPerPlayer (hyper_backgammon s))"
    and "CountTotalCheckers s kOPlayerId = Some (NumCheckersPerPlayer (hyper_backgammon s))"
  shows "Returns s = Some [0, 0]
     \<and> (\<exists>sx so. nth_chk (scores s) kXPlayerId = Some sx \<and> nth_chk (scores s) kOPlayerId = Some so
            \<and> IsTerminal s = Some (sx = 3 \<or> so = 3))"
proof -
  have n: "NumCheckersPerPlayer (hyper_backgammon s) = 3"
    using assms(1) by (simp add: NumCheckersPerPlayer_def)
  obtain sx where sx: "nth_chk (scores s) kXPlayerId = Some sx" "sx \<le> 3"
    using CountTotalCheckers_score[OF assms(2)] n by auto
  obtain so where so: "nth_chk (scores s) kOPlayerId = Some so" "so \<le> 3"
    using CountTotalCheckers_score[OF assms(3)] n by auto
  have r: "Returns s = Some [0, 0]"
    unfolding Returns_def using sx so by simp
  have t: "IsTerminal s = Some (sx = 3 \<or> so = 3)"
    unfolding IsTerminal_def using sx so n by simp
  show ?thesis using r t sx(1) so(1) by simp
qed

text \<open>A terminal state of the hyper variant: X has borne off its three checkers.\<close>

theorem Returns_hyper_zero_witness:
  "hyper_backgammon won_position \<and> IsTerminal won_position = Some True
   \<and> Returns won_position = Some [0, 0]"
proof -
  have h: "hyper_backgammon won_position" by (simp add: won_position_def)
  have x: "CountTotalCheckers won_position kXPlayerId
             = Some (NumCheckersPerPlayer (hyper_backgammon won_position))" by code_simp
  have o: "CountTotalCheckers won_position kOPlayerId
             = Some (NumCheckersPerPlayer (hyper_backgammon won_position))" by code_simp
  have t: "IsTerminal won_position = Some True" by code_simp
  show ?thesis using Returns_hyper_zero[OF h x o] h t by simp
qed

subsection \<open>Self-play picks the best child or stops\<close>

text \<open>
  C7. For a \<^verbatim>\<open>temperature_drop\<close> from 0 to \<^verbatim>\<open>INT_MAX\<close>: at a decision state with at least
  \<^verbatim>\<open>temperature_drop\<close> moves in the history, \<^verbatim>\<open>PlayGame\<close> takes \<^verbatim>\<open>BestChild\<close> of the search
  root; with fewer moves in the history it stops with the fatal error "Need SampleFromChildren
  to use temp drop." and samples nothing. So whenever the decision branch goes on, the action
  it records and applies is the one of \<^verbatim>\<open>BestChild\<close>.
\<close>

theorem PlayGame_best_child_or_fatal:
  assumes "0 \<le> temperature_drop" and "temperature_drop \<le> INT_MAX"
  shows "(temperature_drop \<le> int (length history) \<longrightarrow>
            select_action_node BestChild history temperature_drop search_root = Inr (BestChild search_root))
     \<and> (int (length history) < temperature_drop \<longrightarrow>
            select_action_node BestChild history temperature_drop search_root
              = Inl (SpielFatalError ''Need SampleFromChildren to use temp drop.'')
          \<and> PlayGame_decision ops MCTSearch BestChild temperature_drop cutoff_value
                state history traj accum
              = Inl (SpielFatalError ''Need SampleFromChildren to use temp drop.''))
     \<and> (\<forall>state' history' traj' fin.
           PlayGame_decision ops MCTSearch BestChild temperature_drop cutoff_value
                state history traj accum = Inr (state', history', traj', fin)
           \<longrightarrow> temperature_drop \<le> int (length history)
             \<and> action (last (states traj'))
                 = node_action (BestChild (MCTSearch (st_current_player ops state) state))
             \<and> state' = st_apply_action ops state
                 (node_action (BestChild (MCTSearch (st_current_player ops state) state))))"
proof -
  have m: "temperature_drop mod 18446744073709551616 = temperature_drop"
    using assms by (simp add: INT_MAX_def)
  have 1: "temperature_drop \<le> int (length history) \<longrightarrow>
            select_action_node BestChild history temperature_drop search_root = Inr (BestChild search_root)"
    by (simp add: select_action_node_def m)
  have 2: "int (length history) < temperature_drop \<longrightarrow>
            select_action_node BestChild history temperature_drop search_root
              = Inl (SpielFatalError ''Need SampleFromChildren to use temp drop.'')" for search_root
    by (simp add: select_action_node_def m)
  have 3: "int (length history) < temperature_drop \<longrightarrow>
      PlayGame_decision ops MCTSearch BestChild temperature_drop cutoff_value
                state history traj accum
              = Inl (SpielFatalError ''Need SampleFromChildren to use temp drop.'')"
    using 2 by (simp add: PlayGame_decision_def Let_def)
  have 4: "PlayGame_decision ops MCTSearch BestChild temperature_drop cutoff_value
                state history traj accum = Inr (state', history', traj', fin)
           \<longrightarrow> temperature_drop \<le> int (length history)
             \<and> action (last (states traj'))
                 = node_action (BestChild (MCTSearch (st_current_player ops state) state))
             \<and> state' = st_apply_action ops state
                 (node_action (BestChild (MCTSearch (st_current_player ops state) state)))"
    for state' history' traj' fin
    by (auto simp: PlayGame_decision_def Let_def select_action_node_def m
        split: if_splits sum.splits)
  show ?thesis using 1 2 3 4 by blast
qed

text \<open>With \<^verbatim>\<open>temperature_drop = 2\<close> in the counter game: after two moves the best child is
  taken and the game goes on; after one move the selection is the fatal error.\<close>

theorem PlayGame_best_child_or_fatal_witness:
  "select_action_node (\<lambda>r. r) [''a'', ''a''] 2 (counter_search 0 2) = Inr (counter_search 0 2)
   \<and> select_action_node (\<lambda>r. r) [''a''] 2 (counter_search 1 1)
       = Inl (SpielFatalError ''Need SampleFromChildren to use temp drop.'')
   \<and> PlayGame_decision counter_ops counter_search (\<lambda>r. r) 2 1 2 [''a'', ''a'']
        \<lparr>states = [], returns = []\<rparr> 0
       = Inr (3, [''a'', ''a'', ''a''],
              \<lparr>states = [\<lparr>observation = [2], current_player = 0, action = 7, state_value = 0,
                          accum_luck = 0\<rparr>], returns = []\<rparr>, False)"
proof -
  have a: "(0::int) \<le> 2" "(2::int) \<le> INT_MAX" by (simp_all add: INT_MAX_def)
  have 1: "select_action_node (\<lambda>r. r) [''a'', ''a''] 2 (counter_search 0 2) = Inr (counter_search 0 2)"
    using PlayGame_best_child_or_fatal[OF a, where history="[''a'', ''a'']" and BestChild="\<lambda>r. r"
        and search_root="counter_search 0 2" and ops=counter_ops and MCTSearch=counter_search
        and state=2 and traj="\<lparr>states = [], returns = []\<rparr>" and cutoff_value=1 and accum=0]
    by simp
  have 2: "select_action_node (\<lambda>r. r) [''a''] 2 (counter_search 1 1)
       = Inl (SpielFatalError ''Need SampleFromChildren to use temp drop.'')"
    using PlayGame_best_child_or_fatal[OF a, where history="[''a'']" and BestChild="\<lambda>r. r"
        and search_root="counter_search 1 1" and ops=counter_ops and MCTSearch=counter_search
        and state=1 and traj="\<lparr>states = [], returns = []\<rparr>" and cutoff_value=1 and accum=0]
    by simp
  have 3: "PlayGame_decision counter_ops counter_search (\<lambda>r. r) 2 1 2 [''a'', ''a'']
        \<lparr>states = [], returns = []\<rparr> 0
       = Inr (3, [''a'', ''a'', ''a''],
              \<lparr>states = [\<lparr>observation = [2], current_player = 0, action = 7, state_value = 0,
                          accum_luck = 0\<rparr>], returns = []\<rparr>, False)"
    by (simp add: PlayGame_decision_def select_action_node_def counter_ops_def
        counter_search_def Let_def numeral_eq_Suc)
  show ?thesis using 1 2 3 by simp
qed

text \<open>At the first decision state of a game with \<^verbatim>\<open>temperature_drop = 1\<close>, a state before
  \<^verbatim>\<open>temperature_drop\<close> moves, no action is sampled: the decision branch is the fatal
  error.\<close>

theorem PlayGame_no_sampling_counterexample:
  "PlayGame_decision counter_ops counter_search (\<lambda>r. r) 1 1 0 [] \<lparr>states = [], returns = []\<rparr> 0
     = Inl (SpielFatalError ''Need SampleFromChildren to use temp drop.'')"
  by (simp add: PlayGame_decision_def select_action_node_def Let_def)

subsection \<open>The learner leaves the cache of the actors alone\<close>

text \<open>
  C3. The learner clears the cache of its own evaluator \<^verbatim>\<open>eval\<close>, while the actor and
  evaluator threads are served by \<^verbatim>\<open>inf_eval\<close>, whose cache no step of the learner touches
  (\<open>learner_step_inf_eval\<close>). In the run below an actor evaluates the observation \<open>[0]\<close> with
  the weights 0, the learner takes a step to the weights 1, and the actor's next evaluation
  of \<open>[0]\<close> still returns the cached \<open>[0]\<close>, not the value \<open>[1]\<close> of the new weights.
\<close>

theorem learner_step_stale_cache:
  "(let run0 = AlphaZero_start (0::nat) 10;
        (v0, run1) = actor_evaluate version_net run0 [0];
        run2 = learner_step Suc run1;
        (v1, run3) = actor_evaluate version_net run2 [0]
    in v1 = [0] \<and> version_net (weights run2) [0] = [1] \<and> cache (inf_eval run2) = [([0], [0])])"
  by (simp add: AlphaZero_start_def new_evaluator_def actor_evaluate_def Evaluate_def
      learner_step_def CacheInfo_size_def ClearCache_def version_net_def Let_def)

subsection \<open>The round trip of the model configuration\<close>

text \<open>
  C9. Let the observation shape be \<open>[c, h, w]\<close>, let these and \<^verbatim>\<open>nn_depth\<close> and \<^verbatim>\<open>nn_width\<close>
  be 32-bit integers, let \<^verbatim>\<open>nn_model\<close> be a non-empty string without white space, let the
  texts written for \<^verbatim>\<open>learning_rate\<close> and \<^verbatim>\<open>weight_decay\<close> read back as these values, and
  let the file be writable. Then \<^verbatim>\<open>SaveModelConfig\<close> returns true and writes the scalars
  \<open>c h w depth width lr wd model_name\<close> separated by single spaces, and \<^verbatim>\<open>LoadModelConfig\<close> on
  that file returns the configuration that was saved.
\<close>

theorem ModelConfig_save_load:
  assumes "observation_tensor_shape config = [c, h, w]"
    and "int_range c" and "int_range h" and "int_range w"
    and "int_range (nn_depth config)" and "int_range (nn_width config)"
    and "nn_model config \<noteq> []" and "\<forall>ch \<in> set (nn_model config). \<not> is_space ch"
    and "double_round_trip show_double read_double (learning_rate config)"
    and "double_round_trip show_double read_double (weight_decay config)"
    and "writable (path @ ''/'' @ filename)"
  shows "\<exists>fs'. SaveModelConfig show_double writable fs path filename config = Some (True, fs')
     \<and> fs' (path @ ''/'' @ filename)
          = Some (show_int c @ '' '' @ show_int h @ '' '' @ show_int w @ '' ''
             @ show_int (nn_depth config) @ '' '' @ show_int (nn_width config) @ '' ''
             @ show_double (learning_rate config) @ '' ''
             @ show_double (weight_decay config) @ '' '' @ nn_model config)
     \<and> LoadModelConfig read_double fs' path filename = Some config"
proof -
  obtain content where t: "write_ModelConfig show_double config = Some content"
    "read_ModelConfig read_double content = Some config"
    using read_write_ModelConfig[OF assms(1-10)] by blast
  have e: "content = show_int c @ '' '' @ show_int h @ '' '' @ show_int w @ '' ''
             @ show_int (nn_depth config) @ '' '' @ show_int (nn_width config) @ '' ''
             @ show_double (learning_rate config) @ '' ''
             @ show_double (weight_decay config) @ '' '' @ nn_model config"
    using t(1) assms(1) by (simp add: write_ModelConfig_def)
  show ?thesis
    using t assms(11) e by (simp add: SaveModelConfig_def LoadModelConfig_def)
qed

text \<open>A configuration with the model name \<^verbatim>\<open>resnet\<close> and learning rate and weight decay
  0.\<close>

theorem ModelConfig_save_load_witness:
  "map_option fst (SaveModelConfig zero_show (\<lambda>f. True) Map.empty ''az'' ''vpnet.pb''
       (example_config ''resnet'')) = Some True
   \<and> snd (the (SaveModelConfig zero_show (\<lambda>f. True) Map.empty ''az'' ''vpnet.pb''
       (example_config ''resnet''))) ''az/vpnet.pb'' = Some ''4 8 8 2 64 0 0 resnet''
   \<and> LoadModelConfig zero_read
       (snd (the (SaveModelConfig zero_show (\<lambda>f. True) Map.empty ''az'' ''vpnet.pb''
          (example_config ''resnet'')))) ''az'' ''vpnet.pb''
     = Some (example_config ''resnet'')"
proof -
  let ?c = "example_config ''resnet''"
  have 1: "observation_tensor_shape ?c = [4, 8, 8]" by (simp add: example_config_def)
  have 2: "int_range 4" "int_range 8" "int_range (nn_depth ?c)" "int_range (nn_width ?c)"
    by (simp_all add: int_range_def INT_MIN_def INT_MAX_def example_config_def)
  have 3: "nn_model ?c \<noteq> []" "\<forall>ch \<in> set (nn_model ?c). \<not> is_space ch"
    by (simp_all add: example_config_def is_space_def)
  have 4: "double_round_trip zero_show zero_read (learning_rate ?c)"
    "double_round_trip zero_show zero_read (weight_decay ?c)"
    using zero_round_trip by (simp_all add: example_config_def)
  have 5: "(\<lambda>f. True) (''az'' @ ''/'' @ ''vpnet.pb'')" by simp
  have s: "snd (the (SaveModelConfig zero_show (\<lambda>f. True) Map.empty ''az'' ''vpnet.pb'' ?c))
      ''az/vpnet.pb'' = Some ''4 8 8 2 64 0 0 resnet''"
    by code_simp
  obtain fs' where f: "SaveModelConfig zero_show (\<lambda>f. True) Map.empty ''az'' ''vpnet.pb'' ?c
        = Some (True, fs')"
      "LoadModelConfig zero_read fs' ''az'' ''vpnet.pb'' = Some ?c"
    using ModelConfig_save_load[where writable="\<lambda>f. True" and fs=Map.empty,
        OF 1 2(1) 2(2) 2(2) 2(3) 2(4) 3 4 5]
    by blast
  show ?thesis using s f by simp
qed

text \<open>The same configuration with the model name \<^verbatim>\<open>res net\<close> is saved, and loaded with the
  model name \<^verbatim>\<open>res\<close>.\<close>

theorem ModelConfig_save_load_counterexample:
  "map_option fst (SaveModelConfig zero_show (\<lambda>f. True) Map.empty ''az'' ''vpnet.pb''
       (example_config ''res net'')) = Some True
   \<and> snd (the (SaveModelConfig zero_show (\<lambda>f. True) Map.empty ''az'' ''vpnet.pb''
       (example_config ''res net''))) ''az/vpnet.pb'' = Some ''4 8 8 2 64 0 0 res net''
   \<and> map_option nn_model (LoadModelConfig zero_read
       (snd (the (SaveModelConfig zero_show (\<lambda>f. True) Map.empty ''az'' ''vpnet.pb''
          (example_config ''res net'')))) ''az'' ''vpnet.pb'')
     = Some ''res''
   \<and> nn_model (example_config ''res net'') = ''res net''"
proof -
  have 1: "map_option fst (SaveModelConfig zero_show (\<lambda>f. True) Map.empty ''az'' ''vpnet.pb''
       (example_config ''res net'')) = Some True"
    by code_simp
  have 2: "snd (the (SaveModelConfig zero_show (\<lambda>f. True) Map.empty ''az'' ''vpnet.pb''
       (example_config ''res net''))) ''az/vpnet.pb'' = Some ''4 8 8 2 64 0 0 res net''"
    by code_simp
  have 3: "map_option nn_model (LoadModelConfig zero_read
       (snd (the (SaveModelConfig zero_show (\<lambda>f. True) Map.empty ''az'' ''vpnet.pb''
          (example_config ''res net'')))) ''az'' ''vpnet.pb'')
     = Some ''res''"
    by code_simp
  have 4: "nn_model (example_config ''res net'') = ''res net''"
    by (simp add: example_config_def)
  show ?thesis using 1 2 3 4 by simp
qed

end
